(* ===== verification/Csilk_Prelude.thy ===== *)
theory Csilk_Prelude
  imports Main "HOL-Library.Word" "HOL-Library.List_Lexorder" "HOL-Library.Char_ord"
    "HOL-Library.Product_Lexorder"
begin

text \<open>
  The vocabulary shared by the component theories: C strings and buffers as character lists, the
  machine words of the sources, little-endian loads, the bit scans behind the SIMD code, and the
  allocator.

  \<^item> A NUL-terminated C string is the list of its characters before the terminator; reading
    one past the last character gives NUL (\<open>deref\<close>).
  \<^item> A C function that can run into undefined behaviour (a write or read outside an object)
    returns an \<open>option\<close>: \<open>None\<close> is the undefined run, \<open>Some r\<close> a defined one.
  \<^item> \<open>malloc\<close>, \<open>calloc\<close>, \<open>strdup\<close> and the arena allocator can each fail. The model threads a
    \<open>heap\<close>, the list of the outcomes of the coming allocations (an exhausted list means success),
    which is what the \<open>TEST_OOM\<close> hook of arena.c injects.
\<close>

named_theorems c_defs
  \<open>definitional equations of small helper operations\<close>
named_theorems wf_rules
  \<open>preservation of the well-formedness invariants\<close>

type_synonym u8 = "8 word"
type_synonym u16 = "16 word"
type_synonym u32 = "32 word"
type_synonym u64 = "64 word"
type_synonym heap = "bool list"

section \<open>Characters and C strings\<close>

abbreviation NUL :: char where "NUL \<equiv> CHR 0x00"
abbreviation CR :: char where "CR \<equiv> CHR 0x0D"
abbreviation LF :: char where "LF \<equiv> CHR 0x0A"
abbreviation TAB :: char where "TAB \<equiv> CHR 0x09"
abbreviation DQUOTE :: char where "DQUOTE \<equiv> CHR 0x22"
abbreviation BACKSLASH :: char where "BACKSLASH \<equiv> CHR 0x5C"

definition deref :: "string \<Rightarrow> char" where
  [c_defs]: "deref p = (case p of [] \<Rightarrow> NUL | c # _ \<Rightarrow> c)"

lemma deref_simps [simp]: "deref [] = NUL" "deref (c # cs) = c"
  by (simp_all add: deref_def)

text \<open>The byte value of a character (\<open>(unsigned char)c\<close>).\<close>

definition byte :: "char \<Rightarrow> nat" where
  "byte c = of_char c"

lemma byte_less: "byte c < 256"
  by (simp add: byte_def)

lemma byte_eq_iff [simp]: "byte c = byte d \<longleftrightarrow> c = d"
  by (simp add: byte_def)

lemma byte_eq_0_iff [simp]: "byte c = 0 \<longleftrightarrow> c = NUL"
proof -
  have "byte NUL = 0" by (simp add: byte_def)
  then show ?thesis by (metis byte_eq_iff)
qed

lemma char_of_byte [simp]: "char_of (byte c) = c"
  by (simp add: byte_def)

text \<open>\<open>strcmp\<close> on the contents of two strings; only the sign of its result is specified.\<close>

fun strcmp :: "string \<Rightarrow> string \<Rightarrow> int" where
  "strcmp [] [] = 0"
| "strcmp [] (d # ds) = - 1"
| "strcmp (c # cs) [] = 1"
| "strcmp (c # cs) (d # ds) =
     (if c = d then strcmp cs ds else int (byte c) - int (byte d))"

lemma strcmp_eq_0_iff [simp]: "strcmp s t = 0 \<longleftrightarrow> s = t"
  by (induction s t rule: strcmp.induct) auto

lemma byte_less_iff: "byte c < byte d \<longleftrightarrow> c < d"
  by (simp add: byte_def less_char_def)

lemma strcmp_less_0_iff: "strcmp s t < 0 \<longleftrightarrow> s < t"
  by (induction s t rule: strcmp.induct) (auto simp: byte_less_iff)

section \<open>Lists\<close>

lemma length_takeWhile_less_iff: "length (takeWhile P xs) < length xs \<longleftrightarrow> (\<exists>x\<in>set xs. \<not> P x)"
  by (induction xs) auto

lemma takeWhile_prefixD: "i < length (takeWhile P xs) \<Longrightarrow> P (xs ! i)"
  by (metis nth_mem set_takeWhileD takeWhile_nth)

lemma length_takeWhile_split:
  "length (takeWhile P xs) =
     (if \<exists>x\<in>set (take n xs). \<not> P x then length (takeWhile P (take n xs))
      else length (take n xs) + length (takeWhile P (drop n xs)))"
proof -
  have "takeWhile P xs = takeWhile P (take n xs @ drop n xs)" by simp
  also have "length \<dots> =
     (if \<exists>x\<in>set (take n xs). \<not> P x then length (takeWhile P (take n xs))
      else length (take n xs) + length (takeWhile P (drop n xs)))"
    by (auto simp: takeWhile_append simp del: append_take_drop_id length_take)
  finally show ?thesis .
qed

lemma takeWhile_upto: "x \<notin> set s \<Longrightarrow> takeWhile (\<lambda>c. c \<noteq> x) (s @ x # t) = s \<and> dropWhile (\<lambda>c. c \<noteq> x) (s @ x # t) = x # t"
  by (induction s) auto

lemma takeWhile_whole: "x \<notin> set s \<Longrightarrow> takeWhile (\<lambda>c. c \<noteq> x) s = s \<and> dropWhile (\<lambda>c. c \<noteq> x) s = []"
  by (induction s) auto

section \<open>The allocator\<close>

definition malloc :: "heap \<Rightarrow> bool \<times> heap" where
  "malloc al = (case al of [] \<Rightarrow> (True, []) | b # bs \<Rightarrow> (b, bs))"

lemma malloc_simps [simp]: "malloc [] = (True, [])" "malloc (b # bs) = (b, bs)"
  by (simp_all add: malloc_def)

lemma malloc_Nil: "malloc al = (ok, al') \<Longrightarrow> al = [] \<Longrightarrow> ok \<and> al' = []"
  by simp

section \<open>Little-endian loads\<close>

text \<open>\<open>memcpy(&v, p, n)\<close> into an unsigned integer on a little-endian machine.\<close>

primrec le_nat :: "string \<Rightarrow> nat" where
  "le_nat [] = 0"
| "le_nat (c # cs) = byte c + 256 * le_nat cs"

definition le_load :: "string \<Rightarrow> 'a::len word" where
  "le_load cs = of_nat (le_nat cs)"

lemma le_nat_less: "le_nat cs < 256 ^ length cs"
proof (induction cs)
  case (Cons c cs)
  have "byte c + 256 * le_nat cs < 256 + 256 * le_nat cs"
    using byte_less by simp
  also have "\<dots> \<le> 256 * 256 ^ length cs"
    using Cons.IH by (simp add: Suc_leI flip: mult_Suc_right)
  finally show ?case by simp
qed simp

lemma le_nat_inj: "length xs = length ys \<Longrightarrow> le_nat xs = le_nat ys \<longleftrightarrow> xs = ys"
proof (induction xs ys rule: list_induct2)
  case (Cons x xs y ys)
  show ?case
  proof
    assume eq: "le_nat (x # xs) = le_nat (y # ys)"
    have "byte x = byte y"
      using arg_cong[OF eq, of "\<lambda>n. n mod 256"] byte_less[of x] byte_less[of y] by simp
    with eq Cons.IH show "x # xs = y # ys" by simp
  qed simp
qed simp

lemma unat_le_load:
  assumes "8 * length cs \<le> LENGTH('a::len)"
  shows "unat (le_load cs :: 'a word) = le_nat cs"
proof -
  have "le_nat cs < 256 ^ length cs" by (rule le_nat_less)
  also have "\<dots> = 2 ^ (8 * length cs)" by (simp add: power_mult)
  also have "\<dots> \<le> 2 ^ LENGTH('a)" using assms by (simp add: power_increasing)
  finally show ?thesis by (simp add: le_load_def unat_of_nat take_bit_nat_eq_self)
qed

lemma le_load_eq_iff:
  assumes "length xs = length ys" and "8 * length xs \<le> LENGTH('a::len)"
  shows "(le_load xs :: 'a word) = le_load ys \<longleftrightarrow> xs = ys"
  using assms by (metis le_nat_inj unat_le_load)

end
