(* ===== verification/Bit_Scan.thy ===== *)
theory Bit_Scan
  imports Csilk_Prelude
begin

text \<open>
  The bit-level vocabulary of the vector code: \<open>__builtin_ctz\<close>, the one-bit-per-lane masks of
  \<open>_mm256_movemask_epi8\<close> and \<open>_mm512_cmpeq_epi8_mask\<close>, and the one-byte-per-lane masks of the NEON
  comparisons. The lemmas say that counting the trailing zeros of such a mask finds the first lane
  that compared true, and that counting those of the exclusive or of two little-endian loads finds
  the first byte in which they differ.
\<close>

unbundle bit_operations_syntax

section \<open>Counting trailing zeros\<close>

fun ctz_nat :: "nat \<Rightarrow> nat" where
  "ctz_nat n = (if n = 0 \<or> odd n then 0 else Suc (ctz_nat (n div 2)))"

declare ctz_nat.simps [simp del]

definition ctz :: "'a::len word \<Rightarrow> nat" where
  "ctz w = ctz_nat (unat w)"

lemma ctz_nat_odd [simp]: "odd n \<Longrightarrow> ctz_nat n = 0"
  by (subst ctz_nat.simps) simp

lemma ctz_nat_double: "0 < n \<Longrightarrow> ctz_nat (2 * n) = Suc (ctz_nat n)"
  by (subst ctz_nat.simps) simp

lemma ctz_nat_mult_pow2: "0 < n \<Longrightarrow> ctz_nat (2 ^ k * n) = k + ctz_nat n"
  by (induction k) (simp_all add: ctz_nat_double mult.assoc)

lemma ctz_nat_add_mult:
  assumes "0 < a" and "a < 2 ^ k"
  shows "ctz_nat (a + 2 ^ k * b) = ctz_nat a \<and> ctz_nat a < k"
  using assms
proof (induction k arbitrary: a)
  case (Suc k)
  show ?case
  proof (cases "odd a")
    case False
    then obtain a' where a': "a = 2 * a'" by blast
    with Suc.prems have "0 < a'" "a' < 2 ^ k" by auto
    then have IH: "ctz_nat (a' + 2 ^ k * b) = ctz_nat a'" "ctz_nat a' < k"
      using Suc.IH[of a'] by simp_all
    have split: "a + 2 ^ Suc k * b = 2 * (a' + 2 ^ k * b)"
      by (simp add: a')
    have "ctz_nat (2 * (a' + 2 ^ k * b)) = Suc (ctz_nat (a' + 2 ^ k * b))"
      using \<open>0 < a'\<close> by (intro ctz_nat_double) simp
    with split have "ctz_nat (a + 2 ^ Suc k * b) = Suc (ctz_nat (a' + 2 ^ k * b))"
      by (simp only:)
    moreover have "ctz_nat a = Suc (ctz_nat a')"
      using \<open>0 < a'\<close> unfolding a' by (rule ctz_nat_double)
    ultimately show ?thesis
      using IH by simp
  qed simp
qed simp

section \<open>One bit per lane\<close>

primrec lanes_nat :: "bool list \<Rightarrow> nat" where
  "lanes_nat [] = 0"
| "lanes_nat (b # bs) = of_bool b + 2 * lanes_nat bs"

definition movemask :: "bool list \<Rightarrow> 'a::len word" where
  "movemask bs = of_nat (lanes_nat bs)"

lemma lanes_nat_less: "lanes_nat bs < 2 ^ length bs"
  by (induction bs) auto

lemma lanes_nat_eq_0_iff: "lanes_nat bs = 0 \<longleftrightarrow> True \<notin> set bs"
  by (induction bs) auto

lemma lanes_nat_full_iff: "Suc (lanes_nat bs) = 2 ^ length bs \<longleftrightarrow> False \<notin> set bs"
proof (induction bs)
  case (Cons b bs)
  have "Suc (1 + 2 * x) = 2 * y \<longleftrightarrow> Suc x = y" and "Suc (2 * x) \<noteq> 2 * y" for x y :: nat
    by presburger+
  with Cons.IH show ?case by (cases b) simp_all
qed simp

lemma ctz_lanes_nat:
  "True \<in> set bs \<Longrightarrow> ctz_nat (lanes_nat bs) = length (takeWhile Not bs)"
proof (induction bs)
  case (Cons b bs)
  then show ?case
    by (cases b) (auto simp: ctz_nat_double lanes_nat_eq_0_iff simp flip: neq0_conv)
qed simp

lemma unat_movemask:
  assumes "length bs \<le> LENGTH('a::len)"
  shows "unat (movemask bs :: 'a word) = lanes_nat bs"
proof -
  have "lanes_nat bs < 2 ^ length bs" by (rule lanes_nat_less)
  also have "\<dots> \<le> 2 ^ LENGTH('a)" using assms by (simp add: power_increasing)
  finally show ?thesis
    by (simp add: movemask_def unat_of_nat take_bit_nat_eq_self)
qed

lemma movemask_eq_0_iff:
  "length bs \<le> LENGTH('a::len) \<Longrightarrow> (movemask bs :: 'a word) = 0 \<longleftrightarrow> True \<notin> set bs"
  by (metis lanes_nat_eq_0_iff unat_eq_zero unat_movemask)

lemma movemask_full_iff:
  assumes "length bs = LENGTH('a::len)"
  shows "(movemask bs :: 'a word) = - 1 \<longleftrightarrow> False \<notin> set bs"
proof -
  have "Suc (unat (- 1 :: 'a word)) = 2 ^ length bs"
    using assms by (simp add: unsigned_minus_1_eq_mask mask_eq_exp_minus_1)
  then show ?thesis
    using assms lanes_nat_full_iff[of bs] unat_movemask[of bs, where 'a = 'a]
    by (metis nat.inject order_refl word_unat_eq_iff)
qed

lemma ctz_movemask:
  assumes "length bs \<le> LENGTH('a::len)" and "True \<in> set bs"
  shows "ctz (movemask bs :: 'a word) = length (takeWhile Not bs)"
  using assms by (simp add: ctz_def unat_movemask ctz_lanes_nat)

lemma movemask_or:
  assumes "length xs = length ys"
  shows "(movemask xs OR movemask ys :: 'a::len word) = movemask (map2 (\<or>) xs ys)"
proof -
  have "lanes_nat (map2 (\<or>) xs ys) = lanes_nat xs OR lanes_nat ys"
    using assms
  proof (induction xs ys rule: list_induct2)
    case (Cons x xs y ys)
    then show ?case
      by (subst or_nat_rec) (cases x; cases y; simp)
  qed simp
  then show ?thesis by (simp add: movemask_def of_nat_or_eq)
qed

lemma NOT_movemask:
  assumes "length bs = LENGTH('a::len)"
  shows "NOT (movemask bs :: 'a word) = movemask (map Not bs)"
proof -
  have sum: "Suc (lanes_nat bs + lanes_nat (map Not bs)) = 2 ^ length bs" for bs
  proof (induction bs)
    case (Cons b bs)
    from Cons.IH[symmetric] show ?case by (cases b) simp_all
  qed simp
  have "of_nat (Suc (lanes_nat bs + lanes_nat (map Not bs))) = (0 :: 'a word)"
    by (simp only: sum assms) (metis of_nat_numeral of_nat_power word_exp_length_eq_0)
  then show ?thesis
    by (simp add: movemask_def not_eq_complement algebra_simps neg_eq_iff_add_eq_0)
qed

section \<open>One byte per lane\<close>

lemma le_nat_eq_0_iff: "le_nat cs = 0 \<longleftrightarrow> set cs \<subseteq> {NUL}"
  by (induction cs) auto

lemma byte_pos: "c \<noteq> NUL \<Longrightarrow> 0 < byte c"
  by (metis byte_eq_0_iff gr0I)

lemma ctz_le_nat:
  assumes "le_nat cs \<noteq> 0"
  shows "ctz_nat (le_nat cs) div 8 = length (takeWhile (\<lambda>c. c = NUL) cs)"
  using assms
proof (induction cs)
  case (Cons c cs)
  show ?case
  proof (cases "c = NUL")
    case True
    with Cons.prems have "0 < le_nat cs" by (simp add: byte_def)
    moreover have "ctz_nat (2 ^ 8 * le_nat cs) = 8 + ctz_nat (le_nat cs)"
      using \<open>0 < le_nat cs\<close> by (rule ctz_nat_mult_pow2)
    ultimately show ?thesis
      using Cons.IH True by (simp add: byte_def)
  next
    case False
    then have "ctz_nat (byte c + 2 ^ 8 * le_nat cs) = ctz_nat (byte c) \<and> ctz_nat (byte c) < 8"
      using byte_pos byte_less[of c] by (intro ctz_nat_add_mult) auto
    with False show ?thesis by simp
  qed
qed simp

lemma le_load_eq_0_iff:
  "8 * length cs \<le> LENGTH('a::len) \<Longrightarrow> (le_load cs :: 'a word) = 0 \<longleftrightarrow> set cs \<subseteq> {NUL}"
  using unat_le_load[of cs, where 'a = 'a] by (simp add: le_nat_eq_0_iff flip: unat_eq_zero)

lemma ctz_le_load:
  assumes "8 * length cs \<le> LENGTH('a::len)" and "(le_load cs :: 'a word) \<noteq> 0"
  shows "ctz (le_load cs :: 'a word) div 8 = length (takeWhile (\<lambda>c. c = NUL) cs)"
proof -
  have "le_nat cs \<noteq> 0"
  proof
    assume "le_nat cs = 0"
    then have "(le_load cs :: 'a word) = 0" by (simp add: le_load_def)
    with assms(2) show False by simp
  qed
  then show ?thesis
    unfolding ctz_def unat_le_load[OF assms(1)] by (rule ctz_le_nat)
qed

text \<open>The vector comparison \<open>vceqq_u8\<close> leaves \<open>0xFF\<close> in the lanes that compare equal.\<close>

definition byte_lanes :: "bool list \<Rightarrow> string" where
  "byte_lanes bs = map (\<lambda>b. if b then CHR 0xFF else NUL) bs"

lemma length_byte_lanes [simp]: "length (byte_lanes bs) = length bs"
  by (simp add: byte_lanes_def)

lemma byte_lanes_NUL_iff: "set (byte_lanes bs) \<subseteq> {NUL} \<longleftrightarrow> True \<notin> set bs"
  by (induction bs) (auto simp: byte_lanes_def)

lemma takeWhile_byte_lanes:
  "length (takeWhile (\<lambda>c. c = NUL) (byte_lanes bs)) = length (takeWhile Not bs)"
  by (induction bs) (simp_all add: byte_lanes_def)

text \<open>The exclusive or of two loads is the load of the bytewise exclusive or.\<close>

definition char_xor :: "char \<Rightarrow> char \<Rightarrow> char" where
  "char_xor c d = char_of (byte c XOR byte d)"

lemma byte_xor: "byte (char_xor c d) = byte c XOR byte d"
proof -
  have "take_bit 8 (byte c XOR byte d) = byte c XOR byte d"
    using byte_less[of c] byte_less[of d] by (simp add: take_bit_xor take_bit_nat_eq_self)
  then have "byte c XOR byte d < 2 ^ 8"
    by (metis take_bit_nat_less_exp)
  then show ?thesis
    by (simp add: char_xor_def byte_def of_char_of)
qed

lemma nat_xor_eq_0_iff: "a XOR b = 0 \<longleftrightarrow> a = b" for a b :: nat
proof
  assume "a XOR b = 0"
  then have "bit (a XOR b) n = False" for n by simp
  then show "a = b" by (simp add: bit_eq_iff bit_xor_iff)
qed simp

lemma char_xor_eq_NUL_iff: "char_xor c d = NUL \<longleftrightarrow> c = d"
proof -
  have "char_xor c d = NUL \<longleftrightarrow> byte (char_xor c d) = byte NUL"
    by simp
  also have "\<dots> \<longleftrightarrow> byte c XOR byte d = 0"
    by (simp only: byte_xor) (simp add: byte_def)
  also have "\<dots> \<longleftrightarrow> c = d"
    by (simp add: nat_xor_eq_0_iff)
  finally show ?thesis .
qed

end
