(* ===== verification/Router_Simd.thy ===== *)
theory Router_Simd
  imports Bit_Scan "HOL-Library.Monad_Syntax"
begin

text \<open>
  Model of src/core/primitives/router_simd.c: path segment extraction, buffer comparison, character
  search and common prefix length, in their AVX-512, AVX2, NEON and scalar variants.

  Segment extraction runs on an explicit memory in which an address may be unmapped, because the
  vector variants read past the end of the string: a load that touches an unmapped byte gives
  \<open>None\<close> (the fault the page guard of the code is there to prevent). The other routines read
  only inside their buffers and run on the buffers' contents.
\<close>

section \<open>Processor and memory\<close>

text \<open>The builds the preprocessor distinguishes, with the features detected at run time.\<close>

datatype cpu = X86_64 bool bool | AARCH64 | ARM32_NEON | GENERIC

fun csilk_has_avx512 :: "cpu \<Rightarrow> bool" where
  "csilk_has_avx512 (X86_64 avx512 avx2) = avx512"
| "csilk_has_avx512 _ = False"

fun csilk_has_avx2 :: "cpu \<Rightarrow> bool" where
  "csilk_has_avx2 (X86_64 avx512 avx2) = avx2"
| "csilk_has_avx2 _ = False"

definition csilk_has_neon :: "cpu \<Rightarrow> bool" where
  "csilk_has_neon cpu = (cpu = AARCH64 \<or> cpu = ARM32_NEON)"

fun word_loads :: "cpu \<Rightarrow> bool" where
  "word_loads (X86_64 _ _) = True"
| "word_loads AARCH64 = True"
| "word_loads _ = False"

type_synonym memory = "nat \<Rightarrow> char option"

definition load_bytes :: "memory \<Rightarrow> nat \<Rightarrow> nat \<Rightarrow> string option" where
  "load_bytes m a n = those (map m [a..<a + n])"

text \<open>Memory is mapped a page of 4096 bytes at a time.\<close>

definition page_granular :: "memory \<Rightarrow> bool" where
  "page_granular m = (\<forall>a b. a div 4096 = b div 4096 \<longrightarrow> m a \<noteq> None \<longrightarrow> m b \<noteq> None)"

text \<open>The NUL-terminated string \<open>s\<close> is stored at the non-null address \<open>p\<close>.\<close>

definition cstr_at :: "memory \<Rightarrow> nat \<Rightarrow> string \<Rightarrow> bool" where
  "cstr_at m p s = (p \<noteq> 0 \<and> NUL \<notin> set s \<and>
     (\<forall>i < length s. m (p + i) = Some (s ! i)) \<and> m (p + length s) = Some NUL)"

section \<open>Segment extraction\<close>

partial_function (option) skip_slashes :: "memory \<Rightarrow> nat \<Rightarrow> nat option" where
  "skip_slashes m p = do {
     c \<leftarrow> m p;
     if c = CHR ''/'' then skip_slashes m (p + 1) else Some p
   }"

partial_function (option) scan_avx512 :: "memory \<Rightarrow> nat \<Rightarrow> nat option" where
  "scan_avx512 m cur =
     (if cur mod 4096 \<le> 4096 - 64 then do {
        data \<leftarrow> load_bytes m cur 64;
        let cmp_slash = (movemask (map (\<lambda>c. c = CHR ''/'') data) :: u64);
        let cmp_zero = (movemask (map (\<lambda>c. c = NUL) data) :: u64);
        let cmp_combined = cmp_slash OR cmp_zero;
        if cmp_combined \<noteq> 0 then Some (cur + ctz cmp_combined)
        else scan_avx512 m (cur + 64)
      } else do {
        c \<leftarrow> m cur;
        if c = CHR ''/'' \<or> c = NUL then Some cur else scan_avx512 m (cur + 1)
      })"

partial_function (option) scan_avx2 :: "memory \<Rightarrow> nat \<Rightarrow> nat option" where
  "scan_avx2 m cur =
     (if cur mod 4096 \<le> 4096 - 32 then do {
        data \<leftarrow> load_bytes m cur 32;
        let cmp_slash = map (\<lambda>c. c = CHR ''/'') data;
        let cmp_zero = map (\<lambda>c. c = NUL) data;
        let cmp_combined = map2 (\<or>) cmp_slash cmp_zero;
        let mask = (movemask cmp_combined :: u32);
        if mask \<noteq> 0 then Some (cur + ctz mask) else scan_avx2 m (cur + 32)
      } else do {
        c \<leftarrow> m cur;
        if c = CHR ''/'' \<or> c = NUL then Some cur else scan_avx2 m (cur + 1)
      })"

partial_function (option) scan_neon :: "memory \<Rightarrow> nat \<Rightarrow> nat option" where
  "scan_neon m cur =
     (if cur mod 4096 \<le> 4096 - 16 then do {
        data \<leftarrow> load_bytes m cur 16;
        let cmp_slash = map (\<lambda>c. c = CHR ''/'') data;
        let cmp_zero = map (\<lambda>c. c = NUL) data;
        let cmp_combined = byte_lanes (map2 (\<or>) cmp_slash cmp_zero);
        let mask_low = (le_load (take 8 cmp_combined) :: u64);
        let mask_high = (le_load (drop 8 cmp_combined) :: u64);
        if mask_low \<noteq> 0 \<or> mask_high \<noteq> 0 then
          (if mask_low \<noteq> 0 then Some (cur + ctz mask_low div 8)
           else Some (cur + (8 + ctz mask_high div 8)))
        else scan_neon m (cur + 16)
      } else do {
        c \<leftarrow> m cur;
        if c = CHR ''/'' \<or> c = NUL then Some cur else scan_neon m (cur + 1)
      })"

partial_function (option) scan_scalar :: "memory \<Rightarrow> nat \<Rightarrow> nat option" where
  "scan_scalar m p = do {
     c \<leftarrow> m p;
     if c \<noteq> CHR ''/'' \<and> c \<noteq> NUL then scan_scalar m (p + 1) else Some p
   }"

text \<open>The result is the segment (its start and length, or NULL) and the advanced cursor \<open>*p\<close>.\<close>

type_synonym seg_result = "(nat \<times> nat) option \<times> nat"

definition get_next_segment_avx512 :: "memory \<Rightarrow> nat \<Rightarrow> seg_result option" where
  "get_next_segment_avx512 m p = do {
     p \<leftarrow> skip_slashes m p;
     c \<leftarrow> m p;
     if c = NUL then Some (None, p)
     else do { cur \<leftarrow> scan_avx512 m p; Some (Some (p, cur - p), cur) }
   }"

definition get_next_segment_avx2 :: "memory \<Rightarrow> nat \<Rightarrow> seg_result option" where
  "get_next_segment_avx2 m p = do {
     p \<leftarrow> skip_slashes m p;
     c \<leftarrow> m p;
     if c = NUL then Some (None, p)
     else do { cur \<leftarrow> scan_avx2 m p; Some (Some (p, cur - p), cur) }
   }"

definition get_next_segment_neon :: "memory \<Rightarrow> nat \<Rightarrow> seg_result option" where
  "get_next_segment_neon m p = do {
     p \<leftarrow> skip_slashes m p;
     c \<leftarrow> m p;
     if c = NUL then Some (None, p)
     else do { cur \<leftarrow> scan_neon m p; Some (Some (p, cur - p), cur) }
   }"

definition get_next_segment :: "cpu \<Rightarrow> memory \<Rightarrow> nat \<Rightarrow> seg_result option" where
  "get_next_segment cpu m p =
     (if csilk_has_avx512 cpu then get_next_segment_avx512 m p
      else if csilk_has_avx2 cpu then get_next_segment_avx2 m p
      else if csilk_has_neon cpu then get_next_segment_neon m p
      else if p = 0 then Some (None, p)
      else do {
        c \<leftarrow> m p;
        if c = NUL then Some (None, p)
        else do {
          p \<leftarrow> skip_slashes m p;
          c \<leftarrow> m p;
          if c = NUL then Some (None, p)
          else do { cur \<leftarrow> scan_scalar m p; Some (Some (p, cur - p), cur) }
        }
      })"

text \<open>The reference: the next segment of a string and what follows it.\<close>

definition next_segment :: "string \<Rightarrow> (string \<times> string) option" where
  "next_segment s =
     (let s' = dropWhile (\<lambda>c. c = CHR ''/'') s in
      if s' = [] then None
      else Some (takeWhile (\<lambda>c. c \<noteq> CHR ''/'') s', dropWhile (\<lambda>c. c \<noteq> CHR ''/'') s'))"

section \<open>Loads and strings in memory\<close>

abbreviation delim :: "char \<Rightarrow> bool" where
  "delim c \<equiv> c = CHR ''/'' \<or> c = NUL"

abbreviation seg_len :: "string \<Rightarrow> nat" where
  "seg_len s \<equiv> length (takeWhile (\<lambda>c. c \<noteq> CHR ''/'') s)"

lemma those_eq_Some_iff: "those xs = Some ys \<longleftrightarrow> xs = map Some ys"
proof (induction xs arbitrary: ys)
  case (Cons x xs)
  then show ?case by (cases ys) (auto split: option.splits)
qed auto

lemma load_bytes_eq_Some_iff:
  "load_bytes m a n = Some bs \<longleftrightarrow> length bs = n \<and> (\<forall>i < n. m (a + i) = Some (bs ! i))"
  by (auto simp: load_bytes_def those_eq_Some_iff list_eq_iff_nth_eq)

lemma load_bytes_mapped:
  assumes "\<And>i. i < n \<Longrightarrow> m (a + i) \<noteq> None"
  obtains bs where "load_bytes m a n = Some bs" "length bs = n"
    "\<And>i. i < n \<Longrightarrow> m (a + i) = Some (bs ! i)"
proof
  let ?bs = "map (\<lambda>i. the (m (a + i))) [0..<n]"
  show "load_bytes m a n = Some ?bs" "length ?bs = n"
    "\<And>i. i < n \<Longrightarrow> m (a + i) = Some (?bs ! i)"
    using assms by (auto simp: load_bytes_eq_Some_iff)
qed

lemma cstr_at_Cons:
  assumes "cstr_at m p (c # s)"
  shows "m p = Some c" "cstr_at m (p + 1) s" "c \<noteq> NUL"
proof -
  have at: "m (p + i) = Some ((c # s) ! i)" if "i < Suc (length s)" for i
    using assms that by (simp add: cstr_at_def)
  show "m p = Some c" using at[of 0] by simp
  have "m (p + 1 + i) = Some (s ! i)" if "i < length s" for i
    using at[of "Suc i"] that by simp
  then show "cstr_at m (p + 1) s" "c \<noteq> NUL"
    using assms by (auto simp: cstr_at_def)
qed

lemma cstr_at_Nil: "cstr_at m p [] \<Longrightarrow> m p = Some NUL"
  by (simp add: cstr_at_def)

lemma cstr_at_hd: "cstr_at m p s \<Longrightarrow> m p = Some (deref s)"
  by (cases s) (auto dest: cstr_at_Nil cstr_at_Cons)

lemma cstr_at_drop: "cstr_at m p s \<Longrightarrow> n \<le> length s \<Longrightarrow> cstr_at m (p + n) (drop n s)"
  by (auto simp: cstr_at_def dest: in_set_dropD simp: add.assoc)

text \<open>A block read at a string of which it covers a delimiter, or none.\<close>

lemma block_hit:
  assumes s: "cstr_at m p s"
    and bs: "length bs = n" "\<And>i. i < n \<Longrightarrow> m (p + i) = Some (bs ! i)"
    and hit: "\<exists>c\<in>set bs. delim c"
  shows "length (takeWhile (\<lambda>c. \<not> delim c) bs) = seg_len s"
proof -
  let ?k = "length (takeWhile (\<lambda>c. \<not> delim c) bs)"
  have k: "?k < n"
    using hit bs(1) length_takeWhile_less_iff[of "\<lambda>c. \<not> delim c" bs] by blast
  then have at_k: "delim (bs ! ?k)"
    using nth_length_takeWhile[of "\<lambda>c. \<not> delim c" bs] bs(1) by blast
  have before: "\<not> delim (bs ! j)" if "j < ?k" for j
    using that by (rule takeWhile_prefixD)
  have le: "?k \<le> length s"
  proof (rule ccontr)
    assume "\<not> ?k \<le> length s"
    then have "length s < ?k" by simp
    with before[of "length s"] bs(2)[of "length s"] k s show False
      by (auto simp: cstr_at_def)
  qed
  have same: "s ! j = bs ! j" if "j < length s" "j < n" for j
    using that bs(2)[of j] s by (simp add: cstr_at_def)
  have "takeWhile (\<lambda>c. c \<noteq> CHR ''/'') s = take ?k s"
  proof (rule takeWhile_eq_take_P_nth)
    show "s ! i \<noteq> CHR ''/''" if "i < ?k" "i < length s" for i
      using before[of i] same[of i] that k by auto
    show "\<not> s ! ?k \<noteq> CHR ''/''" if "?k < length s"
      using at_k same[of ?k] that k s nth_mem[OF that] by (auto simp: cstr_at_def)
  qed
  with le show ?thesis by simp
qed

lemma block_miss:
  assumes s: "cstr_at m p s"
    and bs: "length bs = n" "\<And>i. i < n \<Longrightarrow> m (p + i) = Some (bs ! i)"
    and miss: "\<not> (\<exists>c\<in>set bs. delim c)"
  shows "n \<le> length s" "seg_len s = n + seg_len (drop n s)"
proof -
  have no: "\<not> delim (bs ! i)" if "i < n" for i
    using miss that bs(1) by (metis nth_mem)
  show le: "n \<le> length s"
  proof (rule ccontr)
    assume "\<not> n \<le> length s"
    then show False
      using no[of "length s"] bs(2)[of "length s"] s by (auto simp: cstr_at_def)
  qed
  have "CHR ''/'' \<notin> set (take n s)"
  proof
    assume "CHR ''/'' \<in> set (take n s)"
    then obtain i where "i < n" "s ! i = CHR ''/''" "i < length s"
      by (auto simp: in_set_conv_nth)
    with no[of i] bs(2)[of i] s show False by (auto simp: cstr_at_def)
  qed
  then have "takeWhile (\<lambda>c. c \<noteq> CHR ''/'') (take n s @ drop n s) =
      take n s @ takeWhile (\<lambda>c. c \<noteq> CHR ''/'') (drop n s)"
    by (intro takeWhile_append2) auto
  with le show "seg_len s = n + seg_len (drop n s)" by simp
qed

section \<open>The block scanners\<close>

text \<open>
  What the three vector scanners have in common: \<open>W\<close> bytes at a time where the block lies inside
  one page, a byte at a time near its end.
\<close>

locale block_scan =
  fixes W :: nat and scan :: "memory \<Rightarrow> nat \<Rightarrow> nat option"
  assumes W_pos: "0 < W" and W_page: "W \<le> 4096"
    and scan_unfold: "scan m cur =
      (if cur mod 4096 \<le> 4096 - W then do {
         data \<leftarrow> load_bytes m cur W;
         if \<exists>c\<in>set data. delim c
         then Some (cur + length (takeWhile (\<lambda>c. \<not> delim c) data))
         else scan m (cur + W)
       } else do {
         c \<leftarrow> m cur;
         if delim c then Some cur else scan m (cur + 1)
       })"
begin

lemma block_in_page:
  assumes "page_granular m" "cur mod 4096 \<le> 4096 - W" "m cur \<noteq> None" "i < W"
  shows "m (cur + i) \<noteq> None"
proof -
  have "cur mod 4096 + i < 4096" using assms(2,4) W_page by simp
  then have "(cur + i) div 4096 = cur div 4096"
    using assms(4) W_page by (simp add: div_add1_eq[of cur i])
  with assms(1,3) show ?thesis by (metis page_granular_def)
qed

lemma scan_correct:
  assumes "page_granular m" "cstr_at m p s"
  shows "scan m p = Some (p + seg_len s)"
  using assms(2)
proof (induction "length s" arbitrary: s p rule: less_induct)
  case less
  have hd: "m p = Some (deref s)" using less.prems by (rule cstr_at_hd)
  show ?case
  proof (cases "p mod 4096 \<le> 4096 - W")
    case True
    then have "m (p + i) \<noteq> None" if "i < W" for i
      using block_in_page[OF assms(1) True _ that] hd by simp
    then obtain bs where bs: "load_bytes m p W = Some bs" "length bs = W"
      "\<And>i. i < W \<Longrightarrow> m (p + i) = Some (bs ! i)"
      using load_bytes_mapped by metis
    show ?thesis
    proof (cases "\<exists>c\<in>set bs. delim c")
      case hit: True
      then show ?thesis
        using True bs(1) block_hit[OF less.prems bs(2,3) hit] by (subst scan_unfold) simp
    next
      case miss: False
      note len = block_miss[OF less.prems bs(2,3) miss]
      have "scan m (p + W) = Some (p + W + seg_len (drop W s))"
        using len(1) W_pos less.prems by (intro less.hyps cstr_at_drop) auto
      then show ?thesis
        using True bs(1) miss len(2) by (subst scan_unfold) simp
    qed
  next
    case False
    show ?thesis
    proof (cases s)
      case Nil
      then show ?thesis using False hd by (subst scan_unfold) simp
    next
      case (Cons c t)
      note tl = cstr_at_Cons[OF less.prems[unfolded Cons]]
      then have "scan m (p + 1) = Some (p + 1 + seg_len t)"
        using Cons by (intro less.hyps) auto
      then show ?thesis using False hd Cons tl by (subst scan_unfold) simp
    qed
  qed
qed

end

lemma lane_map2:
  "map2 (\<or>) (map (\<lambda>c. c = CHR ''/'') data) (map (\<lambda>c. c = NUL) data) = map delim data"
  by (simp add: map2_map_map)

lemma lane_first: "length (takeWhile Not (map P xs)) = length (takeWhile (\<lambda>x. \<not> P x) xs)"
  by (simp add: takeWhile_map comp_def)

interpretation avx512_scan: block_scan 64 scan_avx512
proof
  have step: "(movemask (map (\<lambda>c. c = CHR ''/'') data) OR movemask (map (\<lambda>c. c = NUL) data) :: u64) =
      movemask (map delim data)" for data
    by (simp add: movemask_or lane_map2)
  show "scan_avx512 m cur =
      (if cur mod 4096 \<le> 4096 - 64 then do {
         data \<leftarrow> load_bytes m cur 64;
         if \<exists>c\<in>set data. delim c
         then Some (cur + length (takeWhile (\<lambda>c. \<not> delim c) data))
         else scan_avx512 m (cur + 64)
       } else do {
         c \<leftarrow> m cur;
         if delim c then Some cur else scan_avx512 m (cur + 1)
       })" for m cur
    by (subst scan_avx512.simps, unfold Let_def step)
      (auto simp: movemask_eq_0_iff ctz_movemask lane_first load_bytes_eq_Some_iff
        intro!: Option.bind_cong)
qed simp_all

interpretation avx2_scan: block_scan 32 scan_avx2
proof
  show "scan_avx2 m cur =
      (if cur mod 4096 \<le> 4096 - 32 then do {
         data \<leftarrow> load_bytes m cur 32;
         if \<exists>c\<in>set data. delim c
         then Some (cur + length (takeWhile (\<lambda>c. \<not> delim c) data))
         else scan_avx2 m (cur + 32)
       } else do {
         c \<leftarrow> m cur;
         if delim c then Some cur else scan_avx2 m (cur + 1)
       })" for m cur
    by (subst scan_avx2.simps, unfold Let_def lane_map2)
      (auto simp: movemask_eq_0_iff ctz_movemask lane_first load_bytes_eq_Some_iff
        intro!: Option.bind_cong)
qed simp_all

lemma neon_lanes:
  assumes "length bs = 16"
  defines "low \<equiv> le_load (take 8 (byte_lanes bs)) :: u64"
    and "high \<equiv> le_load (drop 8 (byte_lanes bs)) :: u64"
  shows "low \<noteq> 0 \<or> high \<noteq> 0 \<longleftrightarrow> True \<in> set bs"
    and "low \<noteq> 0 \<Longrightarrow> ctz low div 8 = length (takeWhile Not bs)"
    and "low = 0 \<Longrightarrow> high \<noteq> 0 \<Longrightarrow> 8 + ctz high div 8 = length (takeWhile Not bs)"
proof -
  let ?l = "take 8 (byte_lanes bs)" and ?h = "drop 8 (byte_lanes bs)"
  have len: "length ?l = 8" "length ?h = 8" using assms(1) by simp_all
  have low: "low = 0 \<longleftrightarrow> set ?l \<subseteq> {NUL}" and high: "high = 0 \<longleftrightarrow> set ?h \<subseteq> {NUL}"
    using len by (simp_all add: low_def high_def le_load_eq_0_iff)
  have "set (byte_lanes bs) = set ?l \<union> set ?h"
    by (metis append_take_drop_id set_append)
  then show "low \<noteq> 0 \<or> high \<noteq> 0 \<longleftrightarrow> True \<in> set bs"
    using low high byte_lanes_NUL_iff[of bs] by auto
  note split = length_takeWhile_split[of "\<lambda>c. c = NUL" "byte_lanes bs" 8, unfolded takeWhile_byte_lanes]
  show "ctz low div 8 = length (takeWhile Not bs)" if "low \<noteq> 0"
  proof -
    have "ctz low div 8 = length (takeWhile (\<lambda>c. c = NUL) ?l)"
      using that len unfolding low_def by (intro ctz_le_load) auto
    moreover have "\<exists>c\<in>set ?l. c \<noteq> NUL" using that low by blast
    ultimately show ?thesis using split by simp
  qed
  show "8 + ctz high div 8 = length (takeWhile Not bs)" if "low = 0" "high \<noteq> 0"
  proof -
    have "ctz high div 8 = length (takeWhile (\<lambda>c. c = NUL) ?h)"
      using that len unfolding high_def by (intro ctz_le_load) auto
    moreover have "\<not> (\<exists>c\<in>set ?l. c \<noteq> NUL)" using that low by blast
    ultimately show ?thesis using split len by (simp del: length_take)
  qed
qed

lemma neon_branch:
  assumes "l \<or> h \<longleftrightarrow> t" "l \<Longrightarrow> a = k" "\<not> l \<Longrightarrow> h \<Longrightarrow> b = k"
  shows "(if l \<or> h then if l then Some (c + a) else Some (c + b) else z) =
    (if t then Some (c + k) else z)"
  using assms by auto

interpretation neon_scan: block_scan 16 scan_neon
proof
  show "scan_neon m cur =
      (if cur mod 4096 \<le> 4096 - 16 then do {
         data \<leftarrow> load_bytes m cur 16;
         if \<exists>c\<in>set data. delim c
         then Some (cur + length (takeWhile (\<lambda>c. \<not> delim c) data))
         else scan_neon m (cur + 16)
       } else do {
         c \<leftarrow> m cur;
         if delim c then Some cur else scan_neon m (cur + 1)
       })" for m cur
  proof -
    have "(let low = le_load (take 8 (byte_lanes (map delim data))) :: u64;
               high = le_load (drop 8 (byte_lanes (map delim data))) :: u64
           in if low \<noteq> 0 \<or> high \<noteq> 0
              then if low \<noteq> 0 then Some (cur + ctz low div 8) else Some (cur + (8 + ctz high div 8))
              else scan_neon m (cur + 16)) =
          (if \<exists>c\<in>set data. delim c
           then Some (cur + length (takeWhile (\<lambda>c. \<not> delim c) data))
           else scan_neon m (cur + 16))"
      if "load_bytes m cur 16 = Some data" for data
    proof -
      have "length (map delim data) = 16"
        using that by (simp add: load_bytes_eq_Some_iff)
      note lanes = neon_lanes[OF this, unfolded lane_first]
      have "True \<in> set (map delim data) \<longleftrightarrow> (\<exists>c\<in>set data. delim c)" by auto
      from lanes(1)[unfolded this] lanes(2,3) show ?thesis
        unfolding Let_def by (intro neon_branch) blast+
    qed
    note block = this[unfolded Let_def]
    show ?thesis
      by (subst scan_neon.simps, unfold Let_def lane_map2)
        (intro if_cong refl Option.bind_cong block)
  qed
qed simp_all

lemma scan_scalar_correct: "cstr_at m p s \<Longrightarrow> scan_scalar m p = Some (p + seg_len s)"
proof (induction s arbitrary: p)
  case Nil
  then show ?case by (subst scan_scalar.simps) (simp add: cstr_at_Nil)
next
  case (Cons c s)
  note tl = cstr_at_Cons[OF Cons.prems]
  show ?case using tl Cons.IH[OF tl(2)] by (subst scan_scalar.simps) simp
qed

abbreviation slashes :: "string \<Rightarrow> nat" where
  "slashes s \<equiv> length (takeWhile (\<lambda>c. c = CHR ''/'') s)"

lemma skip_slashes_correct: "cstr_at m p s \<Longrightarrow> skip_slashes m p = Some (p + slashes s)"
proof (induction s arbitrary: p)
  case Nil
  then show ?case by (subst skip_slashes.simps) (simp add: cstr_at_Nil)
next
  case (Cons c s)
  note tl = cstr_at_Cons[OF Cons.prems]
  show ?case using tl Cons.IH[OF tl(2)] by (subst skip_slashes.simps) simp
qed

lemma cstr_at_skip:
  "cstr_at m p s \<Longrightarrow> cstr_at m (p + slashes s) (dropWhile (\<lambda>c. c = CHR ''/'') s)"
  using cstr_at_drop[of m p s "slashes s"]
  by (simp add: length_takeWhile_le dropWhile_eq_drop)

text \<open>What every variant returns, read off the reference.\<close>

definition segment_at :: "nat \<Rightarrow> string \<Rightarrow> seg_result" where
  "segment_at p s = (case next_segment s of
     None \<Rightarrow> (None, p + length s)
   | Some (seg, rest) \<Rightarrow>
       (Some (p + slashes s, length seg), p + (length s - length rest)))"

lemma segment_at_skip:
  assumes "cstr_at m p s"
  defines "t \<equiv> dropWhile (\<lambda>c. c = CHR ''/'') s"
  shows "segment_at p s =
    (if deref t = NUL then (None, p + slashes s)
     else (Some (p + slashes s, seg_len t), p + slashes s + seg_len t))"
proof -
  have len: "length s = slashes s + length t" and lent: "length t = seg_len t + length (dropWhile (\<lambda>c. c \<noteq> CHR ''/'') t)"
    unfolding t_def by (metis length_append takeWhile_dropWhile_id)+
  have "NUL \<notin> set t"
    using assms(1) unfolding t_def cstr_at_def by (auto dest: set_dropWhileD)
  then have "deref t = NUL \<longleftrightarrow> t = []"
    by (cases t) auto
  then show ?thesis
    using len lent by (auto simp: segment_at_def next_segment_def Let_def t_def[symmetric])
qed

lemma get_next_segment_variant:
  assumes s: "cstr_at m p s"
    and scan: "\<And>p s. cstr_at m p s \<Longrightarrow> scan m p = Some (p + seg_len s)"
  shows "do {
     p \<leftarrow> skip_slashes m p;
     c \<leftarrow> m p;
     if c = NUL then Some (None, p)
     else do { cur \<leftarrow> scan m p; Some (Some (p, cur - p), cur) }
   } = Some (segment_at p s)"
proof -
  note t = cstr_at_skip[OF s]
  show ?thesis
    using cstr_at_hd[OF t] scan[OF t] skip_slashes_correct[OF s]
    by (simp add: segment_at_skip[OF s])
qed

lemma get_next_segment_eq:
  assumes "page_granular m" and "cstr_at m p s"
  shows "get_next_segment cpu m p = Some (segment_at p s)"
proof -
  have nz: "p \<noteq> 0" and hd: "m p = Some (deref s)"
    using assms(2) by (auto simp: cstr_at_hd) (simp add: cstr_at_def)
  have "segment_at p s = (None, p)" if "deref s = NUL"
    using that assms(2) by (cases s) (auto simp: segment_at_def next_segment_def cstr_at_def)
  then show ?thesis
    unfolding get_next_segment_def get_next_segment_avx512_def get_next_segment_avx2_def
      get_next_segment_neon_def
    using nz hd
      get_next_segment_variant[where scan = scan_avx512, OF assms(2) avx512_scan.scan_correct[OF assms(1)]]
      get_next_segment_variant[where scan = scan_avx2, OF assms(2) avx2_scan.scan_correct[OF assms(1)]]
      get_next_segment_variant[where scan = scan_neon, OF assms(2) neon_scan.scan_correct[OF assms(1)]]
      get_next_segment_variant[where scan = scan_scalar, OF assms(2) scan_scalar_correct]
    by simp
qed

section \<open>Buffer comparison\<close>

abbreviation cmpeq_epi8 :: "string \<Rightarrow> string \<Rightarrow> bool list" where
  "cmpeq_epi8 v1 v2 \<equiv> map2 (=) v1 v2"

text \<open>The word-at-a-time tail of \<open>csilk_memcmp_fast\<close>.\<close>

definition memcmp_tail :: "string \<Rightarrow> string \<Rightarrow> nat \<Rightarrow> bool" where
  "memcmp_tail s1 s2 n =
     (if n \<ge> 4 \<and> (le_load (take 4 s1) :: u32) \<noteq> le_load (take 4 s2) then False
      else let (s1, s2, n) = (if n \<ge> 4 then (drop 4 s1, drop 4 s2, n - 4) else (s1, s2, n)) in
        if n \<ge> 2 \<and> (le_load (take 2 s1) :: u16) \<noteq> le_load (take 2 s2) then False
        else let (s1, s2, n) = (if n \<ge> 2 then (drop 2 s1, drop 2 s2, n - 2) else (s1, s2, n)) in
          if n = 1 then deref s1 = deref s2 else True)"

fun memcmp_words :: "string \<Rightarrow> string \<Rightarrow> nat \<Rightarrow> bool" where
  "memcmp_words s1 s2 n =
     (if n \<ge> 8 then
        (if (le_load (take 8 s1) :: u64) \<noteq> le_load (take 8 s2) then False
         else memcmp_words (drop 8 s1) (drop 8 s2) (n - 8))
      else memcmp_tail s1 s2 n)"

declare memcmp_words.simps [simp del]

function csilk_memcmp_avx512 :: "cpu \<Rightarrow> string \<Rightarrow> string \<Rightarrow> nat \<Rightarrow> bool"
  and csilk_memcmp_avx2 :: "cpu \<Rightarrow> string \<Rightarrow> string \<Rightarrow> nat \<Rightarrow> bool"
  and csilk_memcmp_neon :: "cpu \<Rightarrow> string \<Rightarrow> string \<Rightarrow> nat \<Rightarrow> bool"
  and csilk_memcmp_fast :: "cpu \<Rightarrow> string \<Rightarrow> string \<Rightarrow> nat \<Rightarrow> bool"
where
  "csilk_memcmp_avx512 cpu s1 s2 n =
     (if n \<ge> 64 then
        (if (movemask (cmpeq_epi8 (take 64 s1) (take 64 s2)) :: u64) \<noteq> 0xFFFFFFFFFFFFFFFF then False
         else csilk_memcmp_avx512 cpu (drop 64 s1) (drop 64 s2) (n - 64))
      else if n = 0 then True
      else csilk_memcmp_fast cpu s1 s2 n)"
| "csilk_memcmp_avx2 cpu s1 s2 n =
     (if n \<ge> 32 then
        (if (movemask (cmpeq_epi8 (take 32 s1) (take 32 s2)) :: u32) \<noteq> 0xFFFFFFFF then False
         else csilk_memcmp_avx2 cpu (drop 32 s1) (drop 32 s2) (n - 32))
      else if n = 0 then True
      else csilk_memcmp_fast cpu s1 s2 n)"
| "csilk_memcmp_neon cpu s1 s2 n =
     (if n \<ge> 16 then
        (let cmp = byte_lanes (cmpeq_epi8 (take 16 s1) (take 16 s2));
             mask_low = (le_load (take 8 cmp) :: u64);
             mask_high = (le_load (drop 8 cmp) :: u64) in
         if mask_low \<noteq> - 1 \<or> mask_high \<noteq> - 1 then False
         else csilk_memcmp_neon cpu (drop 16 s1) (drop 16 s2) (n - 16))
      else if n = 0 then True
      else csilk_memcmp_fast cpu s1 s2 n)"
| "csilk_memcmp_fast cpu s1 s2 n =
     (if n = 0 then True
      else if n \<ge> 64 \<and> csilk_has_avx512 cpu then csilk_memcmp_avx512 cpu s1 s2 n
      else if n \<ge> 32 \<and> csilk_has_avx2 cpu then csilk_memcmp_avx2 cpu s1 s2 n
      else if n \<ge> 16 \<and> csilk_has_neon cpu then csilk_memcmp_neon cpu s1 s2 n
      else if word_loads cpu then memcmp_words s1 s2 n
      else take n s1 = take n s2)"
  by pat_completeness auto

termination
  by (relation "measure (\<lambda>x. case x of
        Inl (Inl (cpu, s1, s2, n)) \<Rightarrow> if n \<ge> 64 then 2 * n else 2 * n + 2
      | Inl (Inr (cpu, s1, s2, n)) \<Rightarrow> if n \<ge> 32 then 2 * n else 2 * n + 2
      | Inr (Inl (cpu, s1, s2, n)) \<Rightarrow> if n \<ge> 16 then 2 * n else 2 * n + 2
      | Inr (Inr (cpu, s1, s2, n)) \<Rightarrow> 2 * n + 1)") auto

declare csilk_memcmp_avx512.simps [simp del] csilk_memcmp_avx2.simps [simp del]
  csilk_memcmp_neon.simps [simp del] csilk_memcmp_fast.simps [simp del]

lemma take_chunk_eq:
  assumes "k \<le> n"
  shows "take n s1 = take n s2 \<longleftrightarrow> take k s1 = take k s2 \<and> take (n - k) (drop k s1) = take (n - k) (drop k s2)"
proof -
  have split: "take n s = take k s @ take (n - k) (drop k s)" for s :: "'b list"
    using assms by (metis le_add_diff_inverse take_add)
  show ?thesis
    by (metis split assms append_eq_append_conv min.absorb1 take_take drop_take)
qed

lemma False_cmpeq_iff:
  "length v1 = length v2 \<Longrightarrow> False \<notin> set (cmpeq_epi8 v1 v2) \<longleftrightarrow> v1 = v2"
  by (induction v1 v2 rule: list_induct2) auto

lemma cmp_mask_full_iff:
  assumes "length v1 = LENGTH('a::len)" "length v2 = LENGTH('a)"
  shows "(movemask (cmpeq_epi8 v1 v2) :: 'a word) = - 1 \<longleftrightarrow> v1 = v2"
  using assms False_cmpeq_iff[of v1 v2] by (subst movemask_full_iff) simp_all

lemma all_ones: "(0xFFFFFFFFFFFFFFFF :: u64) = - 1" "(0xFFFFFFFF :: u32) = - 1"
  by simp_all

lemma memcmp_tail_eq:
  assumes "n < 8" "n \<le> length s1" "n \<le> length s2"
  shows "memcmp_tail s1 s2 n \<longleftrightarrow> take n s1 = take n s2"
proof -
  have w4: "(le_load (take 4 s1) :: u32) = le_load (take 4 s2) \<longleftrightarrow> take 4 s1 = take 4 s2"
    if "4 \<le> length s1" "4 \<le> length s2" for s1 s2
    using that by (intro le_load_eq_iff) auto
  have w2: "(le_load (take 2 s1) :: u16) = le_load (take 2 s2) \<longleftrightarrow> take 2 s1 = take 2 s2"
    if "2 \<le> length s1" "2 \<le> length s2" for s1 s2
    using that by (intro le_load_eq_iff) auto
  have w1: "take 1 s1 = take 1 s2 \<longleftrightarrow> deref s1 = deref s2"
    if "1 \<le> length s1" "1 \<le> length s2" for s1 s2
    using that by (cases s1; cases s2) auto
  have low: "(if n \<ge> 2 \<and> (le_load (take 2 s1) :: u16) \<noteq> le_load (take 2 s2) then False
        else let (s1, s2, n) = (if n \<ge> 2 then (drop 2 s1, drop 2 s2, n - 2) else (s1, s2, n)) in
          if n = 1 then deref s1 = deref s2 else True) \<longleftrightarrow> take n s1 = take n s2"
    if "n < 4" "n \<le> length s1" "n \<le> length s2" for n s1 s2
  proof -
    from that(1) consider "n = 0" | "n = 1" | "n = 2" | "n = 3" by linarith
    then show ?thesis
      using that take_chunk_eq[of 2 n s1 s2] w2[of s1 s2] w1[of s1 s2] w1[of "drop 2 s1" "drop 2 s2"]
      by cases auto
  qed
  show ?thesis
    using assms take_chunk_eq[of 4 n s1 s2] w4[of s1 s2] low[of n s1 s2]
      low[of "n - 4" "drop 4 s1" "drop 4 s2"]
    unfolding memcmp_tail_def by (cases "n \<ge> 4") auto
qed

lemma memcmp_words_eq:
  "n \<le> length s1 \<Longrightarrow> n \<le> length s2 \<Longrightarrow> memcmp_words s1 s2 n \<longleftrightarrow> take n s1 = take n s2"
proof (induction s1 s2 n rule: memcmp_words.induct)
  case (1 s1 s2 n)
  have "(le_load (take 8 s1) :: u64) = le_load (take 8 s2) \<longleftrightarrow> take 8 s1 = take 8 s2" if "n \<ge> 8"
    using 1 that by (intro le_load_eq_iff) auto
  then show ?case
    using 1 take_chunk_eq[of 8 n s1 s2] memcmp_tail_eq[of n s1 s2]
    by (subst memcmp_words.simps) auto
qed

lemma neon_full_iff:
  assumes "length bs = 16"
  shows "(le_load (take 8 (byte_lanes bs)) :: u64) \<noteq> - 1 \<or> (le_load (drop 8 (byte_lanes bs)) :: u64) \<noteq> - 1
    \<longleftrightarrow> False \<in> set bs"
proof -
  have full: "(le_load (byte_lanes xs) :: u64) = - 1 \<longleftrightarrow> False \<notin> set xs" if "length xs = 8" for xs
  proof -
    have eight: "replicate 8 x = [x, x, x, x, x, x, x, x]" for x :: char
      by (simp add: numeral_eq_Suc)
    have "byte (CHR 0xFF) = 255" by (simp add: byte_def)
    then have "- 1 = (le_load (replicate 8 (CHR 0xFF)) :: u64)"
      by (simp add: le_load_def eight)
    also have "(le_load (byte_lanes xs) :: u64) = \<dots> \<longleftrightarrow> byte_lanes xs = replicate 8 (CHR 0xFF)"
      using that by (intro le_load_eq_iff) auto
    also have "\<dots> \<longleftrightarrow> False \<notin> set xs"
      unfolding that[symmetric] by (induction xs) (auto simp: byte_lanes_def)
    finally show ?thesis .
  qed
  have "set bs = set (take 8 bs) \<union> set (drop 8 bs)"
    by (metis append_take_drop_id set_append)
  then show ?thesis
    using full[of "take 8 bs"] full[of "drop 8 bs"] assms
    by (auto simp: byte_lanes_def take_map drop_map)
qed

lemma csilk_memcmp_all_eq:
  "n \<le> length s1 \<Longrightarrow> n \<le> length s2 \<Longrightarrow> csilk_memcmp_avx512 cpu s1 s2 n \<longleftrightarrow> take n s1 = take n s2"
  "n \<le> length s1 \<Longrightarrow> n \<le> length s2 \<Longrightarrow> csilk_memcmp_avx2 cpu s1 s2 n \<longleftrightarrow> take n s1 = take n s2"
  "n \<le> length s1 \<Longrightarrow> n \<le> length s2 \<Longrightarrow> csilk_memcmp_neon cpu s1 s2 n \<longleftrightarrow> take n s1 = take n s2"
  "n \<le> length s1 \<Longrightarrow> n \<le> length s2 \<Longrightarrow> csilk_memcmp_fast cpu s1 s2 n \<longleftrightarrow> take n s1 = take n s2"
proof (induction cpu s1 s2 n and cpu s1 s2 n and cpu s1 s2 n and cpu s1 s2 n
    rule: csilk_memcmp_avx512_csilk_memcmp_avx2_csilk_memcmp_neon_csilk_memcmp_fast.induct)
  case (1 cpu s1 s2 n)
  have "(movemask (cmpeq_epi8 (take 64 s1) (take 64 s2)) :: u64) = 0xFFFFFFFFFFFFFFFF \<longleftrightarrow>
      take 64 s1 = take 64 s2" if "n \<ge> 64"
    using 1 that unfolding all_ones by (intro cmp_mask_full_iff) auto
  then show ?case
    using 1 take_chunk_eq[of 64 n s1 s2] by (subst csilk_memcmp_avx512.simps) auto
next
  case (2 cpu s1 s2 n)
  have "(movemask (cmpeq_epi8 (take 32 s1) (take 32 s2)) :: u32) = 0xFFFFFFFF \<longleftrightarrow>
      take 32 s1 = take 32 s2" if "n \<ge> 32"
    using 2 that unfolding all_ones by (intro cmp_mask_full_iff) auto
  then show ?case
    using 2 take_chunk_eq[of 32 n s1 s2] by (subst csilk_memcmp_avx2.simps) auto
next
  case (3 cpu s1 s2 n)
  have "False \<in> set (cmpeq_epi8 (take 16 s1) (take 16 s2)) \<longleftrightarrow> take 16 s1 \<noteq> take 16 s2" if "n \<ge> 16"
  proof -
    have "length (take 16 s1) = length (take 16 s2)" using 3 that by simp
    from False_cmpeq_iff[OF this] show ?thesis by blast
  qed
  then have mask: "(le_load (take 8 (byte_lanes (cmpeq_epi8 (take 16 s1) (take 16 s2)))) :: u64) \<noteq> - 1 \<or>
      (le_load (drop 8 (byte_lanes (cmpeq_epi8 (take 16 s1) (take 16 s2)))) :: u64) \<noteq> - 1 \<longleftrightarrow>
      take 16 s1 \<noteq> take 16 s2" if "n \<ge> 16"
    using 3 that by (subst neon_full_iff) auto
  have rest: "csilk_memcmp_neon cpu (drop 16 s1) (drop 16 s2) (n - 16) \<longleftrightarrow>
      take (n - 16) (drop 16 s1) = take (n - 16) (drop 16 s2)" if "n \<ge> 16" "take 16 s1 = take 16 s2"
    using 3 that mask by (intro "3.IH"(1)[OF _ refl refl refl]) auto
  have small: "n < 16 \<Longrightarrow> 0 < n \<Longrightarrow> csilk_memcmp_fast cpu s1 s2 n \<longleftrightarrow> take n s1 = take n s2"
    using 3 by simp
  show ?case
    unfolding csilk_memcmp_neon.simps[of cpu s1 s2 n] Let_def
    using mask rest small take_chunk_eq[of 16 n s1 s2] by (cases "n \<ge> 16"; cases "n = 0") auto
next
  case (4 cpu s1 s2 n)
  then show ?case
    using memcmp_words_eq[of n s1 s2] by (subst csilk_memcmp_fast.simps) auto
qed

section \<open>Character search\<close>

function csilk_simd_find_char_avx512 :: "string \<Rightarrow> nat \<Rightarrow> nat \<Rightarrow> char \<Rightarrow> nat" where
  "csilk_simd_find_char_avx512 s cur stop target =
     (if cur + 64 \<le> stop then
        (let cmp = (movemask (map (\<lambda>c. c = target) (take 64 (drop cur s))) :: u64) in
         if cmp \<noteq> 0 then cur + ctz cmp
         else csilk_simd_find_char_avx512 s (cur + 64) stop target)
      else cur)"
  by pat_completeness auto
termination by (relation "measure (\<lambda>(s, cur, stop, t). stop - cur)") auto

function csilk_simd_find_char_avx2 :: "string \<Rightarrow> nat \<Rightarrow> nat \<Rightarrow> char \<Rightarrow> nat" where
  "csilk_simd_find_char_avx2 s cur stop target =
     (if cur + 32 \<le> stop then
        (let mask = (movemask (map (\<lambda>c. c = target) (take 32 (drop cur s))) :: u32) in
         if mask \<noteq> 0 then cur + ctz mask
         else csilk_simd_find_char_avx2 s (cur + 32) stop target)
      else cur)"
  by pat_completeness auto
termination by (relation "measure (\<lambda>(s, cur, stop, t). stop - cur)") auto

text \<open>The NEON loop returns from the function at a hit, and falls through at the end.\<close>

function find_char_neon :: "string \<Rightarrow> nat \<Rightarrow> nat \<Rightarrow> char \<Rightarrow> nat + nat" where
  "find_char_neon s cur stop target =
     (if cur + 16 \<le> stop then
        (let cmp = byte_lanes (map (\<lambda>c. c = target) (take 16 (drop cur s)));
             mask_low = (le_load (take 8 cmp) :: u64);
             mask_high = (le_load (drop 8 cmp) :: u64) in
         if mask_low \<noteq> 0 then Inl (cur + ctz mask_low div 8)
         else if mask_high \<noteq> 0 then Inl (cur + (8 + ctz mask_high div 8))
         else find_char_neon s (cur + 16) stop target)
      else Inr cur)"
  by pat_completeness auto
termination by (relation "measure (\<lambda>(s, cur, stop, t). stop - cur)") auto

function find_char_scalar :: "string \<Rightarrow> nat \<Rightarrow> nat \<Rightarrow> char \<Rightarrow> nat option" where
  "find_char_scalar s cur stop target =
     (if cur < stop then
        (if s ! cur = target then Some cur else find_char_scalar s (cur + 1) stop target)
      else None)"
  by pat_completeness auto
termination by (relation "measure (\<lambda>(s, cur, stop, t). stop - cur)") auto

declare csilk_simd_find_char_avx512.simps [simp del] csilk_simd_find_char_avx2.simps [simp del]
  find_char_neon.simps [simp del] find_char_scalar.simps [simp del]

text \<open>\<open>s = None\<close> is the NULL pointer; the result is the offset of the match.\<close>

definition csilk_simd_find_char :: "cpu \<Rightarrow> string option \<Rightarrow> nat \<Rightarrow> char \<Rightarrow> nat option" where
  "csilk_simd_find_char cpu s0 len target =
     (case s0 of
        None \<Rightarrow> None
      | Some s \<Rightarrow>
          if len = 0 then None
          else
            let r5 = csilk_simd_find_char_avx512 s 0 len target in
            if csilk_has_avx512 cpu \<and> r5 < len \<and> s ! r5 = target then Some r5
            else let cur = (if csilk_has_avx512 cpu then r5 else 0) in
              if csilk_has_avx2 cpu then
                (let r2 = csilk_simd_find_char_avx2 s cur len target in
                 if r2 < len \<and> s ! r2 = target then Some r2
                 else find_char_scalar s r2 len target)
              else if csilk_has_neon cpu then
                (case find_char_neon s cur len target of
                   Inl r \<Rightarrow> Some r
                 | Inr cur \<Rightarrow> find_char_scalar s cur len target)
              else find_char_scalar s cur len target)"

text \<open>The reference: the offset of the first occurrence among the first \<open>len\<close> characters.\<close>

definition first_occ :: "string \<Rightarrow> nat \<Rightarrow> char \<Rightarrow> nat option" where
  "first_occ s len t =
     (if t \<in> set (take len s) then Some (length (takeWhile (\<lambda>c. c \<noteq> t) s)) else None)"

lemma first_occ_Some:
  assumes "r < len" "len \<le> length s" "s ! r = t" "\<forall>i < r. s ! i \<noteq> t"
  shows "first_occ s len t = Some r"
proof -
  have "takeWhile (\<lambda>c. c \<noteq> t) s = take r s"
    using assms by (intro takeWhile_eq_take_P_nth) auto
  moreover have "t \<in> set (take len s)"
    using assms by (auto simp: in_set_conv_nth)
  ultimately show ?thesis using assms by (simp add: first_occ_def)
qed

lemma find_char_scalar_eq:
  assumes "stop \<le> length s" "cur \<le> stop" "\<forall>i < cur. s ! i \<noteq> t"
  shows "find_char_scalar s cur stop t = first_occ s stop t"
  using assms
proof (induction s cur stop t rule: find_char_scalar.induct)
  case (1 s cur stop t)
  show ?case
  proof (cases "cur < stop \<and> s ! cur \<noteq> t")
    case True
    then have "\<forall>i < cur + 1. s ! i \<noteq> t" using 1 by (auto simp: less_Suc_eq)
    with 1 True show ?thesis by (subst find_char_scalar.simps) simp
  next
    case False
    then consider "cur < stop" "s ! cur = t" | "cur = stop" using 1(3) by linarith
    then show ?thesis
    proof cases
      case 1
      then show ?thesis
        using "1.prems" first_occ_Some[of cur stop s t] by (subst find_char_scalar.simps) simp
    next
      case 2
      then show ?thesis
        using "1.prems" by (subst find_char_scalar.simps) (auto simp: first_occ_def in_set_conv_nth)
    qed
  qed
qed

locale block_find =
  fixes W :: nat and find :: "string \<Rightarrow> nat \<Rightarrow> nat \<Rightarrow> char \<Rightarrow> nat"
  assumes W_pos: "0 < W"
    and find_unfold: "stop \<le> length s \<Longrightarrow> find s cur stop t =
      (if cur + W \<le> stop then
         (if t \<in> set (take W (drop cur s))
          then cur + length (takeWhile (\<lambda>c. c \<noteq> t) (take W (drop cur s)))
          else find s (cur + W) stop t)
       else cur)"
begin

text \<open>No occurrence lies before the offset the block loop stops at.\<close>

lemma find_contract:
  assumes "stop \<le> length s" "cur \<le> stop" "\<forall>i < cur. s ! i \<noteq> t"
  shows "find s cur stop t \<le> stop \<and> (\<forall>i < find s cur stop t. s ! i \<noteq> t)"
  using assms(2,3)
proof (induction "stop - cur" arbitrary: cur rule: less_induct)
  case less
  let ?bs = "take W (drop cur s)"
  show ?case
  proof (cases "cur + W \<le> stop")
    case block: True
    then have len: "length ?bs = W" using assms(1) by simp
    have prefix: "s ! i \<noteq> t" if "i < cur + length (takeWhile (\<lambda>c. c \<noteq> t) ?bs)" for i
    proof (cases "i < cur")
      case False
      with that have "i - cur < length (takeWhile (\<lambda>c. c \<noteq> t) ?bs)" by simp
      with takeWhile_prefixD[OF this] False len show ?thesis
        using length_takeWhile_le[of "\<lambda>c. c \<noteq> t" ?bs] block assms(1) by simp
    qed (use less.prems in simp)
    show ?thesis
    proof (cases "t \<in> set ?bs")
      case True
      then have "length (takeWhile (\<lambda>c. c \<noteq> t) ?bs) < length ?bs"
        unfolding length_takeWhile_less_iff by blast
      then have "cur + length (takeWhile (\<lambda>c. c \<noteq> t) ?bs) \<le> stop" using len block by simp
      with True block prefix show ?thesis
        using find_unfold[OF assms(1)] by simp
    next
      case False
      then have "takeWhile (\<lambda>c. c \<noteq> t) ?bs = ?bs" by (auto simp: takeWhile_eq_all_conv)
      with prefix len have "\<forall>i < cur + W. s ! i \<noteq> t" by simp
      with less.hyps[of "cur + W"] block W_pos False show ?thesis
        using find_unfold[OF assms(1), of cur t] by simp
    qed
  next
    case False
    with less.prems show ?thesis using find_unfold[OF assms(1), of cur t] by simp
  qed
qed

end

lemma avx_block:
  assumes "length bs \<le> LENGTH('a::len)"
  shows "(movemask (map (\<lambda>c. c = t) bs) :: 'a word) = 0 \<longleftrightarrow> t \<notin> set bs"
    and "t \<in> set bs \<Longrightarrow> ctz (movemask (map (\<lambda>c. c = t) bs) :: 'a word) = length (takeWhile (\<lambda>c. c \<noteq> t) bs)"
proof -
  show "(movemask (map (\<lambda>c. c = t) bs) :: 'a word) = 0 \<longleftrightarrow> t \<notin> set bs"
    using assms by (subst movemask_eq_0_iff) auto
  show "ctz (movemask (map (\<lambda>c. c = t) bs) :: 'a word) = length (takeWhile (\<lambda>c. c \<noteq> t) bs)"
    if "t \<in> set bs"
    using assms that by (subst ctz_movemask) (auto simp: lane_first)
qed

interpretation avx512_find: block_find 64 csilk_simd_find_char_avx512
  by unfold_locales
    (simp, subst csilk_simd_find_char_avx512.simps, simp add: avx_block Let_def)

interpretation avx2_find: block_find 32 csilk_simd_find_char_avx2
  by unfold_locales
    (simp, subst csilk_simd_find_char_avx2.simps, simp add: avx_block Let_def)

abbreviation neon_stop :: "string \<Rightarrow> nat \<Rightarrow> nat \<Rightarrow> char \<Rightarrow> nat" where
  "neon_stop s cur stop t \<equiv> case_sum id id (find_char_neon s cur stop t)"

lemma find_char_neon_block:
  assumes "stop \<le> length s" "cur + 16 \<le> stop"
  shows "find_char_neon s cur stop t =
    (if t \<in> set (take 16 (drop cur s))
     then Inl (cur + length (takeWhile (\<lambda>c. c \<noteq> t) (take 16 (drop cur s))))
     else find_char_neon s (cur + 16) stop t)"
proof -
  let ?bs = "map (\<lambda>c. c = t) (take 16 (drop cur s))"
  have "length ?bs = 16" using assms by simp
  note lanes = neon_lanes[OF this, unfolded lane_first]
  have "True \<in> set ?bs \<longleftrightarrow> t \<in> set (take 16 (drop cur s))" by auto
  with lanes assms(2) show ?thesis
    by (subst find_char_neon.simps) (auto simp: Let_def simp del: set_map)
qed

interpretation neon_find: block_find 16 neon_stop
proof
  show "neon_stop s cur stop t =
      (if cur + 16 \<le> stop then
         (if t \<in> set (take 16 (drop cur s))
          then cur + length (takeWhile (\<lambda>c. c \<noteq> t) (take 16 (drop cur s)))
          else neon_stop s (cur + 16) stop t)
       else cur)" if "stop \<le> length s" for stop s cur t
    using that find_char_neon_block[of stop s cur t] find_char_neon.simps[of s cur stop t] by simp
qed simp

lemma find_char_neon_hit:
  "find_char_neon s cur stop t = Inl r \<Longrightarrow> stop \<le> length s \<Longrightarrow> r < stop \<and> s ! r = t"
proof (induction s cur stop t rule: find_char_neon.induct)
  case (1 s cur stop t)
  let ?bs = "take 16 (drop cur s)"
  show ?case
  proof (cases "cur + 16 \<le> stop")
    case block: True
    show ?thesis
    proof (cases "t \<in> set ?bs")
      case True
      then have less: "length (takeWhile (\<lambda>c. c \<noteq> t) ?bs) < length ?bs"
        unfolding length_takeWhile_less_iff by blast
      from nth_length_takeWhile[OF this] have "?bs ! length (takeWhile (\<lambda>c. c \<noteq> t) ?bs) = t" by simp
      with True less 1 block show ?thesis by (auto simp: find_char_neon_block)
    next
      case False
      with 1 block have next_: "find_char_neon s (cur + 16) stop t = Inl r"
        by (simp add: find_char_neon_block)
      have "\<not> (True \<in> set (map (\<lambda>c. c = t) ?bs))" using False by auto
      with neon_lanes(1)[of "map (\<lambda>c. c = t) ?bs"] block 1 next_ show ?thesis
        by (simp del: set_map)
    qed
  next
    case False
    with 1(2) show ?thesis by (simp add: find_char_neon.simps)
  qed
qed

section \<open>Common prefix length\<close>

text \<open>The loops return from the function (\<open>Inl\<close>) or fall through with the index reached (\<open>Inr\<close>).\<close>

function prefix_avx2 :: "string \<Rightarrow> string \<Rightarrow> nat \<Rightarrow> nat \<Rightarrow> nat + nat" where
  "prefix_avx2 s1 s2 i max_len =
     (if i + 32 \<le> max_len then
        (let mask = (movemask (cmpeq_epi8 (take 32 (drop i s1)) (take 32 (drop i s2))) :: u32) in
         if mask \<noteq> 0xFFFFFFFF then Inl (i + ctz (NOT mask))
         else prefix_avx2 s1 s2 (i + 32) max_len)
      else Inr i)"
  by pat_completeness auto
termination by (relation "measure (\<lambda>(s1, s2, i, max_len). max_len - i)") auto

function prefix_words :: "string \<Rightarrow> string \<Rightarrow> nat \<Rightarrow> nat \<Rightarrow> nat + nat" where
  "prefix_words s1 s2 i max_len =
     (if i + 8 \<le> max_len then
        (let v1 = (le_load (take 8 (drop i s1)) :: u64); v2 = le_load (take 8 (drop i s2)) in
         if v1 \<noteq> v2 then Inl (i + ctz (v1 XOR v2) div 8)
         else prefix_words s1 s2 (i + 8) max_len)
      else Inr i)"
  by pat_completeness auto
termination by (relation "measure (\<lambda>(s1, s2, i, max_len). max_len - i)") auto

function prefix_scalar :: "string \<Rightarrow> string \<Rightarrow> nat \<Rightarrow> nat \<Rightarrow> nat" where
  "prefix_scalar s1 s2 i max_len =
     (if i < max_len \<and> s1 ! i = s2 ! i then prefix_scalar s1 s2 (i + 1) max_len else i)"
  by pat_completeness auto
termination by (relation "measure (\<lambda>(s1, s2, i, max_len). max_len - i)") auto

declare prefix_avx2.simps [simp del] prefix_words.simps [simp del] prefix_scalar.simps [simp del]

definition csilk_common_prefix_len_fast :: "cpu \<Rightarrow> string \<Rightarrow> string \<Rightarrow> nat \<Rightarrow> nat" where
  "csilk_common_prefix_len_fast cpu s1 s2 max_len =
     (case (if csilk_has_avx2 cpu then prefix_avx2 s1 s2 0 max_len else Inr 0) of
        Inl r \<Rightarrow> r
      | Inr i \<Rightarrow>
          (case (if word_loads cpu then prefix_words s1 s2 i max_len else Inr i) of
             Inl r \<Rightarrow> r
           | Inr i \<Rightarrow> prefix_scalar s1 s2 i max_len))"

text \<open>The index \<open>r\<close> is the length of the longest common prefix, capped at \<open>n\<close>.\<close>

definition is_common_prefix_len :: "string \<Rightarrow> string \<Rightarrow> nat \<Rightarrow> nat \<Rightarrow> bool" where
  "is_common_prefix_len s1 s2 n r =
     (r \<le> n \<and> take r s1 = take r s2 \<and> (r < n \<longrightarrow> s1 ! r \<noteq> s2 ! r))"

lemma take_eq_Suc:
  "i < length s1 \<Longrightarrow> i < length s2 \<Longrightarrow> take i s1 = take i s2 \<Longrightarrow> s1 ! i = s2 ! i \<Longrightarrow>
    take (Suc i) s1 = take (Suc i) s2"
  by (simp add: take_Suc_conv_app_nth)

lemma take_eq_add:
  "take i s1 = take i s2 \<Longrightarrow> take k (drop i s1) = take k (drop i s2) \<Longrightarrow> take (i + k) s1 = take (i + k) s2"
  by (simp add: take_add)

lemma prefix_scalar_ok:
  assumes "n \<le> length s1" "n \<le> length s2" "i \<le> n" "take i s1 = take i s2"
  shows "is_common_prefix_len s1 s2 n (prefix_scalar s1 s2 i n)"
  using assms
proof (induction s1 s2 i n rule: prefix_scalar.induct)
  case (1 s1 s2 i n)
  show ?case
    using 1 by (subst prefix_scalar.simps) (auto simp: is_common_prefix_len_def take_eq_Suc)
qed

text \<open>The first differing lane \<open>k\<close> of a block that starts at \<open>i\<close>.\<close>

abbreviation diff_lane :: "string \<Rightarrow> string \<Rightarrow> nat" where
  "diff_lane b1 b2 \<equiv> length (takeWhile (\<lambda>(x, y). x = y) (zip b1 b2))"

lemma diff_lane_nth:
  "length b1 = length b2 \<Longrightarrow> b1 \<noteq> b2 \<Longrightarrow>
     diff_lane b1 b2 < length b1 \<and> b1 ! diff_lane b1 b2 \<noteq> b2 ! diff_lane b1 b2 \<and>
     take (diff_lane b1 b2) b1 = take (diff_lane b1 b2) b2"
  by (induction b1 b2 rule: list_induct2) auto

lemma diff_lane_ok:
  assumes "n \<le> length s1" "n \<le> length s2" "i + w \<le> n" "take i s1 = take i s2"
    and ne: "take w (drop i s1) \<noteq> take w (drop i s2)"
  shows "is_common_prefix_len s1 s2 n (i + diff_lane (take w (drop i s1)) (take w (drop i s2)))"
proof -
  define k where "k = diff_lane (take w (drop i s1)) (take w (drop i s2))"
  have len: "length (take w (drop i s1)) = w" "length (take w (drop i s2)) = w"
    using assms by auto
  have k: "k < w" "take w (drop i s1) ! k \<noteq> take w (drop i s2) ! k"
    "take k (take w (drop i s1)) = take k (take w (drop i s2))"
    using diff_lane_nth[OF trans[OF len(1) len(2)[symmetric]] ne] unfolding k_def len by blast+
  then have "take k (drop i s1) = take k (drop i s2)" by simp
  then have "take (i + k) s1 = take (i + k) s2" using assms(4) by (intro take_eq_add)
  moreover have "s1 ! (i + k) \<noteq> s2 ! (i + k)" using k assms by simp
  ultimately show ?thesis
    using k(1) assms(3) by (simp add: is_common_prefix_len_def k_def)
qed

lemma avx2_diff:
  assumes "length b1 = 32" "length b2 = 32" "b1 \<noteq> b2"
  shows "ctz (NOT (movemask (cmpeq_epi8 b1 b2) :: u32)) = diff_lane b1 b2"
proof -
  have "NOT (movemask (cmpeq_epi8 b1 b2) :: u32) = movemask (map Not (cmpeq_epi8 b1 b2))"
    using assms by (intro NOT_movemask) simp
  moreover have "True \<in> set (map Not (cmpeq_epi8 b1 b2))"
  proof -
    have "False \<in> set (cmpeq_epi8 b1 b2)" using assms False_cmpeq_iff[of b1 b2] by metis
    then have "Not False \<in> Not ` set (cmpeq_epi8 b1 b2)" by (rule imageI)
    then show ?thesis by (simp only: set_map simp_thms)
  qed
  ultimately have "ctz (NOT (movemask (cmpeq_epi8 b1 b2) :: u32)) =
      length (takeWhile Not (map Not (cmpeq_epi8 b1 b2)))"
    using assms ctz_movemask[of "map Not (cmpeq_epi8 b1 b2)", where 'a = 32] by simp
  also have "\<dots> = diff_lane b1 b2"
    by (simp add: takeWhile_map comp_def case_prod_unfold)
  finally show ?thesis .
qed

lemma le_nat_xor:
  "length xs = length ys \<Longrightarrow> le_nat xs XOR le_nat ys = le_nat (map2 char_xor xs ys)"
proof (induction xs ys rule: list_induct2)
  case (Cons x xs y ys)
  have low: "take_bit 8 (byte c + 256 * n) = byte c" and high: "drop_bit 8 (byte c + 256 * n) = n" for c n
    using byte_less[of c] by (simp_all add: take_bit_eq_mod drop_bit_eq_div)
  let ?m = "byte x + 256 * le_nat xs" and ?n = "byte y + 256 * le_nat ys"
  have "?m XOR ?n = take_bit 8 (?m XOR ?n) + push_bit 8 (drop_bit 8 (?m XOR ?n))"
    by (metis add.commute bits_ident)
  also have "\<dots> = (byte x XOR byte y) + 256 * (le_nat xs XOR le_nat ys)"
    by (simp add: take_bit_xor drop_bit_xor low high push_bit_eq_mult)
  finally show ?case using Cons.IH by (simp add: byte_xor)
qed simp

lemma word_xor_eq_0_iff: "x XOR y = 0 \<longleftrightarrow> x = y" for x y :: "'a::len word"
proof
  assume "x XOR y = 0"
  moreover have "x XOR (x XOR y) = y" by (simp flip: xor.assoc)
  ultimately show "x = y" by simp
qed simp

lemma words_diff:
  assumes "length b1 = 8" "length b2 = 8" "b1 \<noteq> b2"
  shows "ctz ((le_load b1 :: u64) XOR le_load b2) div 8 = diff_lane b1 b2"
proof -
  have "(le_load b1 :: u64) XOR le_load b2 = le_load (map2 char_xor b1 b2)"
    using assms by (simp add: le_load_def of_nat_xor_eq flip: le_nat_xor)
  moreover have "(le_load b1 :: u64) XOR le_load b2 \<noteq> 0"
    using assms le_load_eq_iff[of b1 b2, where 'a = 64] by (simp add: word_xor_eq_0_iff)
  ultimately have "ctz ((le_load b1 :: u64) XOR le_load b2) div 8 =
      length (takeWhile (\<lambda>c. c = NUL) (map2 char_xor b1 b2))"
    using assms ctz_le_load[of "map2 char_xor b1 b2", where 'a = 64] by simp
  also have "\<dots> = diff_lane b1 b2"
    by (simp add: takeWhile_map comp_def case_prod_unfold char_xor_eq_NUL_iff)
  finally show ?thesis .
qed

lemma prefix_avx2_ok:
  assumes "n \<le> length s1" "n \<le> length s2" "i \<le> n" "take i s1 = take i s2"
  shows "case prefix_avx2 s1 s2 i n of
      Inl r \<Rightarrow> is_common_prefix_len s1 s2 n r
    | Inr j \<Rightarrow> j \<le> n \<and> take j s1 = take j s2"
  using assms
proof (induction s1 s2 i n rule: prefix_avx2.induct)
  case (1 s1 s2 i n)
  let ?b1 = "take 32 (drop i s1)" and ?b2 = "take 32 (drop i s2)"
  show ?case
  proof (cases "i + 32 \<le> n")
    case True
    then have len: "length ?b1 = 32" "length ?b2 = 32" using 1 by auto
    have full: "(movemask (cmpeq_epi8 ?b1 ?b2) :: u32) = 0xFFFFFFFF \<longleftrightarrow> ?b1 = ?b2"
      using len unfolding all_ones by (intro cmp_mask_full_iff) simp_all
    show ?thesis
    proof (cases "?b1 = ?b2")
      case eq: True
      with "1.prems" have "take (i + 32) s1 = take (i + 32) s2" by (intro take_eq_add)
      then have "case prefix_avx2 s1 s2 (i + 32) n of
          Inl r \<Rightarrow> is_common_prefix_len s1 s2 n r | Inr j \<Rightarrow> j \<le> n \<and> take j s1 = take j s2"
        using 1 True eq full by (intro "1.IH"[OF _ refl]) auto
      with True eq full show ?thesis by (subst prefix_avx2.simps) simp
    next
      case False
      with True full show ?thesis
        using diff_lane_ok[OF "1.prems"(1,2) True "1.prems"(4) False] avx2_diff[OF len False]
        by (subst prefix_avx2.simps) simp
    qed
  qed (use 1 in \<open>simp add: prefix_avx2.simps\<close>)
qed

lemma prefix_words_ok:
  assumes "n \<le> length s1" "n \<le> length s2" "i \<le> n" "take i s1 = take i s2"
  shows "case prefix_words s1 s2 i n of
      Inl r \<Rightarrow> is_common_prefix_len s1 s2 n r
    | Inr j \<Rightarrow> j \<le> n \<and> take j s1 = take j s2"
  using assms
proof (induction s1 s2 i n rule: prefix_words.induct)
  case (1 s1 s2 i n)
  let ?b1 = "take 8 (drop i s1)" and ?b2 = "take 8 (drop i s2)"
  show ?case
  proof (cases "i + 8 \<le> n")
    case True
    then have len: "length ?b1 = 8" "length ?b2 = 8" using 1 by auto
    have full: "(le_load ?b1 :: u64) = le_load ?b2 \<longleftrightarrow> ?b1 = ?b2"
      using len by (intro le_load_eq_iff) simp_all
    show ?thesis
    proof (cases "?b1 = ?b2")
      case eq: True
      with "1.prems" have "take (i + 8) s1 = take (i + 8) s2" by (intro take_eq_add)
      then have "case prefix_words s1 s2 (i + 8) n of
          Inl r \<Rightarrow> is_common_prefix_len s1 s2 n r | Inr j \<Rightarrow> j \<le> n \<and> take j s1 = take j s2"
        using 1 True eq full by (intro "1.IH"[OF _ refl refl]) auto
      with True eq full show ?thesis by (subst prefix_words.simps) simp
    next
      case False
      with True full show ?thesis
        using diff_lane_ok[OF "1.prems"(1,2) True "1.prems"(4) False] words_diff[OF len False]
        by (subst prefix_words.simps) simp
    qed
  qed (use 1 in \<open>simp add: prefix_words.simps\<close>)
qed

lemma csilk_simd_find_char_eq:
  assumes "len \<le> length s"
  shows "csilk_simd_find_char cpu (Some s) len t = first_occ s len t"
proof (cases "len = 0")
  case True
  then show ?thesis by (simp add: csilk_simd_find_char_def first_occ_def)
next
  case False
  define r5 where "r5 = csilk_simd_find_char_avx512 s 0 len t"
  define c where "c = (if csilk_has_avx512 cpu then r5 else 0)"
  have c: "c \<le> len" "\<forall>i < c. s ! i \<noteq> t"
    using avx512_find.find_contract[of len s 0 t] assms by (auto simp: c_def r5_def)
  note r2 = avx2_find.find_contract[OF assms c]
  have neon: "find_char_neon s c len t = Inl r \<Longrightarrow> first_occ s len t = Some r"
    "find_char_neon s c len t = Inr r \<Longrightarrow> r \<le> len \<and> (\<forall>i < r. s ! i \<noteq> t)" for r
    using neon_find.find_contract[OF assms c] find_char_neon_hit[of s c len t r] assms
    by (auto intro: first_occ_Some)
  show ?thesis
    unfolding csilk_simd_find_char_def Let_def option.case r5_def[symmetric] c_def[symmetric]
    using False c r2 neon assms first_occ_Some[of _ len s t] find_char_scalar_eq[OF assms]
    by (auto split: sum.splits simp: c_def)
qed

lemma csilk_common_prefix_len_fast_ok:
  assumes "n \<le> length s1" "n \<le> length s2"
  shows "is_common_prefix_len s1 s2 n (csilk_common_prefix_len_fast cpu s1 s2 n)"
proof -
  define r where "r = (if csilk_has_avx2 cpu then prefix_avx2 s1 s2 0 n else Inr 0)"
  have r: "case r of Inl k \<Rightarrow> is_common_prefix_len s1 s2 n k | Inr j \<Rightarrow> j \<le> n \<and> take j s1 = take j s2"
    using prefix_avx2_ok[OF assms, of 0] by (simp add: r_def)
  define q where "q j = (if word_loads cpu then prefix_words s1 s2 j n else Inr j)" for j
  have q: "case q j of Inl k \<Rightarrow> is_common_prefix_len s1 s2 n k | Inr j \<Rightarrow> j \<le> n \<and> take j s1 = take j s2"
    if "j \<le> n" "take j s1 = take j s2" for j
    using prefix_words_ok[OF assms that] that by (simp add: q_def)
  show ?thesis
  proof (cases r)
    case (Inr j)
    with r q[of j] prefix_scalar_ok[OF assms] show ?thesis
      unfolding csilk_common_prefix_len_fast_def r_def[symmetric] q_def[symmetric]
      by (cases "q j") auto
  qed (use r in \<open>simp add: csilk_common_prefix_len_fast_def r_def[symmetric]\<close>)
qed

section \<open>Properties\<close>

text \<open>
  C17. Segment extraction is safe and exact on every processor. Let a NUL-terminated string be
  stored at a non-null address of a memory that is mapped page by page. Then the AVX-512, AVX2,
  NEON and scalar variants all return without touching an unmapped byte, although the vector loads
  read past the end of the string, and they return the segment the reference scan of the string
  gives and the cursor behind it.
\<close>

theorem get_next_segment_page_safe:
  assumes "page_granular m" and "cstr_at m p s"
  shows "get_next_segment cpu m p = Some (segment_at p s)"
  using assms by (rule get_next_segment_eq)

text \<open>A path whose terminator is the last byte of the only mapped page.\<close>

definition page_end_memory :: memory where
  "page_end_memory a =
     (if a < 4096 then Some (if a = 4092 then CHR ''/'' else if a = 4093 then CHR ''a''
        else if a = 4094 then CHR ''b'' else NUL) else None)"

theorem get_next_segment_page_safe_witness:
  "get_next_segment (X86_64 True True) page_end_memory 4092 = Some (Some (4093, 2), 4095)"
proof -
  have "page_granular page_end_memory"
    by (auto simp: page_granular_def page_end_memory_def split: if_splits)
  moreover have "cstr_at page_end_memory 4092 ''/ab''"
    by (auto simp: cstr_at_def page_end_memory_def less_Suc_eq)
  ultimately show ?thesis
    using get_next_segment_page_safe[of page_end_memory 4092 "''/ab''" "X86_64 True True"]
    by (simp add: segment_at_def next_segment_def)
qed

text \<open>
  \<open>csilk_memcmp_fast\<close> decides equality of the first \<open>n\<close> bytes on every processor: the vector
  loops, the recursion back into the dispatcher for the remainder and the 8, 4, 2 and 1 byte tail
  never miss or repeat a byte.
\<close>

theorem csilk_memcmp_fast_correct:
  assumes "n \<le> length s1" and "n \<le> length s2"
  shows "csilk_memcmp_fast cpu s1 s2 n \<longleftrightarrow> take n s1 = take n s2"
  using assms by (rule csilk_memcmp_all_eq)

theorem csilk_memcmp_fast_correct_witness:
  "\<not> csilk_memcmp_fast (X86_64 True True) (replicate 99 CHR ''a'' @ ''b'') (replicate 99 CHR ''a'' @ ''c'') 100"
  using csilk_memcmp_fast_correct[of 100 "replicate 99 CHR ''a'' @ ''b''" "replicate 99 CHR ''a'' @ ''c''"
      "X86_64 True True"]
  by simp

text \<open>
  \<open>csilk_simd_find_char\<close> returns the first occurrence of the character in the buffer, or NULL
  when there is none, whichever vector loops run before the scalar one.
\<close>

theorem csilk_simd_find_char_correct:
  assumes "len \<le> length s"
  shows "csilk_simd_find_char cpu (Some s) len t =
    (if t \<in> set (take len s) then Some (length (takeWhile (\<lambda>c. c \<noteq> t) s)) else None)"
  using csilk_simd_find_char_eq[OF assms] by (simp add: first_occ_def)

theorem csilk_simd_find_char_correct_witness:
  "csilk_simd_find_char AARCH64 (Some ''abc=def'') 7 CHR ''='' = Some 3"
  using csilk_simd_find_char_correct[of 7 "''abc=def''" AARCH64 "CHR ''=''"] by simp

text \<open>
  \<open>csilk_common_prefix_len_fast\<close> returns the length of the longest common prefix of the two
  buffers, capped at \<open>max_len\<close>: all bytes before it agree and the byte at it differs.
\<close>

theorem csilk_common_prefix_len_fast_correct:
  assumes "n \<le> length s1" and "n \<le> length s2"
  shows "is_common_prefix_len s1 s2 n (csilk_common_prefix_len_fast cpu s1 s2 n)"
  using assms by (rule csilk_common_prefix_len_fast_ok)

theorem csilk_common_prefix_len_fast_correct_witness:
  "csilk_common_prefix_len_fast (X86_64 False True) ''/api/v1/x'' ''/api/v2/x'' 9 = 6"
proof -
  let ?r = "csilk_common_prefix_len_fast (X86_64 False True) ''/api/v1/x'' ''/api/v2/x'' 9"
  have ok: "?r \<le> 9 \<and> take ?r ''/api/v1/x'' = take ?r ''/api/v2/x'' \<and>
      (?r < 9 \<longrightarrow> ''/api/v1/x'' ! ?r \<noteq> ''/api/v2/x'' ! ?r)"
    using csilk_common_prefix_len_fast_correct[of 9 "''/api/v1/x''" "''/api/v2/x''" "X86_64 False True"]
    unfolding is_common_prefix_len_def by simp
  then have "\<not> ?r < 6" by (auto simp: less_Suc_eq eval_nat_numeral)
  moreover have "\<not> 6 < ?r"
  proof
    assume "6 < ?r"
    with ok have "take 7 (take ?r ''/api/v1/x'') = take 7 (take ?r ''/api/v2/x'')" by simp
    with \<open>6 < ?r\<close> show False by (simp add: min_def)
  qed
  ultimately show ?thesis by simp
qed

end
