(* ===== verification/Router.thy ===== *)
theory Router
  imports Router_Simd
begin

text \<open>
  Model of src/core/primitives/router.c and router_internal.h: the routing trie, route registration,
  the compilation of global middlewares into the handler chains, and route listing.

  A node is a value of \<open>router_node\<close>; its children array (inline or overflow) is the list of its
  children, \<open>children_cap\<close> the 16-bit capacity of the array. Registration mutates the trie along one
  path; the model rebuilds that path. \<open>None\<close> is undefined behaviour (a copy past the end of a
  children array). Every allocation consumes an outcome of the \<open>heap\<close>.
\<close>

section \<open>Data\<close>

text \<open>A handler function pointer is an opaque number; 0 is the NULL pointer.\<close>

type_synonym csilk_handler_t = nat

datatype csilk_node_type_t = NODE_STATIC | NODE_PARAM | NODE_WILDCARD

fun type_val :: "csilk_node_type_t \<Rightarrow> nat" where
  "type_val NODE_STATIC = 0"
| "type_val NODE_PARAM = 1"
| "type_val NODE_WILDCARD = 2"

record route_meta =
  path_pattern :: "string option"
  input_type :: "string option"
  output_type :: "string option"
  summary :: "string option"
  description :: "string option"
  perm_required :: "string option"
  perm_resource :: "string option"

record csilk_method_handler =
  mh_method :: string
  mh_handlers :: "csilk_handler_t list"
  mh_raw_handlers :: "csilk_handler_t list"
  mh_path :: "string option"
  mh_meta :: route_meta

datatype router_node = Node (segment: string) (ntype: csilk_node_type_t)
  (handlers: "csilk_method_handler list") (children: "router_node list")
  (children_cap: u16) (static_first: "char \<Rightarrow> int")

record csilk_router =
  root :: router_node
  global_middlewares :: "csilk_handler_t list"
  global_middleware_count :: nat

section \<open>Nodes and the children array\<close>

definition INLINE_CHILDREN :: u16 where
  "INLINE_CHILDREN = 8"

definition node_new :: "string \<Rightarrow> csilk_node_type_t \<Rightarrow> heap \<Rightarrow> router_node option \<times> heap" where
  "node_new seg type al =
     (let (node_ok, al) = malloc al in
      if \<not> node_ok then (None, al)
      else let (segment_ok, al) = malloc al in
        if \<not> segment_ok then (None, al)
        else (Some (Node seg type [] [] INLINE_CHILDREN (\<lambda>_. - 1)), al))"

definition node_cmp_key :: "csilk_node_type_t \<Rightarrow> string \<Rightarrow> router_node \<Rightarrow> int" where
  "node_cmp_key type seg node =
     (if type \<noteq> ntype node then (if type_val type < type_val (ntype node) then - 1 else 1)
      else strcmp seg (segment node))"

text \<open>The binary search; the result is the index found (or -1) and the insertion position.\<close>

function find_child_loop ::
  "router_node list \<Rightarrow> csilk_node_type_t \<Rightarrow> string \<Rightarrow> int \<Rightarrow> int \<Rightarrow> int \<times> int"
where
  "find_child_loop cs type seg low high =
     (if low \<le> high then
        (let mid = low + (high - low) div 2;
             cmp = node_cmp_key type seg (cs ! nat mid) in
         if cmp = 0 then (mid, mid)
         else if cmp < 0 then find_child_loop cs type seg low (mid - 1)
         else find_child_loop cs type seg (mid + 1) high)
      else (- 1, low))"
  by pat_completeness auto
termination
  by (relation "measure (\<lambda>(cs, type, seg, low, high). nat (high - low + 1))") auto

declare find_child_loop.simps [simp del]

definition node_find_child :: "router_node \<Rightarrow> csilk_node_type_t \<Rightarrow> string \<Rightarrow> int \<times> int" where
  "node_find_child parent type seg =
     find_child_loop (children parent) type seg 0 (int (length (children parent)) - 1)"

text \<open>The update of the leading-byte table after an insertion at \<open>pos\<close>.\<close>

definition static_first_insert :: "(char \<Rightarrow> int) \<Rightarrow> router_node \<Rightarrow> nat \<Rightarrow> char \<Rightarrow> int" where
  "static_first_insert sf child pos =
     (if ntype child = NODE_STATIC \<and> segment child \<noteq> [] then
        (let first = deref (segment child);
             sf = (\<lambda>i. if sf i \<ge> int pos then sf i + 1 else sf i) in
         if sf first < 0 then sf(first := int pos) else sf)
      else sf)"

definition grow_cap :: "u16 \<Rightarrow> u16" where
  "grow_cap cap = (let new_cap = cap * 2 in if new_cap < 16 then 16 else new_cap)"

definition node_add_child ::
  "router_node \<Rightarrow> router_node \<Rightarrow> int \<Rightarrow> heap \<Rightarrow> (int \<times> router_node \<times> heap) option"
where
  "node_add_child parent child insert_pos al =
     (let cs = children parent; cap = children_cap parent; pos = nat insert_pos;
          store = (\<lambda>cap al. Some (0, Node (segment parent) (ntype parent) (handlers parent)
            (take pos cs @ child # drop pos cs) cap
            (static_first_insert (static_first parent) child pos), al)) in
      if insert_pos < 0 \<or> insert_pos > int (length cs) then Some (- 1, parent, al)
      else if length cs \<ge> unat cap then
        (let new_cap = grow_cap cap; (arr_ok, al) = malloc al in
         if \<not> arr_ok then Some (- 1, parent, al)
         else if length cs \<ge> unat new_cap then None
         else store new_cap al)
      else store cap al)"

definition csilk_router_new :: "heap \<Rightarrow> csilk_router option \<times> heap" where
  "csilk_router_new al =
     (let (r_ok, al) = malloc al in
      if \<not> r_ok then (None, al)
      else case node_new [] NODE_STATIC al of
        (None, al) \<Rightarrow> (None, al)
      | (Some node, al) \<Rightarrow>
          (Some \<lparr>root = node, global_middlewares = replicate 32 0, global_middleware_count = 0\<rparr>, al))"

section \<open>Route registration\<close>

text \<open>How a path segment of a route selects a node: \<open>:name\<close>, \<open>*name\<close> or a literal.\<close>

definition seg_key :: "string \<Rightarrow> csilk_node_type_t \<times> string" where
  "seg_key seg =
     (if deref seg = CHR '':'' then (NODE_PARAM, tl seg)
      else if deref seg = CHR ''*'' then (NODE_WILDCARD, tl seg)
      else (NODE_STATIC, seg))"

definition set_handlers :: "router_node \<Rightarrow> csilk_method_handler list \<Rightarrow> router_node" where
  "set_handlers n hs = Node (segment n) (ntype n) hs (children n) (children_cap n) (static_first n)"

definition set_child :: "router_node \<Rightarrow> nat \<Rightarrow> router_node \<Rightarrow> router_node" where
  "set_child n i c = Node (segment n) (ntype n) (handlers n) ((children n)[i := c])
     (children_cap n) (static_first n)"

text \<open>The second half of \<open>router_add_full\<close>: the method handler entry of the final node.\<close>

definition add_handler ::
  "csilk_handler_t list \<Rightarrow> string \<Rightarrow> string \<Rightarrow> csilk_handler_t list \<Rightarrow> route_meta \<Rightarrow>
   router_node \<Rightarrow> heap \<Rightarrow> int \<times> router_node \<times> heap"
where
  "add_handler globals meth path hs meta cur al =
     (if \<exists>mh \<in> set (handlers cur). mh_method mh = meth then (0, cur, al)
      else
        let (mh_ok, al) = malloc al in
        if \<not> mh_ok then (- 1, cur, al) else
        let (method_ok, al) = malloc al in
        if \<not> method_ok then (- 1, cur, al) else
        let (raw_ok, al) = malloc al in
        if \<not> raw_ok then (- 1, cur, al) else
        let (compiled_ok, al) = malloc al in
        if \<not> compiled_ok then (- 1, cur, al) else
        let actual_path = (case path_pattern meta of Some pp \<Rightarrow> pp | None \<Rightarrow> path);
            (path_ok, al) = malloc al in
        if \<not> path_ok then (- 1, cur, al) else
        let mh = \<lparr>mh_method = meth, mh_handlers = globals @ hs, mh_raw_handlers = hs,
                  mh_path = Some actual_path, mh_meta = meta\<rparr> in
        (0, set_handlers cur (mh # handlers cur), al))"

lemma next_segment_length: "next_segment p = Some (seg, p') \<Longrightarrow> length p' < length p"
proof -
  assume a: "next_segment p = Some (seg, p')"
  define t where "t = dropWhile (\<lambda>c. c = CHR ''/'') p"
  have t: "t \<noteq> []" "p' = dropWhile (\<lambda>c. c \<noteq> CHR ''/'') t"
    using a by (auto simp: next_segment_def t_def Let_def split: if_splits)
  then obtain c u where cu: "t = c # u" "c \<noteq> CHR ''/''"
    by (metis (mono_tags, lifting) dropWhile_eq_Cons_conv list.exhaust t_def)
  then have "length p' < length t"
    using t by (simp add: length_dropWhile_le less_Suc_eq_le)
  also have "\<dots> \<le> length p" by (simp add: t_def length_dropWhile_le)
  finally show ?thesis .
qed

text \<open>The loop of \<open>router_add_full\<close> over the segments of the path, then the handler entry.\<close>

function add_path ::
  "csilk_handler_t list \<Rightarrow> string \<Rightarrow> string \<Rightarrow> csilk_handler_t list \<Rightarrow> route_meta \<Rightarrow>
   router_node \<Rightarrow> string \<Rightarrow> heap \<Rightarrow> (int \<times> router_node \<times> heap) option"
where
  "add_path globals meth path hs meta cur p al =
     (case next_segment p of
        None \<Rightarrow> Some (add_handler globals meth path hs meta cur al)
      | Some (seg, p') \<Rightarrow>
          let (type, seg_name) = seg_key seg;
              (name_ok, al) = malloc al in
          if \<not> name_ok then Some (- 1, cur, al)
          else
            let (found_idx, insert_pos) = node_find_child cur type seg_name in
            if found_idx \<ge> 0 then
              let found = children cur ! nat found_idx in
              (case (if type = NODE_WILDCARD
                     then Some (add_handler globals meth path hs meta found al)
                     else add_path globals meth path hs meta found p' al) of
                 None \<Rightarrow> None
               | Some (rc, found, al) \<Rightarrow> Some (rc, set_child cur (nat found_idx) found, al))
            else
              (case node_new seg_name type al of
                 (None, al) \<Rightarrow> Some (- 1, cur, al)
               | (Some found, al) \<Rightarrow>
                   (case node_add_child cur found insert_pos al of
                      None \<Rightarrow> None
                    | Some (add_rc, cur, al) \<Rightarrow>
                        if add_rc \<noteq> 0 then Some (- 1, cur, al)
                        else
                          (case (if type = NODE_WILDCARD
                                 then Some (add_handler globals meth path hs meta found al)
                                 else add_path globals meth path hs meta found p' al) of
                             None \<Rightarrow> None
                           | Some (rc, found, al) \<Rightarrow>
                               Some (rc, set_child cur (nat insert_pos) found, al)))))"
  by pat_completeness auto
termination
  by (relation "measure (\<lambda>(globals, meth, path, hs, meta, cur, p, al). length p)")
    (auto dest: next_segment_length)

declare add_path.simps [simp del]

definition globals_of :: "csilk_router \<Rightarrow> csilk_handler_t list" where
  "globals_of r = take (global_middleware_count r) (global_middlewares r)"

definition router_add_full ::
  "csilk_router option \<Rightarrow> string option \<Rightarrow> string option \<Rightarrow> csilk_handler_t list option \<Rightarrow>
   route_meta \<Rightarrow> heap \<Rightarrow> (int \<times> csilk_router option \<times> heap) option"
where
  "router_add_full r meth path hs meta al =
     (case (r, meth, path, hs) of
        (Some r, Some meth, Some path, Some hs) \<Rightarrow>
          (case add_path (globals_of r) meth path hs meta (root r) path al of
             None \<Rightarrow> None
           | Some (rc, node, al) \<Rightarrow> Some (rc, Some (r\<lparr>root := node\<rparr>), al))
      | _ \<Rightarrow> Some (- 1, r, al))"

definition no_meta :: route_meta where
  "no_meta = \<lparr>path_pattern = None, input_type = None, output_type = None, summary = None,
     description = None, perm_required = None, perm_resource = None\<rparr>"

definition csilk_router_add_extended ::
  "csilk_router option \<Rightarrow> string option \<Rightarrow> string option \<Rightarrow> csilk_handler_t list option \<Rightarrow>
   string option \<Rightarrow> string option \<Rightarrow> string option \<Rightarrow> string option \<Rightarrow> string option \<Rightarrow>
   heap \<Rightarrow> (int \<times> csilk_router option \<times> heap) option"
where
  "csilk_router_add_extended r meth path hs pattern it ot summ desc al =
     router_add_full r meth path hs
       \<lparr>path_pattern = pattern, input_type = it, output_type = ot, summary = summ,
        description = desc, perm_required = None, perm_resource = None\<rparr> al"

definition csilk_router_add ::
  "csilk_router option \<Rightarrow> string option \<Rightarrow> string option \<Rightarrow> csilk_handler_t list option \<Rightarrow>
   heap \<Rightarrow> (int \<times> csilk_router option \<times> heap) option"
where
  "csilk_router_add r meth path hs al =
     csilk_router_add_extended r meth path hs path None None None None al"

definition csilk_router_add_perm ::
  "csilk_router option \<Rightarrow> string option \<Rightarrow> string option \<Rightarrow> csilk_handler_t list option \<Rightarrow>
   string option \<Rightarrow> string option \<Rightarrow> heap \<Rightarrow> (int \<times> csilk_router option \<times> heap) option"
where
  "csilk_router_add_perm r meth path hs perm resource al =
     router_add_full r meth path hs
       (no_meta\<lparr>path_pattern := path, perm_required := perm, perm_resource := resource\<rparr>) al"

definition csilk_router_add_extended_perm ::
  "csilk_router option \<Rightarrow> string option \<Rightarrow> string option \<Rightarrow> csilk_handler_t list option \<Rightarrow>
   string option \<Rightarrow> string option \<Rightarrow> string option \<Rightarrow> string option \<Rightarrow> string option \<Rightarrow>
   string option \<Rightarrow> string option \<Rightarrow> heap \<Rightarrow> (int \<times> csilk_router option \<times> heap) option"
where
  "csilk_router_add_extended_perm r meth path hs pattern it ot summ desc perm resource al =
     router_add_full r meth path hs
       \<lparr>path_pattern = pattern, input_type = it, output_type = ot, summary = summ,
        description = desc, perm_required = perm, perm_resource = resource\<rparr> al"

section \<open>Compilation of the global middlewares\<close>

fun compile_list :: "csilk_handler_t list \<Rightarrow> csilk_method_handler list \<Rightarrow> heap \<Rightarrow>
  csilk_method_handler list \<times> heap"
where
  "compile_list globals [] al = ([], al)"
| "compile_list globals (mh # mhs) al =
     (let (compiled_ok, al) = malloc al;
          mh = (if compiled_ok then mh\<lparr>mh_handlers := globals @ mh_raw_handlers mh\<rparr> else mh);
          (mhs, al) = compile_list globals mhs al in
      (mh # mhs, al))"

fun node_compile_handlers :: "csilk_handler_t list \<Rightarrow> router_node \<Rightarrow> heap \<Rightarrow> router_node \<times> heap"
  and compile_children :: "csilk_handler_t list \<Rightarrow> router_node list \<Rightarrow> heap \<Rightarrow> router_node list \<times> heap"
where
  "node_compile_handlers globals (Node seg type hs cs cap sf) al =
     (let (hs, al) = compile_list globals hs al;
          (cs, al) = compile_children globals cs al in
      (Node seg type hs cs cap sf, al))"
| "compile_children globals [] al = ([], al)"
| "compile_children globals (c # cs) al =
     (let (c, al) = node_compile_handlers globals c al;
          (cs, al) = compile_children globals cs al in
      (c # cs, al))"


section \<open>Route listing\<close>

text \<open>The route objects of the JSON array; an object that cannot be allocated is left out.\<close>

type_synonym route_json = "string \<times> string \<times> string \<times> string \<times> string \<times> string"

abbreviation or_empty :: "string option \<Rightarrow> string" where
  "or_empty s \<equiv> case s of None \<Rightarrow> [] | Some s \<Rightarrow> s"

definition route_of :: "csilk_method_handler \<Rightarrow> route_json" where
  "route_of mh = (mh_method mh, or_empty (mh_path mh), or_empty (input_type (mh_meta mh)),
     or_empty (output_type (mh_meta mh)), or_empty (summary (mh_meta mh)),
     or_empty (description (mh_meta mh)))"

fun collect_handlers :: "csilk_method_handler list \<Rightarrow> heap \<Rightarrow> route_json list \<times> heap" where
  "collect_handlers [] al = ([], al)"
| "collect_handlers (mh # mhs) al =
     (let (route_ok, al) = malloc al; (rs, al) = collect_handlers mhs al in
      ((if route_ok then [route_of mh] else []) @ rs, al))"

fun node_collect_routes :: "router_node \<Rightarrow> heap \<Rightarrow> route_json list \<times> heap"
  and collect_children :: "router_node list \<Rightarrow> heap \<Rightarrow> route_json list \<times> heap"
where
  "node_collect_routes (Node seg type hs cs cap sf) al =
     (let (own, al) = collect_handlers hs al; (sub, al) = collect_children cs al in
      (own @ sub, al))"
| "collect_children [] al = ([], al)"
| "collect_children (c # cs) al =
     (let (rs, al) = node_collect_routes c al; (rs', al) = collect_children cs al in (rs @ rs', al))"

definition csilk_router_collect_routes :: "csilk_router option \<Rightarrow> heap \<Rightarrow> route_json list option \<times> heap"
where
  "csilk_router_collect_routes r al =
     (case r of
        None \<Rightarrow> (None, al)
      | Some r \<Rightarrow>
          let (array_ok, al) = malloc al in
          if \<not> array_ok then (None, al)
          else let (routes, al) = node_collect_routes (root r) al in (Some routes, al))"

section \<open>The order of the children and the binary search\<close>

abbreviation node_key :: "router_node \<Rightarrow> csilk_node_type_t \<times> string" where
  "node_key n \<equiv> (ntype n, segment n)"

text \<open>Static before parameter before wildcard children, each group by name.\<close>

fun key_rank :: "csilk_node_type_t \<times> string \<Rightarrow> nat \<times> string" where
  "key_rank (t, s) = (type_val t, s)"

lemma type_val_inj [simp]: "type_val t = type_val u \<longleftrightarrow> t = u"
  by (cases t; cases u) auto

lemma key_rank_inj [simp]: "key_rank k = key_rank l \<longleftrightarrow> k = l"
  by (cases k; cases l) auto

declare key_rank.simps [simp del]

definition ordered :: "router_node list \<Rightarrow> bool" where
  "ordered cs = sorted_wrt (\<lambda>c d. key_rank (node_key c) < key_rank (node_key d)) cs"

lemma node_cmp_key_eq_0_iff: "node_cmp_key t s n = 0 \<longleftrightarrow> node_key n = (t, s)"
  by (auto simp: node_cmp_key_def)

lemma node_cmp_key_less_0_iff:
  "node_cmp_key t s n < 0 \<longleftrightarrow> key_rank (t, s) < key_rank (node_key n)"
  by (auto simp: node_cmp_key_def strcmp_less_0_iff less_prod_def' key_rank.simps
      dest: le_neq_implies_less)

lemma ordered_nth_less:
  "ordered cs \<Longrightarrow> i < j \<Longrightarrow> j < length cs \<Longrightarrow>
     key_rank (node_key (cs ! i)) < key_rank (node_key (cs ! j))"
  by (simp add: ordered_def sorted_wrt_iff_nth_less)

text \<open>What the search promises: the position of the key, or the position where it belongs.\<close>

definition find_ok :: "router_node list \<Rightarrow> csilk_node_type_t \<times> string \<Rightarrow> int \<times> int \<Rightarrow> bool" where
  "find_ok cs k r = (case r of (idx, pos) \<Rightarrow>
     0 \<le> pos \<and> pos \<le> int (length cs) \<and>
     (if 0 \<le> idx then idx = pos \<and> nat idx < length cs \<and> node_key (cs ! nat idx) = k
      else (\<forall>i < nat pos. key_rank (node_key (cs ! i)) < key_rank k) \<and>
           (\<forall>i < length cs. nat pos \<le> i \<longrightarrow> key_rank k < key_rank (node_key (cs ! i)))))"

lemma find_child_loop_ok:
  assumes "ordered cs" "0 \<le> low" "low \<le> high + 1" "high < int (length cs)"
    and "\<forall>i < nat low. key_rank (node_key (cs ! i)) < key_rank (t, s)"
    and "\<forall>i < length cs. high < int i \<longrightarrow> key_rank (t, s) < key_rank (node_key (cs ! i))"
  shows "find_ok cs (t, s) (find_child_loop cs t s low high)"
  using assms
proof (induction cs t s low high rule: find_child_loop.induct)
  case (1 cs t s low high)
  note below = "1.prems"(5) and above = "1.prems"(6)
  show ?case
  proof (cases "low \<le> high")
    case False
    then show ?thesis
      using "1.prems" by (subst find_child_loop.simps) (auto simp: find_ok_def nat_le_iff)
  next
    case True
    define mid where "mid = low + (high - low) div 2"
    have mid: "low \<le> mid" "mid \<le> high" "nat mid < length cs"
      using True "1.prems" by (auto simp: mid_def)
    let ?cmp = "node_cmp_key t s (cs ! nat mid)"
    consider "?cmp = 0" | "?cmp < 0" | "0 < ?cmp" by linarith
    then show ?thesis
    proof cases
      case 1
      then show ?thesis
        using True mid "1.prems"(2) node_cmp_key_eq_0_iff[of t s "cs ! nat mid"]
        by (subst find_child_loop.simps) (auto simp: find_ok_def Let_def mid_def[symmetric])
    next
      case 2
      have "key_rank (t, s) < key_rank (node_key (cs ! i))" if "i < length cs" "mid - 1 < int i" for i
      proof -
        have "nat mid = i \<or> nat mid < i" using that mid "1.prems"(2) by linarith
        moreover have "key_rank (t, s) < key_rank (node_key (cs ! nat mid))"
          using 2 by (simp add: node_cmp_key_less_0_iff)
        ultimately show ?thesis
          using ordered_nth_less[OF "1.prems"(1), of "nat mid" i] that(1)
          by (auto intro: order.strict_trans)
      qed
      then have "find_ok cs (t, s) (find_child_loop cs t s low (mid - 1))"
        using True 2 mid "1.prems" by (intro "1.IH"(1)[OF _ mid_def refl]) auto
      then show ?thesis
        using True 2 by (subst find_child_loop.simps) (simp add: Let_def mid_def[symmetric])
    next
      case 3
      then have gt: "key_rank (node_key (cs ! nat mid)) < key_rank (t, s)"
        using node_cmp_key_less_0_iff[of t s "cs ! nat mid"] node_cmp_key_eq_0_iff[of t s "cs ! nat mid"]
          linorder_cases[of "key_rank (node_key (cs ! nat mid))" "key_rank (t, s)"]
        by (metis key_rank_inj less_int_code(1) not_less_iff_gr_or_eq)
      have "key_rank (node_key (cs ! i)) < key_rank (t, s)" if "i < nat (mid + 1)" for i
      proof -
        have "i = nat mid \<or> i < nat mid" using that by linarith
        then show ?thesis
          using ordered_nth_less[OF "1.prems"(1), of i "nat mid"] mid gt by auto
      qed
      then have "find_ok cs (t, s) (find_child_loop cs t s (mid + 1) high)"
        using True 3 mid "1.prems" by (intro "1.IH"(2)[OF _ mid_def refl]) auto
      then show ?thesis
        using True 3 by (subst find_child_loop.simps) (simp add: Let_def mid_def[symmetric])
    qed
  qed
qed

lemma node_find_child_ok:
  assumes "ordered (children n)"
  shows "find_ok (children n) (t, s) (node_find_child n t s)"
  unfolding node_find_child_def using assms by (intro find_child_loop_ok) auto

lemma ordered_insert:
  assumes "ordered cs" "pos \<le> length cs"
    and "\<forall>i < pos. key_rank (node_key (cs ! i)) < key_rank (node_key c)"
    and "\<forall>i < length cs. pos \<le> i \<longrightarrow> key_rank (node_key c) < key_rank (node_key (cs ! i))"
  shows "ordered (take pos cs @ c # drop pos cs)"
proof -
  have "key_rank (node_key x) < key_rank (node_key c)" if "x \<in> set (take pos cs)" for x
    using that assms(2,3) by (auto simp: in_set_conv_nth)
  moreover have "key_rank (node_key c) < key_rank (node_key x)" if "x \<in> set (drop pos cs)" for x
    using that assms(2,4) by (auto simp: in_set_conv_nth)
  ultimately show ?thesis
    using assms(1)
    by (auto simp: ordered_def sorted_wrt_append sorted_wrt_take sorted_wrt_drop
        intro: order.strict_trans)
qed

lemma ordered_update:
  assumes "ordered cs" "i < length cs" "node_key c = node_key (cs ! i)"
  shows "ordered (cs[i := c])"
  using assms unfolding ordered_def sorted_wrt_iff_nth_less
  by (simp add: nth_list_update)

lemma ordered_key_unique:
  assumes "ordered cs" "c \<in> set cs" "d \<in> set cs" "node_key c = node_key d"
  shows "c = d"
proof -
  obtain i j where ij: "c = cs ! i" "i < length cs" "d = cs ! j" "j < length cs"
    using assms(2,3) by (auto simp: in_set_conv_nth)
  show ?thesis
    using ordered_nth_less[OF assms(1), of i j] ordered_nth_less[OF assms(1), of j i] ij assms(4)
    by (cases i j rule: linorder_cases) auto
qed

section \<open>Well-formed tries\<close>

fun wf_node :: "router_node \<Rightarrow> bool" where
  "wf_node (Node seg type hs cs cap sf) =
     (ordered cs \<and> distinct (map mh_method hs) \<and> length cs \<le> unat cap \<and> 8 \<le> unat cap \<and>
      (type = NODE_WILDCARD \<longrightarrow> cs = []) \<and> (\<forall>c\<in>set cs. wf_node c))"

text \<open>The fan-out bound under which the 16-bit capacity cannot wrap.\<close>

fun small_fanout :: "router_node \<Rightarrow> bool" where
  "small_fanout (Node seg type hs cs cap sf) = (length cs < 32768 \<and> (\<forall>c\<in>set cs. small_fanout c))"

lemma wf_node_iff:
  "wf_node n \<longleftrightarrow> ordered (children n) \<and> distinct (map mh_method (handlers n)) \<and>
     length (children n) \<le> unat (children_cap n) \<and> 8 \<le> unat (children_cap n) \<and>
     (ntype n = NODE_WILDCARD \<longrightarrow> children n = []) \<and> (\<forall>c\<in>set (children n). wf_node c)"
  by (cases n) simp

lemma small_fanout_iff:
  "small_fanout n \<longleftrightarrow> length (children n) < 32768 \<and> (\<forall>c\<in>set (children n). small_fanout c)"
  by (cases n) simp

lemmas node_upd_defs = set_handlers_def set_child_def

lemma set_child_sel [simp]:
  "segment (set_child n i c) = segment n" "ntype (set_child n i c) = ntype n"
  "handlers (set_child n i c) = handlers n" "children (set_child n i c) = (children n)[i := c]"
  by (simp_all add: set_child_def)

lemma set_handlers_sel [simp]:
  "segment (set_handlers n hs) = segment n" "ntype (set_handlers n hs) = ntype n"
  "handlers (set_handlers n hs) = hs" "children (set_handlers n hs) = children n"
  by (simp_all add: set_handlers_def)

lemma wf_set_child [wf_rules]:
  assumes "wf_node n" "i < length (children n)" "wf_node c" "node_key c = node_key (children n ! i)"
  shows "wf_node (set_child n i c)"
  using assms ordered_update[of "children n" i c]
  by (auto simp: wf_node_iff[of n] set_child_def dest: set_update_subset_insert[THEN subsetD])

lemma wf_set_handlers [wf_rules]:
  "wf_node n \<Longrightarrow> distinct (map mh_method hs) \<Longrightarrow> wf_node (set_handlers n hs)"
  by (simp add: wf_node_iff[of n] set_handlers_def)

section \<open>The routes of a trie\<close>

type_synonym route_pattern = "(csilk_node_type_t \<times> string) list"

text \<open>The method handler \<open>mh\<close> is registered at the node that the pattern leads to.\<close>

fun has_route :: "router_node \<Rightarrow> route_pattern \<Rightarrow> csilk_method_handler \<Rightarrow> bool" where
  "has_route n [] mh = (mh \<in> set (handlers n))"
| "has_route n (k # pat) mh = (\<exists>c\<in>set (children n). node_key c = k \<and> has_route c pat mh)"

text \<open>The pattern a route path registers: its segments, up to the first wildcard.\<close>

function pattern_of :: "string \<Rightarrow> route_pattern" where
  "pattern_of p = (case next_segment p of
     None \<Rightarrow> []
   | Some (seg, p') \<Rightarrow>
       seg_key seg # (if fst (seg_key seg) = NODE_WILDCARD then [] else pattern_of p'))"
  by pat_completeness auto
termination by (relation "measure length") (auto dest: next_segment_length)

declare pattern_of.simps [simp del]

abbreviation registered :: "router_node \<Rightarrow> route_pattern \<Rightarrow> string \<Rightarrow> bool" where
  "registered n pat meth \<equiv> \<exists>mh. has_route n pat mh \<and> mh_method mh = meth"

definition new_handler ::
  "csilk_handler_t list \<Rightarrow> string \<Rightarrow> string \<Rightarrow> csilk_handler_t list \<Rightarrow> route_meta \<Rightarrow> csilk_method_handler"
where
  "new_handler globals meth path hs meta =
     \<lparr>mh_method = meth, mh_handlers = globals @ hs, mh_raw_handlers = hs,
      mh_path = Some (case path_pattern meta of Some pp \<Rightarrow> pp | None \<Rightarrow> path), mh_meta = meta\<rparr>"

text \<open>
  The effect of a registration: with code 0 exactly the new entry is added, unless the method is
  already registered there; with code -1 no route appears or disappears.
\<close>

definition add_effect ::
  "router_node \<Rightarrow> route_pattern \<Rightarrow> csilk_method_handler \<Rightarrow> int \<Rightarrow> router_node \<Rightarrow> bool"
where
  "add_effect n pat new rc n' =
     ((rc = 0 \<or> rc = - 1) \<and> node_key n' = node_key n \<and>
      (\<forall>q mh. has_route n' q mh \<longleftrightarrow> has_route n q mh \<or>
         (rc = 0 \<and> q = pat \<and> mh = new \<and> \<not> registered n pat (mh_method new))))"

lemma has_route_set_handlers:
  "has_route (set_handlers n hs) q mh \<longleftrightarrow> (if q = [] then mh \<in> set hs else has_route n q mh)"
  by (cases q) auto

lemma has_route_set_child:
  assumes "ordered (children n)" "i < length (children n)" "node_key c = node_key (children n ! i)"
  shows "has_route (set_child n i c) q mh \<longleftrightarrow>
    (case q of [] \<Rightarrow> has_route n q mh
     | k # q' \<Rightarrow> if k = node_key c then has_route c q' mh else has_route n q mh)"
proof (cases q)
  case (Cons k q')
  let ?old = "children n ! i"
  have uniq: "d = ?old" if "d \<in> set (children n)" "node_key d = node_key ?old" for d
    using ordered_key_unique[OF assms(1) that(1) nth_mem[OF assms(2)]] that(2) by simp
  have mem: "c \<in> set ((children n)[i := c])" using assms(2) by (rule set_update_memI)
  have other: "d \<in> set ((children n)[i := c]) \<longleftrightarrow> d \<in> set (children n)"
    if "node_key d \<noteq> node_key ?old" for d
    using that assms by (metis in_set_conv_nth length_list_update nth_list_update_eq
        nth_list_update_neq)
  have only: "d = c" if "d \<in> set ((children n)[i := c])" "node_key d = node_key c" for d
    using ordered_key_unique[OF ordered_update[OF assms] that(1) mem that(2)] .
  show ?thesis
  proof (cases "k = node_key c")
    case True
    then have "has_route (set_child n i c) q mh \<longleftrightarrow> has_route c q' mh"
      using Cons mem only by auto
    then show ?thesis using Cons True by simp
  next
    case False
    then have "has_route (set_child n i c) q mh \<longleftrightarrow> has_route n q mh"
      using Cons other assms(3) by auto
    then show ?thesis using Cons False by simp
  qed
qed simp

lemma add_handler_effect:
  assumes "wf_node n" "add_handler globals meth path hs meta n al = (rc, n', al')"
  shows "wf_node n' \<and> add_effect n [] (new_handler globals meth path hs meta) rc n'"
proof (cases "\<exists>mh \<in> set (handlers n). mh_method mh = meth")
  case True
  with assms show ?thesis
    by (auto simp: add_handler_def add_effect_def new_handler_def)
next
  case False
  have wf: "wf_node (set_handlers n (new_handler globals meth path hs meta # handlers n))"
    using assms(1) False by (intro wf_rules) (auto simp: wf_node_iff[of n] new_handler_def)
  from False assms(2) consider "rc = - 1" "n' = n"
    | "rc = 0" "n' = set_handlers n (new_handler globals meth path hs meta # handlers n)"
    by (auto simp: add_handler_def Let_def new_handler_def split: if_splits prod.splits)
  then show ?thesis
  proof cases
    case 1
    then show ?thesis using assms(1) by (simp add: add_effect_def)
  next
    case 2
    then show ?thesis
      using wf False
      by (auto simp: add_effect_def has_route_set_handlers new_handler_def split: if_splits)
  qed
qed

lemma node_new_cases:
  assumes "node_new s t al = (r, al')"
  obtains "r = None" | "r = Some (Node s t [] [] INLINE_CHILDREN (\<lambda>_. - 1))"
  using assms by (auto simp: node_new_def Let_def split: if_splits prod.splits)

lemma wf_fresh: "wf_node (Node s t [] [] INLINE_CHILDREN sf)"
  by (simp add: ordered_def INLINE_CHILDREN_def)

lemma has_route_fresh: "\<not> has_route (Node s t [] [] cap sf) q mh"
  by (cases q) simp_all

text \<open>The outcomes of \<open>node_add_child\<close> at a position inside the array.\<close>

lemma node_add_child_cases:
  assumes "node_add_child n c pos al = Some (rc, n', al')" "0 \<le> pos" "pos \<le> int (length (children n))"
    and "length (children n) \<le> unat (children_cap n)" "8 \<le> unat (children_cap n)"
  obtains (fail) "rc = - 1" "n' = n"
  | (ok) cap where "rc = 0" "n' = Node (segment n) (ntype n) (handlers n)
        (take (nat pos) (children n) @ c # drop (nat pos) (children n)) cap
        (static_first_insert (static_first n) c (nat pos))"
      "Suc (length (children n)) \<le> unat cap" "8 \<le> unat cap"
proof -
  have min16: "8 \<le> unat (grow_cap cap)" for cap
    by (simp add: grow_cap_def Let_def word_less_nat_alt)
  consider "rc = - 1" "n' = n"
    | cap where "rc = 0" "n' = Node (segment n) (ntype n) (handlers n)
        (take (nat pos) (children n) @ c # drop (nat pos) (children n)) cap
        (static_first_insert (static_first n) c (nat pos))"
      "Suc (length (children n)) \<le> unat cap" "8 \<le> unat cap"
    using assms min16[of "children_cap n"]
    by (auto simp: node_add_child_def Let_def split: if_splits prod.splits)
  then show ?thesis using that by cases blast+
qed

lemma has_route_child:
  assumes "ordered (children n)" "i < length (children n)"
  shows "has_route n (node_key (children n ! i) # q) mh \<longleftrightarrow> has_route (children n ! i) q mh"
proof -
  have "c = children n ! i" if "c \<in> set (children n)" "node_key c = node_key (children n ! i)" for c
    using ordered_key_unique[OF assms(1) that(1) nth_mem[OF assms(2)] that(2)] .
  then show ?thesis using nth_mem[OF assms(2)] by auto
qed

lemma descend_effect:
  assumes wf: "wf_node n" and i: "i < length (children n)"
    and k: "node_key (children n ! i) = k"
    and c: "wf_node c" "add_effect (children n ! i) pat new rc c"
  shows "wf_node (set_child n i c) \<and> add_effect n (k # pat) new rc (set_child n i c)"
proof -
  have key: "node_key c = node_key (children n ! i)" using c(2) by (simp add: add_effect_def)
  have ord: "ordered (children n)" using wf by (simp add: wf_node_iff[of n])
  have child: "has_route n (k # q) mh \<longleftrightarrow> has_route (children n ! i) q mh" for q mh
    using has_route_child[OF ord i] k by simp
  have "has_route (set_child n i c) q mh \<longleftrightarrow> has_route n q mh \<or>
      (rc = 0 \<and> q = k # pat \<and> mh = new \<and> \<not> registered n (k # pat) (mh_method new))" for q mh
  proof (cases q)
    case (Cons k' q')
    have "has_route (set_child n i c) q mh \<longleftrightarrow>
        (if k' = k then has_route c q' mh else has_route n q mh)"
      using has_route_set_child[OF ord i key, of q mh] Cons key k by simp
    moreover have "has_route c q' mh \<longleftrightarrow> has_route n (k # q') mh \<or>
        (rc = 0 \<and> q' = pat \<and> mh = new \<and> \<not> registered n (k # pat) (mh_method new))"
      using c(2) unfolding add_effect_def child by blast
    ultimately show ?thesis
      using Cons by (simp del: has_route.simps)
  qed (simp add: has_route_set_child[OF ord i key])
  moreover have "wf_node (set_child n i c)"
    using wf i c(1) key by (rule wf_set_child)
  ultimately show ?thesis
    using c(2) by (simp add: add_effect_def)
qed

lemma insert_fresh:
  assumes wf: "wf_node n" "ntype n \<noteq> NODE_WILDCARD"
    and find: "find_ok (children n) (t, s) (idx, pos)" "idx < 0"
    and n': "n' = Node (segment n) (ntype n) (handlers n)
        (take (nat pos) (children n) @ c # drop (nat pos) (children n)) cap sf"
      "Suc (length (children n)) \<le> unat cap" "8 \<le> unat cap"
    and c: "c = Node s t [] [] INLINE_CHILDREN sf'"
  shows "wf_node n'" "nat pos < length (children n')" "children n' ! nat pos = c"
    "node_key n' = node_key n" "has_route n' q mh \<longleftrightarrow> has_route n q mh"
proof -
  have pos: "nat pos \<le> length (children n)" using find by (auto simp: find_ok_def)
  have "ordered (children n')"
    using wf find pos unfolding n'(1) wf_node_iff[of n] find_ok_def c
    by (simp, intro ordered_insert) auto
  moreover have set: "set (children n') = insert c (set (children n))"
    unfolding n'(1) by simp (metis append_take_drop_id set_append)
  moreover have len: "length (children n') = Suc (length (children n))"
    using pos by (simp add: n'(1))
  ultimately show "wf_node n'"
    using wf n'(2,3) wf_fresh[of s t sf'] unfolding wf_node_iff[of n'] wf_node_iff[of n] c
    by (simp add: n'(1))
  show "nat pos < length (children n')" "children n' ! nat pos = c" "node_key n' = node_key n"
    using pos by (simp_all add: n'(1) nth_append)
  show "has_route n' q mh \<longleftrightarrow> has_route n q mh"
  proof (cases q)
    case Nil
    then show ?thesis by (simp add: n'(1))
  next
    case (Cons k q')
    then show ?thesis using set by (simp add: c has_route_fresh)
  qed
qed

lemma add_effect_routes_eq:
  assumes "add_effect m pat new rc n'" "\<And>q mh. has_route m q mh \<longleftrightarrow> has_route n q mh"
    "node_key m = node_key n"
  shows "add_effect n pat new rc n'"
  using assms by (simp add: add_effect_def)

text \<open>The ways one turn of the registration loop can go.\<close>

lemma add_path_cases:
  assumes run: "add_path globals meth path hs meta n p al = Some (rc, n', al')"
    and wf: "wf_node n" "ntype n \<noteq> NODE_WILDCARD"
  obtains (last) "next_segment p = None" "add_handler globals meth path hs meta n al = (rc, n', al')"
  | (stop) seg p' where "next_segment p = Some (seg, p')" "rc = - 1" "n' = n"
  | (descend) seg p' m i c al2 where "next_segment p = Some (seg, p')"
      "wf_node m" "i < length (children m)" "node_key (children m ! i) = seg_key seg"
      "\<And>q mh. has_route m q mh \<longleftrightarrow> has_route n q mh" "node_key m = node_key n"
      "(if fst (seg_key seg) = NODE_WILDCARD
        then Some (add_handler globals meth path hs meta (children m ! i) al2)
        else add_path globals meth path hs meta (children m ! i) p' al2) = Some (rc, c, al')"
      "n' = set_child m i c"
proof (cases "next_segment p")
  case None
  then show ?thesis using run last by (simp add: add_path.simps[of _ _ _ _ _ n p al])
next
  case (Some sp)
  obtain seg p' where sp: "next_segment p = Some (seg, p')" using Some by (cases sp) simp
  obtain t s where ts: "seg_key seg = (t, s)" by (cases "seg_key seg")
  obtain name_ok al1 where al1: "malloc al = (name_ok, al1)" by (cases "malloc al")
  obtain idx pos where find: "node_find_child n t s = (idx, pos)" by (cases "node_find_child n t s")
  have find_ok: "find_ok (children n) (t, s) (idx, pos)"
    using node_find_child_ok[of n t s] wf find by (simp add: wf_node_iff[of n])
  note run' = run[unfolded add_path.simps[of _ _ _ _ _ n p al] sp option.case prod.case
      ts al1 find Let_def]
  consider "\<not> name_ok" | "name_ok" "0 \<le> idx" | "name_ok" "idx < 0" by linarith
  then show ?thesis
  proof cases
    case 1
    then show ?thesis using run' sp stop by auto
  next
    case 2
    then obtain c where c: "(if t = NODE_WILDCARD
        then Some (add_handler globals meth path hs meta (children n ! nat idx) al1)
        else add_path globals meth path hs meta (children n ! nat idx) p' al1) = Some (rc, c, al')"
      "n' = set_child n (nat idx) c"
      using run' by (auto split: option.splits)
    show ?thesis
      by (rule descend[of seg p' n "nat idx" al1 c])
        (use 2 wf find_ok ts sp c in \<open>auto simp: find_ok_def\<close>)
  next
    case 3
    obtain r al2 where new: "node_new s t al1 = (r, al2)" by (cases "node_new s t al1")
    then show ?thesis
    proof (cases rule: node_new_cases)
      case 1
      then show ?thesis using run' 3 new sp stop by auto
    next
      case 2
      define fresh where "fresh = Node s t [] [] INLINE_CHILDREN (\<lambda>_. - 1)"
      note 2 = 2[folded fresh_def]
      obtain add_rc n1 al3 where add: "node_add_child n fresh pos al2 = Some (add_rc, n1, al3)"
        using run' 3 new 2 by (auto split: option.splits)
      have "0 \<le> pos" "pos \<le> int (length (children n))" "length (children n) \<le> unat (children_cap n)"
        "8 \<le> unat (children_cap n)"
        using find_ok wf(1) by (auto simp: find_ok_def wf_node_iff[of n])
      with add show ?thesis
      proof (cases rule: node_add_child_cases)
        case fail
        then show ?thesis using run' 3 new 2 add sp stop by auto
      next
        case (ok cap)
        note ins = insert_fresh[OF wf find_ok 3(2) ok(2,3,4) fresh_def]
        have fresh_key: "node_key fresh = (t, s)" by (simp add: fresh_def)
        obtain c where c: "(if t = NODE_WILDCARD
            then Some (add_handler globals meth path hs meta fresh al3)
            else add_path globals meth path hs meta fresh p' al3) = Some (rc, c, al')"
          "n' = set_child n1 (nat pos) c"
          using run' 3 new 2 add ok(1) by (auto split: option.splits)
        show ?thesis
          by (rule descend[of seg p' n1 "nat pos" al3 c]) (use ins ts sp c fresh_key in auto)
      qed
    qed
  qed
qed

lemma add_path_effect:
  assumes "wf_node n" "ntype n \<noteq> NODE_WILDCARD"
    and "add_path globals meth path hs meta n p al = Some (rc, n', al')"
  shows "wf_node n' \<and> add_effect n (pattern_of p) (new_handler globals meth path hs meta) rc n'"
  using assms
proof (induction "length p" arbitrary: n p al rc n' al' rule: less_induct)
  case less
  let ?new = "new_handler globals meth path hs meta"
  from less.prems(3,1,2) show ?case
  proof (cases rule: add_path_cases)
    case last
    then show ?thesis
      using less.prems(1) by (simp add: add_handler_effect pattern_of.simps[of p])
  next
    case (stop seg p')
    then show ?thesis using less.prems(1) by (simp add: add_effect_def)
  next
    case (descend seg p' m i c al2)
    let ?pat = "if fst (seg_key seg) = NODE_WILDCARD then [] else pattern_of p'"
    have pat: "pattern_of p = seg_key seg # ?pat" using descend(1) by (subst pattern_of.simps) simp
    have wfc: "wf_node (children m ! i)" using descend(2,3) by (simp add: wf_node_iff[of m])
    have ty: "ntype (children m ! i) = fst (seg_key seg)" using descend(4) by (metis fst_conv)
    have "wf_node c \<and> add_effect (children m ! i) ?pat ?new rc c"
      using descend(7) wfc ty add_handler_effect[OF wfc, of globals meth path hs meta al2 rc c al']
        less.hyps[OF next_segment_length[OF descend(1)] wfc, of al2 rc c al']
      by (simp split: if_splits)
    then have "wf_node n' \<and> add_effect m (pattern_of p) ?new rc n'"
      unfolding pat descend(8) using descend(2-4) by (intro descend_effect) auto
    then show ?thesis using add_effect_routes_eq[OF _ descend(5,6)] by blast
  qed
qed

section \<open>The capacity of the children array\<close>

lemma unat_double: "unat (cap :: u16) < 32768 \<Longrightarrow> unat (cap * 2) = 2 * unat cap"
  by (simp add: unat_word_ariths)

lemma node_add_child_defined:
  assumes "length (children n) < 32768" "length (children n) \<le> unat (children_cap n)"
    "8 \<le> unat (children_cap n)"
  shows "node_add_child n c pos al \<noteq> None"
proof -
  have "length (children n) < unat (grow_cap (children_cap n))"
    if "length (children n) \<ge> unat (children_cap n)"
    using assms that unat_double[of "children_cap n"]
    by (auto simp: grow_cap_def Let_def word_less_nat_alt)
  then show ?thesis by (auto simp: node_add_child_def Let_def split: prod.splits)
qed

lemma add_path_defined:
  assumes "wf_node n" "small_fanout n"
  shows "add_path globals meth path hs meta n p al \<noteq> None"
  using assms
proof (induction "length p" arbitrary: n p al rule: less_induct)
  case less
  show ?case
  proof (cases "next_segment p")
    case None
    then show ?thesis by (subst add_path.simps) simp
  next
    case (Some sp)
    obtain seg p' where sp: "next_segment p = Some (seg, p')" using Some by (cases sp) simp
    obtain t s where ts: "seg_key seg = (t, s)" by (cases "seg_key seg")
    obtain idx pos where find: "node_find_child n t s = (idx, pos)" by (cases "node_find_child n t s")
    have find_ok: "find_ok (children n) (t, s) (idx, pos)"
      using node_find_child_ok[of n t s] less.prems find by (simp add: wf_node_iff[of n])
    have IH: "add_path globals meth path hs meta c p' al2 \<noteq> None"
      if "wf_node c" "small_fanout c" for c al2
      using less.hyps[OF next_segment_length[OF sp] that] .
    have old: "wf_node (children n ! nat idx)" "small_fanout (children n ! nat idx)" if "0 \<le> idx"
      using less.prems find_ok that by (auto simp: find_ok_def wf_node_iff[of n] small_fanout_iff[of n])
    have fresh: "wf_node (Node s t [] [] INLINE_CHILDREN sf)"
      "small_fanout (Node s t [] [] INLINE_CHILDREN sf)" for sf
      by (simp_all add: wf_fresh del: wf_node.simps)
    have add: "node_add_child n c pos al2 \<noteq> None" for c al2
      using less.prems by (intro node_add_child_defined) (auto simp: wf_node_iff[of n] small_fanout_iff[of n])
    obtain name_ok al1 where al1: "malloc al = (name_ok, al1)" by (cases "malloc al")
    obtain r al2 where new: "node_new s t al1 = (r, al2)" by (cases "node_new s t al1")
    have sub: "(if t = NODE_WILDCARD then Some (add_handler globals meth path hs meta c al3)
        else add_path globals meth path hs meta c p' al3) \<noteq> None"
      if "wf_node c" "small_fanout c" for c al3
      using IH[OF that] by (cases "t = NODE_WILDCARD") (simp_all del: not_None_eq)
    note unf = add_path.simps[of globals meth path hs meta n p al] sp ts al1 find new
    show ?thesis
    proof (cases "0 \<le> idx")
      case True
      obtain x where "(if t = NODE_WILDCARD
          then Some (add_handler globals meth path hs meta (children n ! nat idx) al1)
          else add_path globals meth path hs meta (children n ! nat idx) p' al1) = Some x"
        using sub[OF old[OF True]] by blast
      then show ?thesis using True by (simp add: unf Let_def split: prod.split)
    next
      case False
      from new show ?thesis
      proof (cases rule: node_new_cases)
        case 1
        then show ?thesis using False by (simp add: unf Let_def)
      next
        case 2
        define c where "c = Node s t [] [] INLINE_CHILDREN (\<lambda>_. - 1)"
        obtain rc n1 al3 where n1: "node_add_child n c pos al2 = Some (rc, n1, al3)"
          using add[of c al2] by auto
        obtain x where "(if t = NODE_WILDCARD then Some (add_handler globals meth path hs meta c al3)
            else add_path globals meth path hs meta c p' al3) = Some x"
          using sub[of c] fresh unfolding c_def by blast
        then show ?thesis
          using False 2[folded c_def] n1 by (simp add: unf Let_def split: prod.split)
      qed
    qed
  qed
qed

section \<open>Routers\<close>

definition wf_router :: "csilk_router \<Rightarrow> bool" where
  "wf_router r = (wf_node (root r) \<and> node_key (root r) = (NODE_STATIC, []) \<and>
     length (global_middlewares r) = 32 \<and> global_middleware_count r \<le> 32)"

text \<open>Every registered chain is the cached global middlewares followed by the route's own handlers.\<close>

definition chains_ok :: "csilk_router \<Rightarrow> bool" where
  "chains_ok r = (\<forall>pat mh. has_route (root r) pat mh \<longrightarrow>
     mh_handlers mh = globals_of r @ mh_raw_handlers mh)"

lemma csilk_router_new_ok:
  assumes "csilk_router_new al = (Some r, al')"
  shows "wf_router r" "chains_ok r" "\<not> has_route (root r) pat mh"
proof -
  have r: "r = \<lparr>root = Node [] NODE_STATIC [] [] INLINE_CHILDREN (\<lambda>_. - 1),
      global_middlewares = replicate 32 0, global_middleware_count = 0\<rparr>"
    using assms by (auto simp: csilk_router_new_def Let_def elim: node_new_cases
        split: prod.splits if_splits option.splits)
  show "wf_router r" using wf_fresh by (simp add: wf_router_def r del: wf_node.simps)
  show "\<not> has_route (root r) pat mh" "chains_ok r"
    by (simp_all add: chains_ok_def r has_route_fresh)
qed

lemma router_add_full_ok:
  assumes "wf_router r" and "router_add_full (Some r) (Some meth) (Some path) (Some hs) meta al = Some (rc, r', al')"
  obtains r1 where "r' = Some r1" "wf_router r1"
    "globals_of r1 = globals_of r"
    "add_effect (root r) (pattern_of path) (new_handler (globals_of r) meth path hs meta) rc (root r1)"
proof -
  obtain node where node: "add_path (globals_of r) meth path hs meta (root r) path al = Some (rc, node, al')"
    and r': "r' = Some (r\<lparr>root := node\<rparr>)"
    using assms(2) by (auto simp: router_add_full_def split: option.splits)
  have "wf_node (root r)" "ntype (root r) \<noteq> NODE_WILDCARD"
    using assms(1) by (simp_all add: wf_router_def)
  from add_path_effect[OF this node] show ?thesis
    using assms(1) by (intro that[OF r']) (auto simp: wf_router_def globals_of_def add_effect_def)
qed


section \<open>Compilation\<close>

definition recompile :: "csilk_handler_t list \<Rightarrow> csilk_method_handler \<Rightarrow> csilk_method_handler" where
  "recompile globals mh = mh\<lparr>mh_handlers := globals @ mh_raw_handlers mh\<rparr>"

lemma compile_list_all: "compile_list globals hs [] = (map (recompile globals) hs, [])"
  by (induction hs) (simp_all add: recompile_def)

lemma compile_children_all:
  "(\<And>c. c \<in> set cs \<Longrightarrow> snd (node_compile_handlers globals c []) = []) \<Longrightarrow>
     compile_children globals cs [] = (map (\<lambda>c. fst (node_compile_handlers globals c [])) cs, [])"
  by (induction cs) (auto simp: Let_def split_beta)

lemma node_compile_snd: "snd (node_compile_handlers globals n []) = []"
  by (induction n) (simp add: compile_list_all compile_children_all)

abbreviation compiled :: "csilk_handler_t list \<Rightarrow> router_node \<Rightarrow> router_node" where
  "compiled globals n \<equiv> fst (node_compile_handlers globals n [])"

lemma compiled_Node:
  "compiled globals (Node seg type hs cs cap sf) =
     Node seg type (map (recompile globals) hs) (map (compiled globals) cs) cap sf"
  by (simp add: compile_list_all compile_children_all node_compile_snd)

lemma compiled_sel [simp]:
  "segment (compiled globals n) = segment n" "ntype (compiled globals n) = ntype n"
  "handlers (compiled globals n) = map (recompile globals) (handlers n)"
  "children (compiled globals n) = map (compiled globals) (children n)"
  "children_cap (compiled globals n) = children_cap n"
  by (cases n; simp add: compiled_Node del: node_compile_handlers.simps)+




section \<open>Properties\<close>

text \<open>
  C1. Registering a route on a well-formed router, under any sequence of allocation outcomes: the
  trie stays well formed; the return code is 0 or -1; with 0 the routes of the trie are the old ones
  and the new method handler at the pattern of the path, unless that method was already registered
  there (the duplicate is ignored); with -1 no route appears or disappears, even when nodes were
  already inserted before an allocation failed.
\<close>

theorem router_add_full_adds_exactly:
  assumes "wf_router r"
    and "router_add_full (Some r) (Some meth) (Some path) (Some hs) meta al = Some (rc, Some r', al')"
  defines "new \<equiv> new_handler (globals_of r) meth path hs meta"
  shows "wf_router r' \<and> (rc = 0 \<or> rc = - 1) \<and>
    (\<forall>q mh. has_route (root r') q mh \<longleftrightarrow> has_route (root r) q mh \<or>
       rc = 0 \<and> q = pattern_of path \<and> mh = new \<and>
       \<not> (\<exists>mh'. has_route (root r) q mh' \<and> mh_method mh' = meth))"
proof -
  obtain r1 where "Some r' = Some r1" "wf_router r1"
    "add_effect (root r) (pattern_of path) new rc (root r1)"
    using router_add_full_ok[OF assms(1,2)] unfolding new_def by blast
  then show ?thesis by (auto simp: add_effect_def new_def new_handler_def)
qed

definition empty_router :: csilk_router where
  "empty_router = \<lparr>root = Node [] NODE_STATIC [] [] INLINE_CHILDREN (\<lambda>_. - 1),
     global_middlewares = replicate 32 0, global_middleware_count = 0\<rparr>"

lemma wf_empty_router: "wf_router empty_router"
  using wf_fresh by (simp add: empty_router_def wf_router_def del: wf_node.simps)

lemma globals_empty_router: "globals_of empty_router = []"
  by (simp add: empty_router_def globals_of_def)

lemma no_route_empty_router: "\<not> has_route (root empty_router) q mh"
  by (simp add: empty_router_def has_route_fresh)

lemma router_add_full_defined:
  assumes "wf_router r" "small_fanout (root r)"
  obtains rc r' al' where
    "router_add_full (Some r) (Some meth) (Some path) (Some hs) meta al = Some (rc, Some r', al')"
proof -
  have "add_path (globals_of r) meth path hs meta (root r) path al \<noteq> None"
    using assms by (intro add_path_defined) (auto simp: wf_router_def)
  then show ?thesis using that by (auto simp: router_add_full_def)
qed

text \<open>With the fourth allocation failing, the node for \<open>u\<close> stays behind without routes.\<close>

theorem router_add_full_adds_exactly_witness:
  "(\<exists>r' al'. router_add_full (Some empty_router) (Some ''GET'') (Some ''/u/:id'') (Some [7]) no_meta
      [True, True, True, False] = Some (- 1, Some r', al') \<and>
    wf_router r' \<and> (\<forall>q mh. \<not> has_route (root r') q mh)) \<and>
   (\<exists>r' al'. router_add_full (Some empty_router) (Some ''GET'') (Some ''/u/:id'') (Some [7]) no_meta []
      = Some (0, Some r', al') \<and>
    wf_router r' \<and> has_route (root r') [(NODE_STATIC, ''u''), (NODE_PARAM, ''id'')]
      (new_handler [] ''GET'' ''/u/:id'' [7] no_meta))"
proof -
  have run1: "(case router_add_full (Some empty_router) (Some ''GET'') (Some ''/u/:id'') (Some [7]) no_meta
      [True, True, True, False] of Some (rc, Some r', al') \<Rightarrow> rc = - 1 | _ \<Rightarrow> False)"
    by code_simp
  have run2: "(case router_add_full (Some empty_router) (Some ''GET'') (Some ''/u/:id'') (Some [7]) no_meta
      [] of Some (rc, Some r', al') \<Rightarrow> rc = 0 | _ \<Rightarrow> False)"
    by code_simp
  obtain r1 al1 where r1: "router_add_full (Some empty_router) (Some ''GET'') (Some ''/u/:id'') (Some [7])
      no_meta [True, True, True, False] = Some (- 1, Some r1, al1)"
    using run1 by (auto split: option.splits)
  obtain r2 al2 where r2: "router_add_full (Some empty_router) (Some ''GET'') (Some ''/u/:id'') (Some [7])
      no_meta [] = Some (0, Some r2, al2)"
    using run2 by (auto split: option.splits)
  have pat: "pattern_of ''/u/:id'' = [(NODE_STATIC, ''u''), (NODE_PARAM, ''id'')]"
    by code_simp
  show ?thesis
    using router_add_full_adds_exactly[OF wf_empty_router r1] r1
      router_add_full_adds_exactly[OF wf_empty_router r2] r2
    by (auto simp: no_route_empty_router pat globals_empty_router simp del: has_route.simps)
qed

text \<open>
  C29. As long as every node has fewer than 32768 children, registration runs into no undefined
  behaviour: every copy into a children array stays inside it.
\<close>

theorem router_add_full_memory_safe:
  assumes "wf_router r" and "small_fanout (root r)"
  shows "router_add_full (Some r) meth path hs meta al \<noteq> None"
proof (cases meth; cases path; cases hs)
  fix m p h
  assume "meth = Some m" "path = Some p" "hs = Some h"
  with router_add_full_defined[OF assms] show ?thesis by blast
qed (simp_all add: router_add_full_def)

theorem router_add_full_memory_safe_witness:
  "router_add_full (Some empty_router) (Some ''GET'') (Some ''/a/b/c'') (Some [1]) no_meta [] \<noteq> None"
  by (rule router_add_full_memory_safe[OF wf_empty_router]) (simp add: empty_router_def)

text \<open>
  At 32768 children the doubled 16-bit capacity wraps to 0 and is raised to 16: the array that
  is allocated is smaller than the one copied into it, for every child and insertion position.
\<close>

theorem node_add_child_capacity_wrap:
  assumes "length (children n) = 32768" and "children_cap n = 32768"
    and "0 \<le> pos" and "pos \<le> 32768"
  shows "grow_cap (children_cap n) = 16 \<and> node_add_child n c pos [] = None"
  using assms by (simp add: node_add_child_def Let_def grow_cap_def)

theorem node_add_child_capacity_wrap_witness:
  "node_add_child (Node [] NODE_STATIC [] (replicate 32768 (root empty_router)) 32768 (\<lambda>_. - 1))
     (root empty_router) 0 [] = None"
  using node_add_child_capacity_wrap[of "Node [] NODE_STATIC [] (replicate 32768 (root empty_router))
      32768 (\<lambda>_. - 1)" 0 "root empty_router"]
  by simp



text \<open>
  The binary search over the ordered children finds the child with the given type and name when
  there is one, and otherwise returns -1 and the position at which inserting it keeps the order.
\<close>

theorem node_find_child_correct:
  assumes "wf_node n" and "node_find_child n t s = (idx, pos)"
  shows "if \<exists>c\<in>set (children n). node_key c = (t, s)
    then idx = pos \<and> 0 \<le> idx \<and> nat idx < length (children n) \<and> node_key (children n ! nat idx) = (t, s)
    else idx < 0 \<and> (\<forall>c. node_key c = (t, s) \<longrightarrow>
      ordered (take (nat pos) (children n) @ c # drop (nat pos) (children n)))"
proof -
  have ord: "ordered (children n)" using assms(1) by (simp add: wf_node_iff[of n])
  note ok = node_find_child_ok[OF ord, of t s, unfolded assms(2)]
  have absent: "node_key (children n ! i) \<noteq> (t, s)" if "i < length (children n)" "idx < 0" for i
    using ok that by (cases "i < nat pos") (auto simp: find_ok_def dest: spec)
  show ?thesis
  proof (cases "0 \<le> idx")
    case True
    then show ?thesis using ok by (auto simp: find_ok_def)
  next
    case False
    with absent have "\<not> (\<exists>c\<in>set (children n). node_key c = (t, s))"
      by (metis in_set_conv_nth not_le)
    moreover have "ordered (take (nat pos) (children n) @ c # drop (nat pos) (children n))"
      if "node_key c = (t, s)" for c
      using ok False ord that by (intro ordered_insert) (auto simp: find_ok_def)
    ultimately show ?thesis using False by simp
  qed
qed

theorem node_find_child_correct_witness:
  "node_find_child (root empty_router) NODE_PARAM ''id'' = (- 1, 0) \<and>
   ordered [Node ''id'' NODE_PARAM [] [] 8 (\<lambda>_. - 1)]"
proof -
  have run: "node_find_child (root empty_router) NODE_PARAM ''id'' = (- 1, 0)" by code_simp
  moreover have "wf_node (root empty_router)" using wf_empty_router by (simp add: wf_router_def)
  ultimately show ?thesis
    using node_find_child_correct[OF _ run] by (force simp: empty_router_def)
qed

text \<open>
  The leading-byte table does not keep its documented meaning (first static child by leading
  byte): inserting a static child in front of the first child with the same leading byte leaves the
  entry one past the new child.
\<close>

theorem static_first_points_past_first:
  assumes "ntype c = NODE_STATIC" and "segment c = b # s" and "int pos \<le> static_first n b"
    and "node_add_child n c (int pos) al = Some (0, n', al')"
  shows "children n' ! pos = c \<and> static_first n' b = static_first n b + 1 \<and> int pos < static_first n' b"
proof -
  obtain cap where n': "n' = Node (segment n) (ntype n) (handlers n)
      (take pos (children n) @ c # drop pos (children n)) cap
      (static_first_insert (static_first n) c pos)" "pos \<le> length (children n)"
    using assms(4) by (auto simp: node_add_child_def Let_def split: if_splits prod.splits)
  show ?thesis
    using assms(1-3) by (simp add: n'(1) static_first_insert_def nth_append n'(2) min_absorb2 Let_def)
qed

theorem static_first_points_past_first_witness:
  "\<exists>n' al'. node_add_child
      (Node [] NODE_STATIC [] [Node ''ac'' NODE_STATIC [] [] 8 (\<lambda>_. - 1)] 8 ((\<lambda>_. - 1)(CHR ''a'' := 0)))
      (Node ''ab'' NODE_STATIC [] [] 8 (\<lambda>_. - 1)) 0 [] = Some (0, n', al') \<and>
    static_first n' CHR ''a'' = 1"
proof -
  let ?n = "Node [] NODE_STATIC [] [Node ''ac'' NODE_STATIC [] [] 8 (\<lambda>_. - 1)] 8 ((\<lambda>_. - 1)(CHR ''a'' := 0))"
  let ?c = "Node ''ab'' NODE_STATIC [] [] 8 (\<lambda>_. - 1)"
  obtain n' al' where n': "node_add_child ?n ?c (int 0) [] = Some (0, n', al')"
    by (simp add: node_add_child_def Let_def)
  from static_first_points_past_first[OF _ _ _ n', of "CHR ''a''" "''b''"] n' show ?thesis by simp
qed

end
