(* ===== verification/Router_Match.thy ===== *)
theory Router_Match
  imports Router "HOL-Library.Sublist"
begin

text \<open>
  Model of src/core/primitives/router_trie.c and of the match functions of router.c: the bounded
  iterative depth-first search over the trie with an explicit stack of frames, parameter capture and
  rollback, and the two entry points.

  \<open>match_loop\<close> is the loop of \<open>match_node\<close> with the stack as a list whose head is the current frame
  (\<open>depth\<close> is the number of frames below it). \<open>match_dfs\<close> is the recursive search it implements. The
  last part relates both to the declarative meaning of the routes: which patterns match a path, with
  which bindings, and which of several matching routes wins.
\<close>

section \<open>Request context and captures\<close>

definition MAX_PARAMS :: nat where "MAX_PARAMS = 20"
definition MAX_DEPTH :: nat where "MAX_DEPTH = 64"

text \<open>
  The part of the request context the search uses: the captured parameters, whether the context
  allocates from an arena, the setting of its server (if it has one) for SIMD comparison, and the
  outcomes of the coming allocations. A NULL context is \<open>None\<close>.
\<close>

record match_ctx =
  mc_params :: "(string \<times> string) list"
  mc_arena :: bool
  mc_enable_simd :: "bool option"
  mc_heap :: heap

definition params_count :: "match_ctx option \<Rightarrow> nat" where
  "params_count ctx = (case ctx of None \<Rightarrow> 0 | Some c \<Rightarrow> length (mc_params c))"

definition capture_param :: "match_ctx option \<Rightarrow> string \<Rightarrow> string \<Rightarrow> bool \<times> match_ctx option" where
  "capture_param ctx key val = (case ctx of
     None \<Rightarrow> (False, None)
   | Some c \<Rightarrow>
       if length (mc_params c) \<ge> MAX_PARAMS then (False, Some c)
       else
         let (key_ok, al) = (if mc_arena c then (True, mc_heap c) else malloc (mc_heap c));
             (value_ok, al) = malloc al;
             c = c\<lparr>mc_heap := al\<rparr> in
         if key_ok \<and> value_ok then (True, Some (c\<lparr>mc_params := mc_params c @ [(key, val)]\<rparr>))
         else (False, Some c))"

definition capture_wildcard_param :: "match_ctx option \<Rightarrow> string \<Rightarrow> string \<Rightarrow> bool \<times> match_ctx option" where
  "capture_wildcard_param ctx key path = (case ctx of
     None \<Rightarrow> (False, None)
   | Some c \<Rightarrow>
       if length (mc_params c) \<ge> MAX_PARAMS then (False, Some c)
       else
         let val_start = dropWhile (\<lambda>ch. ch = CHR ''/'') path;
             (key_ok, al) = malloc (mc_heap c);
             (value_ok, al) = malloc al;
             c = c\<lparr>mc_heap := al\<rparr> in
         if key_ok \<and> value_ok then (True, Some (c\<lparr>mc_params := mc_params c @ [(key, val_start)]\<rparr>))
         else (False, Some c))"

definition rollback_param :: "match_ctx option \<Rightarrow> nat \<Rightarrow> match_ctx option" where
  "rollback_param ctx target_count =
     map_option (\<lambda>c. c\<lparr>mc_params := take target_count (mc_params c)\<rparr>) ctx"

section \<open>The search loop\<close>

record frame =
  fr_node :: router_node
  fr_path :: string
  fr_p :: string
  fr_seg :: "string option"
  fr_child_idx :: nat
  fr_snapshot :: nat
  fr_param_added :: bool
  fr_checked_terminal :: bool

text \<open>A frame as it is pushed; \<open>get_next_segment\<close> leaves the cursor at the end when it returns NULL.\<close>

definition new_frame :: "router_node \<Rightarrow> string \<Rightarrow> nat \<Rightarrow> bool \<Rightarrow> frame" where
  "new_frame node path snapshot added =
     \<lparr>fr_node = node, fr_path = path,
      fr_p = (case next_segment path of None \<Rightarrow> [] | Some (seg, p) \<Rightarrow> p),
      fr_seg = map_option fst (next_segment path),
      fr_child_idx = 0, fr_snapshot = snapshot, fr_param_added = added,
      fr_checked_terminal = False\<rparr>"

definition find_mh :: "csilk_method_handler list \<Rightarrow> string \<Rightarrow> csilk_method_handler option" where
  "find_mh hs meth = List.find (\<lambda>mh. mh_method mh = meth) hs"

definition is_terminal :: "string \<Rightarrow> bool" where
  "is_terminal path = (path = [] \<or> path = ''/'')"

text \<open>The inner loop over the children: it pushes a frame, finds a handler, or runs out.\<close>

datatype scan_result = Pushed frame frame "match_ctx option"
  | Matched csilk_method_handler "match_ctx option"
  | Exhausted frame "match_ctx option"

function scan_children :: "cpu \<Rightarrow> bool \<Rightarrow> string \<Rightarrow> frame \<Rightarrow> match_ctx option \<Rightarrow> scan_result" where
  "scan_children cpu use_simd meth f ctx =
     (if fr_child_idx f < length (children (fr_node f)) then
        let child = children (fr_node f) ! fr_child_idx f;
            f = f\<lparr>fr_child_idx := fr_child_idx f + 1\<rparr> in
        (case fr_seg f of
           Some seg \<Rightarrow>
             if ntype child = NODE_STATIC \<and> segment child \<noteq> [] \<and> deref (segment child) \<noteq> deref seg
             then scan_children cpu use_simd meth f ctx
             else
               (case ntype child of
                  NODE_STATIC \<Rightarrow>
                    if length (segment child) = length seg \<and> deref (segment child) = deref seg \<and>
                       (if use_simd then csilk_memcmp_fast cpu (segment child) seg (length seg)
                        else take (length seg) (segment child) = take (length seg) seg)
                    then Pushed f (new_frame child (fr_p f) (params_count ctx) False) ctx
                    else scan_children cpu use_simd meth f ctx
                | NODE_PARAM \<Rightarrow>
                    let snapshot = params_count ctx;
                        (added, ctx) = capture_param ctx (segment child) seg in
                    Pushed f (new_frame child (fr_p f) snapshot added) ctx
                | NODE_WILDCARD \<Rightarrow>
                    let snapshot = params_count ctx;
                        (added, ctx) = capture_wildcard_param ctx (segment child) (fr_path f) in
                    (case find_mh (handlers child) meth of
                       Some mh \<Rightarrow> Matched mh ctx
                     | None \<Rightarrow> scan_children cpu use_simd meth f
                                 (if added then rollback_param ctx snapshot else ctx)))
         | None \<Rightarrow>
             (case ntype child of
                NODE_STATIC \<Rightarrow> scan_children cpu use_simd meth f ctx
              | NODE_PARAM \<Rightarrow> scan_children cpu use_simd meth f ctx
              | NODE_WILDCARD \<Rightarrow>
                  let snapshot = params_count ctx;
                      (added, ctx) = capture_wildcard_param ctx (segment child) (fr_path f) in
                  (case find_mh (handlers child) meth of
                     Some mh \<Rightarrow> Matched mh ctx
                   | None \<Rightarrow> scan_children cpu use_simd meth f
                               (if added then rollback_param ctx snapshot else ctx))))
      else Exhausted f ctx)"
  by pat_completeness auto
termination
  by (relation "measure (\<lambda>(cpu, use_simd, meth, f, ctx). length (children (fr_node f)) - fr_child_idx f)") auto

declare scan_children.simps [simp del]

partial_function (option) match_loop ::
  "cpu \<Rightarrow> bool \<Rightarrow> string \<Rightarrow> frame list \<Rightarrow> match_ctx option \<Rightarrow>
   (csilk_method_handler option \<times> match_ctx option) option"
where
  "match_loop cpu use_simd meth stack ctx = (case stack of
     [] \<Rightarrow> Some (None, ctx)
   | f # rest \<Rightarrow>
       (case (if \<not> fr_checked_terminal f \<and> is_terminal (fr_path f)
              then find_mh (handlers (fr_node f)) meth else None) of
          Some mh \<Rightarrow> Some (Some mh, ctx)
        | None \<Rightarrow>
            let f = f\<lparr>fr_checked_terminal := True\<rparr> in
            if length rest \<ge> MAX_DEPTH - 1 then
              match_loop cpu use_simd meth rest
                (if fr_param_added f then rollback_param ctx (fr_snapshot f) else ctx)
            else
              (case scan_children cpu use_simd meth f ctx of
                 Pushed f new ctx \<Rightarrow> match_loop cpu use_simd meth (new # f # rest) ctx
               | Matched mh ctx \<Rightarrow> Some (Some mh, ctx)
               | Exhausted f ctx \<Rightarrow>
                   match_loop cpu use_simd meth rest
                     (if fr_param_added f then rollback_param ctx (fr_snapshot f) else ctx))))"

definition match_node ::
  "cpu \<Rightarrow> router_node \<Rightarrow> string \<Rightarrow> string option \<Rightarrow> match_ctx option \<Rightarrow>
   (csilk_method_handler option \<times> match_ctx option) option"
where
  "match_node cpu node meth path ctx =
     (let path = (case path of None \<Rightarrow> [] | Some p \<Rightarrow> p);
          use_simd = (case ctx of None \<Rightarrow> True
            | Some c \<Rightarrow> (case mc_enable_simd c of None \<Rightarrow> True | Some b \<Rightarrow> b)) in
      match_loop cpu use_simd meth [new_frame node path (params_count ctx) False] ctx)"

definition csilk_router_match ::
  "cpu \<Rightarrow> csilk_router option \<Rightarrow> string option \<Rightarrow> string option \<Rightarrow> csilk_handler_t list option option"
where
  "csilk_router_match cpu r meth path =
     (case (r, meth, path) of
        (Some r, Some meth, Some path) \<Rightarrow>
          (case match_node cpu (root r) meth (Some path) None of
             None \<Rightarrow> None
           | Some (mh, _) \<Rightarrow> Some (map_option mh_handlers mh))
      | _ \<Rightarrow> Some None)"



section \<open>The recursive search\<close>

text \<open>
  The search as a recursion over the trie. \<open>ns\<close> is the next segment of the path at this node and what
  follows it.
\<close>

fun match_dfs :: "string \<Rightarrow> nat \<Rightarrow> router_node \<Rightarrow> string \<Rightarrow> match_ctx option \<Rightarrow>
    csilk_method_handler option \<times> match_ctx option"
  and match_children :: "string \<Rightarrow> nat \<Rightarrow> router_node list \<Rightarrow> string \<Rightarrow> match_ctx option \<Rightarrow>
    csilk_method_handler option \<times> match_ctx option"
where
  "match_dfs meth d (Node seg type hs cs cap sf) path ctx =
     (case (if is_terminal path then find_mh hs meth else None) of
        Some mh \<Rightarrow> (Some mh, ctx)
      | None \<Rightarrow> if d \<ge> MAX_DEPTH - 1 then (None, ctx) else match_children meth d cs path ctx)"
| "match_children meth d [] path ctx = (None, ctx)"
| "match_children meth d (c # cs) path ctx =
     (case ntype c of
        NODE_STATIC \<Rightarrow>
          (case next_segment path of
             None \<Rightarrow> match_children meth d cs path ctx
           | Some (seg, p) \<Rightarrow>
               if segment c = seg then
                 (case match_dfs meth (Suc d) c p ctx of
                    (Some mh, ctx) \<Rightarrow> (Some mh, ctx)
                  | (None, ctx) \<Rightarrow> match_children meth d cs path ctx)
               else match_children meth d cs path ctx)
      | NODE_PARAM \<Rightarrow>
          (case next_segment path of
             None \<Rightarrow> match_children meth d cs path ctx
           | Some (seg, p) \<Rightarrow>
               let (added, ctx1) = capture_param ctx (segment c) seg in
               (case match_dfs meth (Suc d) c p ctx1 of
                  (Some mh, ctx2) \<Rightarrow> (Some mh, ctx2)
                | (None, ctx2) \<Rightarrow> match_children meth d cs path
                    (if added then rollback_param ctx2 (params_count ctx) else ctx2)))
      | NODE_WILDCARD \<Rightarrow>
          let (added, ctx1) = capture_wildcard_param ctx (segment c) path in
          (case find_mh (handlers c) meth of
             Some mh \<Rightarrow> (Some mh, ctx1)
           | None \<Rightarrow> match_children meth d cs path
               (if added then rollback_param ctx1 (params_count ctx) else ctx1)))"

text \<open>A frame in the middle of its work at the node \<open>n\<close> with remaining path \<open>path\<close>.\<close>

definition frame_at :: "frame \<Rightarrow> string \<Rightarrow> bool" where
  "frame_at f path = (fr_checked_terminal f \<and> fr_path f = path \<and>
     fr_seg f = map_option fst (next_segment path) \<and>
     fr_p f = (case next_segment path of None \<Rightarrow> [] | Some (seg, p) \<Rightarrow> p))"

text \<open>What the loop does with the outcome of the search below its top frame.\<close>

definition resume ::
  "cpu \<Rightarrow> bool \<Rightarrow> string \<Rightarrow> frame list \<Rightarrow> bool \<Rightarrow> nat \<Rightarrow> csilk_method_handler option \<times> match_ctx option \<Rightarrow>
   (csilk_method_handler option \<times> match_ctx option) option"
where
  "resume cpu simd meth rest added snapshot res = (case res of
     (Some mh, ctx) \<Rightarrow> Some (Some mh, ctx)
   | (None, ctx) \<Rightarrow> match_loop cpu simd meth rest (if added then rollback_param ctx snapshot else ctx))"

lemma static_cmp_iff:
  "length (segment c) = length seg \<and> deref (segment c) = deref seg \<and>
     (if simd then csilk_memcmp_fast cpu (segment c) seg (length seg)
      else take (length seg) (segment c) = take (length seg) seg) \<longleftrightarrow> segment c = seg"
  using csilk_memcmp_all_eq(4)[of "length seg" "segment c" seg cpu] by auto

text \<open>The loop at a frame that has been checked for a terminal handler.\<close>

lemma match_loop_checked:
  assumes "fr_checked_terminal f" "length rest < MAX_DEPTH - 1"
  shows "match_loop cpu simd meth (f # rest) ctx =
    (case scan_children cpu simd meth f ctx of
       Pushed f new ctx \<Rightarrow> match_loop cpu simd meth (new # f # rest) ctx
     | Matched mh ctx \<Rightarrow> Some (Some mh, ctx)
     | Exhausted f ctx \<Rightarrow> match_loop cpu simd meth rest
         (if fr_param_added f then rollback_param ctx (fr_snapshot f) else ctx))"
  using assms by (cases f) (subst match_loop.simps, simp)

lemma match_loop_fresh:
  "match_loop cpu simd meth (new_frame n path snapshot added # rest) ctx =
    (case (if is_terminal path then find_mh (handlers n) meth else None) of
       Some mh \<Rightarrow> Some (Some mh, ctx)
     | None \<Rightarrow>
         if length rest \<ge> MAX_DEPTH - 1
         then match_loop cpu simd meth rest (if added then rollback_param ctx snapshot else ctx)
         else match_loop cpu simd meth
           ((new_frame n path snapshot added)\<lparr>fr_checked_terminal := True\<rparr> # rest) ctx)"
proof (cases "length rest \<ge> MAX_DEPTH - 1")
  case True
  then show ?thesis
    by (subst match_loop.simps) (simp add: new_frame_def Let_def cong: option.case_cong)
next
  case False
  then show ?thesis
    by (subst match_loop.simps, subst match_loop_checked)
      (simp_all add: new_frame_def Let_def cong: option.case_cong)
qed

text \<open>One turn of the inner loop.\<close>

lemma scan_children_step:
  assumes f: "frame_at f path" "fr_child_idx f < length (children (fr_node f))"
  defines "c \<equiv> children (fr_node f) ! fr_child_idx f"
    and "g \<equiv> f\<lparr>fr_child_idx := fr_child_idx f + 1\<rparr>"
  shows "scan_children cpu simd meth f ctx =
    (case ntype c of
       NODE_STATIC \<Rightarrow>
         (case next_segment path of
            None \<Rightarrow> scan_children cpu simd meth g ctx
          | Some (seg, p) \<Rightarrow>
              if segment c = seg then Pushed g (new_frame c p (params_count ctx) False) ctx
              else scan_children cpu simd meth g ctx)
     | NODE_PARAM \<Rightarrow>
         (case next_segment path of
            None \<Rightarrow> scan_children cpu simd meth g ctx
          | Some (seg, p) \<Rightarrow>
              let (added, ctx1) = capture_param ctx (segment c) seg in
              Pushed g (new_frame c p (params_count ctx) added) ctx1)
     | NODE_WILDCARD \<Rightarrow>
         let (added, ctx1) = capture_wildcard_param ctx (segment c) path in
         (case find_mh (handlers c) meth of
            Some mh \<Rightarrow> Matched mh ctx1
          | None \<Rightarrow> scan_children cpu simd meth g
              (if added then rollback_param ctx1 (params_count ctx) else ctx1)))"
proof -
  have g: "fr_path g = path" "fr_seg g = map_option fst (next_segment path)"
    "fr_p g = (case next_segment path of None \<Rightarrow> [] | Some (seg, p) \<Rightarrow> p)"
    using f(1) by (simp_all add: frame_at_def g_def)
  note sc = scan_children.simps[of cpu simd meth f ctx, unfolded if_P[OF f(2)] Let_def, folded c_def g_def]
  show ?thesis
  proof (cases "next_segment path")
    case None
    then show ?thesis by (cases "ntype c") (simp_all add: sc g)
  next
    case (Some sp)
    obtain seg p where sp: "sp = (seg, p)" by (cases sp)
    show ?thesis
      using static_cmp_iff[of c seg simd cpu]
      by (cases "ntype c") (auto simp: sc g Some sp)
  qed
qed

text \<open>The same turn, seen from the outer loop.\<close>

lemma match_loop_child:
  assumes f: "frame_at f path" "fr_child_idx f < length (children (fr_node f))"
    and d: "length rest < MAX_DEPTH - 1"
  defines "c \<equiv> children (fr_node f) ! fr_child_idx f"
    and "g \<equiv> f\<lparr>fr_child_idx := fr_child_idx f + 1\<rparr>"
  shows "match_loop cpu simd meth (f # rest) ctx =
    (case ntype c of
       NODE_STATIC \<Rightarrow>
         (case next_segment path of
            None \<Rightarrow> match_loop cpu simd meth (g # rest) ctx
          | Some (seg, p) \<Rightarrow>
              if segment c = seg
              then match_loop cpu simd meth (new_frame c p (params_count ctx) False # g # rest) ctx
              else match_loop cpu simd meth (g # rest) ctx)
     | NODE_PARAM \<Rightarrow>
         (case next_segment path of
            None \<Rightarrow> match_loop cpu simd meth (g # rest) ctx
          | Some (seg, p) \<Rightarrow>
              let (added, ctx1) = capture_param ctx (segment c) seg in
              match_loop cpu simd meth (new_frame c p (params_count ctx) added # g # rest) ctx1)
     | NODE_WILDCARD \<Rightarrow>
         let (added, ctx1) = capture_wildcard_param ctx (segment c) path in
         (case find_mh (handlers c) meth of
            Some mh \<Rightarrow> Some (Some mh, ctx1)
          | None \<Rightarrow> match_loop cpu simd meth (g # rest)
              (if added then rollback_param ctx1 (params_count ctx) else ctx1)))"
proof -
  have ck: "fr_checked_terminal f" "fr_checked_terminal g" using f by (simp_all add: frame_at_def g_def)
  note step = scan_children_step[OF f, of cpu simd meth ctx, folded c_def g_def]
  show ?thesis
    unfolding match_loop_checked[OF ck(1) d] match_loop_checked[OF ck(2) d] step
    by (cases "ntype c"; cases "next_segment path"; cases "find_mh (handlers c) meth")
      (simp_all split: prod.split)
qed

lemma match_loop_done:
  assumes "frame_at f path" "length (children (fr_node f)) \<le> fr_child_idx f"
    and "length rest < MAX_DEPTH - 1"
  shows "match_loop cpu simd meth (f # rest) ctx =
    match_loop cpu simd meth rest (if fr_param_added f then rollback_param ctx (fr_snapshot f) else ctx)"
proof -
  have "scan_children cpu simd meth f ctx = Exhausted f ctx"
    using assms(2) by (subst scan_children.simps) simp
  then show ?thesis using assms by (simp add: frame_at_def match_loop_checked)
qed

text \<open>The loop performs the recursive search and then goes on with the frames below.\<close>

definition refined_at :: "cpu \<Rightarrow> bool \<Rightarrow> string \<Rightarrow> router_node \<Rightarrow> bool" where
  "refined_at cpu simd meth n = (\<forall>path snapshot added rest ctx.
     match_loop cpu simd meth (new_frame n path snapshot added # rest) ctx =
     resume cpu simd meth rest added snapshot (match_dfs meth (length rest) n path ctx))"

lemma resume_frame:
  "resume cpu simd meth (g # rest) added snapshot (r, ctx) = (case r of
     Some mh \<Rightarrow> Some (Some mh, ctx)
   | None \<Rightarrow> match_loop cpu simd meth (g # rest) (if added then rollback_param ctx snapshot else ctx))"
  by (simp add: resume_def)

lemma match_children_refines:
  assumes "\<And>c. c \<in> set cs \<Longrightarrow> refined_at cpu simd meth c"
    and "length rest < MAX_DEPTH - 1" "frame_at f path"
    and "drop (fr_child_idx f) (children (fr_node f)) = cs"
  shows "match_loop cpu simd meth (f # rest) ctx =
     resume cpu simd meth rest (fr_param_added f) (fr_snapshot f)
       (match_children meth (length rest) cs path ctx)"
  using assms
proof (induction cs arbitrary: f ctx)
  case Nil
  then show ?case by (simp add: resume_def match_loop_done)
next
  case (Cons c cs)
  have idx: "fr_child_idx f < length (children (fr_node f))"
    using Cons.prems(4) by (metis drop_eq_Nil list.distinct(1) not_le)
  then have c: "children (fr_node f) ! fr_child_idx f = c"
    "drop (fr_child_idx f + 1) (children (fr_node f)) = cs"
    using Cons.prems(4) by (metis Cons_nth_drop_Suc Suc_eq_plus1 list.inject)+
  define g where "g = f\<lparr>fr_child_idx := fr_child_idx f + 1\<rparr>"
  have g: "frame_at g path" "drop (fr_child_idx g) (children (fr_node g)) = cs"
    "fr_param_added g = fr_param_added f" "fr_snapshot g = fr_snapshot f"
    using Cons.prems c by (simp_all add: frame_at_def g_def)
  have tail: "match_loop cpu simd meth (g # rest) ctx' =
      resume cpu simd meth rest (fr_param_added f) (fr_snapshot f)
        (match_children meth (length rest) cs path ctx')" for ctx'
    using Cons.IH[OF _ Cons.prems(2) g(1,2), of ctx'] Cons.prems(1) g(3,4) by simp
  have sub: "match_loop cpu simd meth (new_frame c p snapshot added # g # rest) ctx' =
      resume cpu simd meth (g # rest) added snapshot (match_dfs meth (Suc (length rest)) c p ctx')"
    for p snapshot added ctx'
    using Cons.prems(1)[of c] by (simp add: refined_at_def)
  have hit: "resume cpu simd meth rest a s (Some mh, ctx') = Some (Some mh, ctx')" for a s mh ctx'
    by (simp add: resume_def)
  show ?case
    unfolding match_loop_child[OF Cons.prems(3) idx Cons.prems(2), of cpu simd meth ctx, unfolded c(1),
        folded g_def] tail sub
    by (auto simp: resume_frame tail hit split: csilk_node_type_t.splits option.splits prod.splits)
qed

lemma match_loop_refines: "refined_at cpu simd meth n"
proof (induction n)
  case (Node seg type hs cs cap sf)
  let ?n = "Node seg type hs cs cap sf"
  show ?case
    unfolding refined_at_def
  proof (intro allI)
    fix path snapshot added rest ctx
    define f where "f = (new_frame ?n path snapshot added)\<lparr>fr_checked_terminal := True\<rparr>"
    have f: "frame_at f path" "fr_param_added f = added" "fr_snapshot f = snapshot"
      "drop (fr_child_idx f) (children (fr_node f)) = cs"
      by (simp_all add: f_def frame_at_def new_frame_def)
    have sub: "match_loop cpu simd meth (f # rest) ctx =
        resume cpu simd meth rest added snapshot (match_children meth (length rest) cs path ctx)"
      if "length rest < MAX_DEPTH - 1"
      using match_children_refines[OF Node that f(1,4), of ctx] f(2,3) by simp
    show "match_loop cpu simd meth (new_frame ?n path snapshot added # rest) ctx =
        resume cpu simd meth rest added snapshot (match_dfs meth (length rest) ?n path ctx)"
      unfolding match_loop_fresh f_def[symmetric]
      using sub by (auto simp: resume_def not_le split: option.split)
  qed
qed

lemma match_node_eq_dfs:
  "match_node cpu n meth path ctx =
     Some (match_dfs meth 0 n (case path of None \<Rightarrow> [] | Some p \<Rightarrow> p) ctx)"
proof -
  have nil: "match_loop cpu simd meth [] ctx = Some (None, ctx)" for simd ctx
    by (subst match_loop.simps) simp
  then show ?thesis
    using match_loop_refines[of cpu _ meth n]
    by (auto simp: match_node_def refined_at_def Let_def resume_def nil
        split: option.split prod.split)
qed

section \<open>What the routes mean\<close>

text \<open>A route pattern matches a request path, and binds its parameters.\<close>

fun pmatch :: "route_pattern \<Rightarrow> string \<Rightarrow> bool" where
  "pmatch [] path = is_terminal path"
| "pmatch ((NODE_STATIC, s) # ps) path =
     (case next_segment path of None \<Rightarrow> False | Some (seg, p) \<Rightarrow> s = seg \<and> pmatch ps p)"
| "pmatch ((NODE_PARAM, s) # ps) path =
     (case next_segment path of None \<Rightarrow> False | Some (seg, p) \<Rightarrow> pmatch ps p)"
| "pmatch ((NODE_WILDCARD, s) # ps) path = (ps = [])"

fun bindings :: "route_pattern \<Rightarrow> string \<Rightarrow> (string \<times> string) list" where
  "bindings [] path = []"
| "bindings ((NODE_STATIC, s) # ps) path =
     (case next_segment path of None \<Rightarrow> [] | Some (seg, p) \<Rightarrow> bindings ps p)"
| "bindings ((NODE_PARAM, s) # ps) path =
     (case next_segment path of None \<Rightarrow> [] | Some (seg, p) \<Rightarrow> (s, seg) # bindings ps p)"
| "bindings ((NODE_WILDCARD, s) # ps) path = [(s, dropWhile (\<lambda>ch. ch = CHR ''/'') path)]"

text \<open>
  A route is a candidate for a request at depth \<open>d\<close> when its method is the requested one, its pattern
  matches, and its node lies within the depth bound of the search.
\<close>

definition candidate ::
  "string \<Rightarrow> nat \<Rightarrow> string \<Rightarrow> router_node \<Rightarrow> route_pattern \<Rightarrow> csilk_method_handler \<Rightarrow> bool"
where
  "candidate meth d path n pat mh =
     (has_route n pat mh \<and> mh_method mh = meth \<and> pmatch pat path \<and> d + length pat < MAX_DEPTH)"

definition child_candidate ::
  "string \<Rightarrow> nat \<Rightarrow> string \<Rightarrow> router_node list \<Rightarrow> route_pattern \<Rightarrow> csilk_method_handler \<Rightarrow> bool"
where
  "child_candidate meth d path cs pat mh =
     (\<exists>c\<in>set cs. \<exists>q. pat = node_key c # q \<and> has_route c q mh \<and> mh_method mh = meth \<and>
        pmatch pat path \<and> d + length pat < MAX_DEPTH)"

text \<open>The order in which the search prefers patterns: static before parameter before wildcard.\<close>

abbreviation pat_rank :: "route_pattern \<Rightarrow> (nat \<times> string) list" where
  "pat_rank pat \<equiv> map key_rank pat"

text \<open>The context after a failed search, and after a successful one that binds \<open>bs\<close>.\<close>

definition restored :: "match_ctx option \<Rightarrow> match_ctx option \<Rightarrow> bool" where
  "restored ctx ctx' = rel_option (\<lambda>c c'. mc_params c' = mc_params c \<and> (mc_heap c = [] \<longrightarrow> mc_heap c' = [])) ctx ctx'"

definition captured :: "match_ctx option \<Rightarrow> (string \<times> string) list \<Rightarrow> match_ctx option \<Rightarrow> bool" where
  "captured ctx bs ctx' = rel_option (\<lambda>c c'. (\<exists>ds. mc_params c' = mc_params c @ ds \<and> subseq ds bs \<and>
     (mc_heap c = [] \<and> length (mc_params c) + length bs \<le> MAX_PARAMS \<longrightarrow> ds = bs)) \<and>
     (mc_heap c = [] \<longrightarrow> mc_heap c' = [])) ctx ctx'"

definition search_spec ::
  "string \<Rightarrow> (route_pattern \<Rightarrow> csilk_method_handler \<Rightarrow> bool) \<Rightarrow> string \<Rightarrow> match_ctx option \<Rightarrow>
   csilk_method_handler option \<times> match_ctx option \<Rightarrow> bool"
where
  "search_spec meth cand path ctx res = (case res of
     (Some mh, ctx') \<Rightarrow> \<exists>pat. cand pat mh \<and>
        (\<forall>q mh'. cand q mh' \<longrightarrow> pat_rank pat \<le> pat_rank q) \<and> captured ctx (bindings pat path) ctx'
   | (None, ctx') \<Rightarrow> (\<forall>pat mh. \<not> cand pat mh) \<and> restored ctx ctx')"

lemma restored_refl: "restored ctx ctx"
  by (cases ctx) (simp_all add: restored_def)

lemma restored_trans: "restored a b \<Longrightarrow> restored b c \<Longrightarrow> restored a c"
  by (cases a; cases b; cases c) (simp_all add: restored_def)

lemma captured_Nil: "captured ctx [] ctx"
  by (cases ctx) (simp_all add: captured_def)

lemma captured_restored: "restored a b \<Longrightarrow> captured b bs c \<Longrightarrow> captured a bs c"
  by (cases a; cases b; cases c) (auto simp: restored_def captured_def)

lemma capture_param_captured:
  assumes "capture_param ctx key val = (added, ctx1)"
  shows "captured ctx [(key, val)] ctx1"
    and "restored ctx1 ctx2 \<Longrightarrow> restored ctx (if added then rollback_param ctx2 (params_count ctx) else ctx2)"
  using assms
  by (cases ctx; cases ctx2; auto simp: capture_param_def captured_def restored_def rollback_param_def
      params_count_def Let_def split: if_splits prod.splits)+

lemma capture_wildcard_captured:
  assumes "capture_wildcard_param ctx key path = (added, ctx1)"
  shows "captured ctx [(key, dropWhile (\<lambda>ch. ch = CHR ''/'') path)] ctx1"
    and "restored ctx (if added then rollback_param ctx1 (params_count ctx) else ctx1)"
  using assms
  by (cases ctx; auto simp: capture_wildcard_param_def captured_def restored_def rollback_param_def
      params_count_def Let_def split: if_splits prod.splits)+

lemma captured_append:
  assumes "captured a bs b" "captured b bs' c"
  shows "captured a (bs @ bs') c"
  using assms
  by (cases a; cases b; cases c) (auto simp: captured_def intro: list_emb_append_mono)

lemma find_mh_Some: "find_mh hs m = Some mh \<Longrightarrow> mh \<in> set hs \<and> mh_method mh = m"
  by (auto simp: find_mh_def find_Some_iff)

lemma find_mh_None: "find_mh hs m = None \<Longrightarrow> mh \<in> set hs \<Longrightarrow> mh_method mh \<noteq> m"
  by (auto simp: find_mh_def find_None_iff)

text \<open>Going past a child through which no candidate leads, and stopping at one.\<close>

lemma search_skip:
  assumes "\<And>q mh. \<not> (has_route c q mh \<and> mh_method mh = meth \<and> pmatch (node_key c # q) path \<and>
      d + Suc (length q) < MAX_DEPTH)"
    and "restored ctx ctx'"
    and "search_spec meth (child_candidate meth d path cs) path ctx' res"
  shows "search_spec meth (child_candidate meth d path (c # cs)) path ctx res"
proof -
  have same: "child_candidate meth d path (c # cs) pat mh \<longleftrightarrow> child_candidate meth d path cs pat mh" for pat mh
    using assms(1) by (auto simp: child_candidate_def simp del: pmatch.simps)
  show ?thesis
    using assms(2,3) unfolding search_spec_def same
    by (auto split: prod.splits option.splits intro: captured_restored restored_trans)
qed

lemma search_stop:
  assumes "has_route c q mh" "mh_method mh = meth" "pmatch (node_key c # q) path"
    "d + Suc (length q) < MAX_DEPTH"
    and least: "\<And>q' mh'. has_route c q' mh' \<Longrightarrow> mh_method mh' = meth \<Longrightarrow>
      pmatch (node_key c # q') path \<Longrightarrow> d + Suc (length q') < MAX_DEPTH \<Longrightarrow> pat_rank q \<le> pat_rank q'"
    and ord: "ordered (c # cs)"
    and cap: "captured ctx (bindings (node_key c # q) path) ctx'"
  shows "search_spec meth (child_candidate meth d path (c # cs)) path ctx (Some mh, ctx')"
proof -
  have "child_candidate meth d path (c # cs) (node_key c # q) mh"
    using assms(1-4) by (simp add: child_candidate_def del: pmatch.simps)
  moreover have "pat_rank (node_key c # q) \<le> pat_rank r"
    if cand: "child_candidate meth d path (c # cs) r mh'" for r mh'
  proof -
    obtain c' q' where r: "c' \<in> set (c # cs)" "r = node_key c' # q'" "has_route c' q' mh'"
      "mh_method mh' = meth" "pmatch r path" "d + length r < MAX_DEPTH"
      using cand unfolding child_candidate_def by blast
    show ?thesis
    proof (cases "c' = c")
      case True
      then show ?thesis using least[of q' mh'] r by simp
    next
      case False
      then have "key_rank (node_key c) < key_rank (node_key c')"
        using r(1) ord by (simp add: ordered_def)
      then show ?thesis using r(2) by simp
    qed
  qed
  ultimately show ?thesis using cap unfolding search_spec_def by auto
qed

abbreviation via :: "string \<Rightarrow> nat \<Rightarrow> string \<Rightarrow> router_node \<Rightarrow> route_pattern \<Rightarrow> csilk_method_handler \<Rightarrow> bool" where
  "via meth d path c q mh \<equiv> has_route c q mh \<and> mh_method mh = meth \<and>
     pmatch (node_key c # q) path \<and> d + Suc (length q) < MAX_DEPTH"

text \<open>Searching below a child that takes the segment, with \<open>bs\<close> captured on the way.\<close>

lemma search_descend:
  assumes via: "\<And>q mh. via meth d path c q mh \<longleftrightarrow> candidate meth (Suc d) p c q mh"
    and bind: "\<And>q. bindings (node_key c # q) path = bs @ bindings q p"
    and cap: "captured ctx bs ctx1"
    and undo: "\<And>ctx2. restored ctx1 ctx2 \<Longrightarrow> restored ctx (undo ctx2)"
    and sub: "search_spec meth (candidate meth (Suc d) p c) p ctx1 (match_dfs meth (Suc d) c p ctx1)"
    and ord: "ordered (c # cs)"
    and rest: "\<And>ctx'. search_spec meth (child_candidate meth d path cs) path ctx'
      (match_children meth d cs path ctx')"
  shows "search_spec meth (child_candidate meth d path (c # cs)) path ctx
    (case match_dfs meth (Suc d) c p ctx1 of
       (Some mh, ctx2) \<Rightarrow> (Some mh, ctx2)
     | (None, ctx2) \<Rightarrow> match_children meth d cs path (undo ctx2))"
proof -
  obtain r ctx2 where r: "match_dfs meth (Suc d) c p ctx1 = (r, ctx2)"
    by (cases "match_dfs meth (Suc d) c p ctx1")
  show ?thesis
  proof (cases r)
    case None
    have "\<not> via meth d path c q mh" for q mh
      using sub r None unfolding via by (simp add: search_spec_def)
    moreover have "restored ctx (undo ctx2)"
      using sub r None undo by (simp add: search_spec_def)
    ultimately show ?thesis using r None rest by (auto intro: search_skip)
  next
    case (Some mh)
    obtain q where q: "candidate meth (Suc d) p c q mh" "captured ctx1 (bindings q p) ctx2"
      "\<And>q' mh'. candidate meth (Suc d) p c q' mh' \<Longrightarrow> pat_rank q \<le> pat_rank q'"
      using sub r Some by (auto simp: search_spec_def)
    have "search_spec meth (child_candidate meth d path (c # cs)) path ctx (Some mh, ctx2)"
      using q(1,3)[folded via] ord captured_append[OF cap q(2)] bind
      by (intro search_stop[of c q]) auto
    then show ?thesis using r Some by simp
  qed
qed

lemma match_children_spec:
  assumes "\<And>c d path ctx. c \<in> set cs \<Longrightarrow> d < MAX_DEPTH \<Longrightarrow>
      search_spec meth (candidate meth d path c) path ctx (match_dfs meth d c path ctx)"
    and "ordered cs" "d < MAX_DEPTH - 1"
  shows "search_spec meth (child_candidate meth d path cs) path ctx (match_children meth d cs path ctx)"
  using assms
proof (induction cs arbitrary: ctx)
  case Nil
  then show ?case by (simp add: search_spec_def child_candidate_def restored_refl)
next
  case (Cons c cs)
  have IH: "search_spec meth (child_candidate meth d path cs) path ctx'
      (match_children meth d cs path ctx')" for ctx'
    using Cons.prems by (intro Cons.IH) (auto simp: ordered_def)
  have skip: "search_spec meth (child_candidate meth d path (c # cs)) path ctx
      (match_children meth d cs path ctx')"
    if "restored ctx ctx'" "\<And>q mh. \<not> via meth d path c q mh" for ctx'
    using that(2,1) IH by (rule search_skip)
  have sub: "search_spec meth (candidate meth (Suc d) p c) p ctx1 (match_dfs meth (Suc d) c p ctx1)"
    for p ctx1
    using Cons.prems by simp
  note descend = search_descend[OF _ _ _ _ sub Cons.prems(2) IH]
  show ?case
  proof (cases "ntype c")
    case NODE_WILDCARD
    obtain added ctx1 where cap: "capture_wildcard_param ctx (segment c) path = (added, ctx1)"
      by (cases "capture_wildcard_param ctx (segment c) path")
    note ca = capture_wildcard_captured[OF cap]
    show ?thesis
    proof (cases "find_mh (handlers c) meth")
      case None
      have "\<not> via meth d path c q mh" for q mh
        using find_mh_None[OF None] NODE_WILDCARD by (cases q) auto
      from skip[OF ca(2) this] show ?thesis using NODE_WILDCARD cap None by simp
    next
      case (Some mh)
      have "search_spec meth (child_candidate meth d path (c # cs)) path ctx (Some mh, ctx1)"
        using find_mh_Some[OF Some] NODE_WILDCARD Cons.prems(2,3) ca(1)
        by (intro search_stop[of c "[]"]) auto
      then show ?thesis using Some NODE_WILDCARD cap by simp
    qed
  next
    case NODE_PARAM
    show ?thesis
    proof (cases "next_segment path")
      case None
      then show ?thesis using skip[OF restored_refl] NODE_PARAM by simp
    next
      case (Some sp)
      obtain seg p where sp: "next_segment path = Some (seg, p)" using Some by (cases sp) simp
      obtain added ctx1 where cap: "capture_param ctx (segment c) seg = (added, ctx1)"
        by (cases "capture_param ctx (segment c) seg")
      show ?thesis
        using descend[where p = p and bs = "[(segment c, seg)]" and ctx = ctx and ?ctx1.0 = ctx1
            and undo = "\<lambda>ctx2. if added then rollback_param ctx2 (params_count ctx) else ctx2"]
          capture_param_captured[OF cap] NODE_PARAM sp cap
        by (simp add: candidate_def)
    qed
  next
    case NODE_STATIC
    show ?thesis
    proof (cases "\<exists>p. next_segment path = Some (segment c, p)")
      case False
      then show ?thesis
        using skip[OF restored_refl] NODE_STATIC by (auto split: option.splits)
    next
      case True
      then obtain p where sp: "next_segment path = Some (segment c, p)" by blast
      show ?thesis
        using descend[where p = p and bs = "[]" and ctx = ctx and ?ctx1.0 = ctx and undo = "\<lambda>ctx2. ctx2"]
          NODE_STATIC sp captured_Nil
        by (simp add: candidate_def)
    qed
  qed
qed

lemma candidate_Node:
  "candidate meth d path (Node seg type hs cs cap sf) pat mh \<longleftrightarrow>
     (pat = [] \<and> mh \<in> set hs \<and> mh_method mh = meth \<and> is_terminal path \<and> d < MAX_DEPTH) \<or>
     child_candidate meth d path cs pat mh"
  by (cases pat) (auto simp: candidate_def child_candidate_def)

lemma match_dfs_spec:
  "wf_node n \<Longrightarrow> d < MAX_DEPTH \<Longrightarrow>
     search_spec meth (candidate meth d path n) path ctx (match_dfs meth d n path ctx)"
proof (induction n arbitrary: d path ctx)
  case (Node seg type hs cs cap sf)
  let ?n = "Node seg type hs cs cap sf"
  show ?case
  proof (cases "if is_terminal path then find_mh hs meth else None")
    case (Some mh)
    then have "candidate meth d path ?n [] mh"
      using Node.prems(2) find_mh_Some[of hs meth mh] by (auto simp: candidate_def split: if_splits)
    then show ?thesis
      using Some captured_Nil[of ctx] by (auto simp: search_spec_def intro!: exI[of _ "[]"])
  next
    case None
    then have same: "candidate meth d path ?n = child_candidate meth d path cs"
      using find_mh_None[of hs meth] by (auto simp: candidate_Node fun_eq_iff split: if_splits)
    have "search_spec meth (child_candidate meth d path cs) path ctx (match_children meth d cs path ctx)"
      if "d < MAX_DEPTH - 1"
      using Node that by (intro match_children_spec) auto
    moreover have "\<not> child_candidate meth d path cs pat mh" if "\<not> d < MAX_DEPTH - 1" for pat mh
      using that by (auto simp: child_candidate_def)
    ultimately show ?thesis
      unfolding same using None by (auto simp: search_spec_def restored_refl)
  qed
qed

section \<open>Properties\<close>

text \<open>
  C15. The iterative search of \<open>match_node\<close>, with its explicit stack of at most 64 frames, its resumed
  child indices and its snapshots for rollback, returns on every trie, path and context, and returns
  exactly what the recursive depth-first search returns, on every processor and with SIMD comparison
  on or off.
\<close>

theorem match_node_refines_dfs:
  "match_node cpu n meth path ctx =
     Some (match_dfs meth 0 n (case path of None \<Rightarrow> [] | Some p \<Rightarrow> p) ctx)"
  by (rule match_node_eq_dfs)

lemma match_node_spec:
  assumes "wf_node n" "match_node cpu n meth (Some path) ctx = Some res"
  shows "search_spec meth (candidate meth 0 path n) path ctx res"
  using match_dfs_spec[OF assms(1), of 0 meth path ctx] assms(2)
  by (simp add: match_node_eq_dfs MAX_DEPTH_def)









text \<open>
  C16. Registration and matching agree: after a registration that returned 0, every request with that
  method whose path the registered pattern matches is answered by some route, as long as the pattern
  has fewer than 64 segments.
\<close>

theorem registered_route_is_found:
  assumes "wf_router r"
    and "router_add_full (Some r) (Some meth) (Some path) (Some hs) meta al = Some (0, Some r', al')"
    and "pmatch (pattern_of path) req" and "length (pattern_of path) < 64"
  shows "\<exists>chain. csilk_router_match cpu (Some r') (Some meth) (Some req) = Some (Some chain)"
proof -
  obtain r1 where r1: "r' = r1" "wf_router r1" "add_effect (root r) (pattern_of path)
      (new_handler (globals_of r) meth path hs meta) 0 (root r1)"
    using router_add_full_ok[OF assms(1,2)] by (metis option.inject)
  have "mh_method (new_handler (globals_of r) meth path hs meta) = meth"
    by (simp add: new_handler_def)
  then have "registered (root r') (pattern_of path) meth"
    using r1 unfolding add_effect_def by metis
  then obtain mh where cand: "candidate meth 0 req (root r') (pattern_of path) mh"
    using assms(3,4) by (auto simp: candidate_def MAX_DEPTH_def)
  obtain res ctx' where run: "match_node cpu (root r') meth (Some req) None = Some (res, ctx')"
    by (cases "match_dfs meth 0 (root r') req None") (simp add: match_node_eq_dfs)
  have "res \<noteq> None"
    using match_node_spec[OF _ run] cand r1 by (cases res) (auto simp: search_spec_def wf_router_def)
  with run show ?thesis by (auto simp: csilk_router_match_def)
qed

theorem registered_route_is_found_witness:
  "\<exists>r' al' chain. router_add_full (Some empty_router) (Some ''GET'') (Some ''/f/*p'') (Some [3]) no_meta []
      = Some (0, Some r', al') \<and>
    csilk_router_match GENERIC (Some r') (Some ''GET'') (Some ''/f/a/b'') = Some (Some chain)"
proof -
  have run: "(case router_add_full (Some empty_router) (Some ''GET'') (Some ''/f/*p'') (Some [3]) no_meta
      [] of Some (rc, Some r', al') \<Rightarrow> rc = 0 | _ \<Rightarrow> False)"
    by code_simp
  then obtain r' al' where r': "router_add_full (Some empty_router) (Some ''GET'') (Some ''/f/*p'')
      (Some [3]) no_meta [] = Some (0, Some r', al')"
    by (auto split: option.splits)
  have "pmatch (pattern_of ''/f/*p'') ''/f/a/b''" "length (pattern_of ''/f/*p'') < 64"
    by code_simp+
  from registered_route_is_found[OF wf_empty_router r' this, of GENERIC] r' show ?thesis by blast
qed






end
