(* ===== verification/Url.thy ===== *)
theory Url
  imports Csilk_Prelude
begin

text \<open>
  Model of src/core/primitives/url.c: percent-decoding in place over a buffer with a read and a write
  index, and the splitting of a URL into path and query. A buffer is the list of its bytes with the
  terminating NUL; reading or writing outside it is undefined behaviour (\<open>None\<close>). The lemmas show that
  the in-place loop computes the recursive decoding \<open>decode_ref\<close> of the string.
\<close>

unbundle bit_operations_syntax

section \<open>Hexadecimal digits\<close>

definition isdigit :: "char \<Rightarrow> bool" where
  "isdigit c = (48 \<le> byte c \<and> byte c \<le> 57)"

definition isxdigit :: "char \<Rightarrow> bool" where
  "isxdigit c = (isdigit c \<or> (97 \<le> byte c \<and> byte c \<le> 102) \<or> (65 \<le> byte c \<and> byte c \<le> 70))"

definition hex_to_int :: "char \<Rightarrow> int" where
  "hex_to_int c =
     (if 48 \<le> byte c \<and> byte c \<le> 57 then int (byte c) - 48
      else if 97 \<le> byte c \<and> byte c \<le> 102 then int (byte c) - 97 + 10
      else if 65 \<le> byte c \<and> byte c \<le> 70 then int (byte c) - 65 + 10
      else - 1)"

definition hex_byte :: "int \<Rightarrow> int \<Rightarrow> char" where
  "hex_byte hi lo = char_of (nat (push_bit 4 hi OR lo))"

section \<open>Decoding in place\<close>

definition read_at :: "string \<Rightarrow> nat \<Rightarrow> char option" where
  "read_at buf i = (if i < length buf then Some (buf ! i) else None)"

definition write_at :: "string \<Rightarrow> nat \<Rightarrow> char \<Rightarrow> string option" where
  "write_at buf i c = (if i < length buf then Some (buf[i := c]) else None)"

text \<open>\<open>isxdigit(src[1]) && isxdigit(src[2])\<close>, the second read guarded by the first test.\<close>

definition hex_ahead :: "string \<Rightarrow> nat \<Rightarrow> bool option" where
  "hex_ahead buf src = (case read_at buf (src + 1) of
     None \<Rightarrow> None
   | Some a \<Rightarrow> if \<not> isxdigit a then Some False else map_option isxdigit (read_at buf (src + 2)))"

function url_decode_loop :: "string \<Rightarrow> nat \<Rightarrow> nat \<Rightarrow> (string \<times> nat) option" where
  "url_decode_loop buf src dst = (case read_at buf src of
     None \<Rightarrow> None
   | Some c \<Rightarrow>
       if c = NUL then map_option (\<lambda>b. (b, dst)) (write_at buf dst NUL)
       else
         (case (if c = CHR ''%'' then hex_ahead buf src else Some False) of
            None \<Rightarrow> None
          | Some True \<Rightarrow>
              let hi = hex_to_int (buf ! (src + 1)); lo = hex_to_int (buf ! (src + 2)) in
              if hi \<ge> 0 \<and> lo \<ge> 0 then
                (case write_at buf dst (hex_byte hi lo) of
                   None \<Rightarrow> None | Some b \<Rightarrow> url_decode_loop b (src + 3) (dst + 1))
              else url_decode_loop buf (src + 1) dst
          | Some False \<Rightarrow>
              (case write_at buf dst (if c = CHR ''+'' then CHR '' '' else c) of
                 None \<Rightarrow> None | Some b \<Rightarrow> url_decode_loop b (src + 1) (dst + 1))))"
  by auto
termination
  by (relation "measure (\<lambda>(buf, src, dst). length buf - src)")
    (auto simp: read_at_def write_at_def split: if_splits)

declare url_decode_loop.simps [simp del]

text \<open>\<open>csilk_url_decode\<close> returns the length and leaves the decoded string in the buffer.\<close>

definition csilk_url_decode :: "string option \<Rightarrow> (nat \<times> string) option" where
  "csilk_url_decode s = (case s of
     None \<Rightarrow> Some (0, [])
   | Some str \<Rightarrow> map_option (\<lambda>(buf, n). (n, buf)) (url_decode_loop (str @ [NUL]) 0 0))"

definition cstr :: "string \<Rightarrow> string" where
  "cstr buf = takeWhile (\<lambda>c. c \<noteq> NUL) buf"

text \<open>
  \<open>csilk_split_url\<close> gives the two heap strings \<open>*path\<close> and \<open>*query\<close>; \<open>malloc\<close> and \<open>strdup\<close> consume an
  outcome each.
\<close>

definition csilk_split_url :: "heap \<Rightarrow> string option \<Rightarrow> ((string option \<times> string option) \<times> heap) option" where
  "csilk_split_url al u = (case u of
     None \<Rightarrow> Some ((None, None), al)
   | Some url \<Rightarrow>
       if CHR ''?'' \<in> set url then
         let path_len = length (takeWhile (\<lambda>c. c \<noteq> CHR ''?'') url) in
         (case malloc al of (ok, al) \<Rightarrow>
            if \<not> ok then Some ((None, None), al)
            else
              (case csilk_url_decode (Some (take path_len url)) of
                 None \<Rightarrow> None
               | Some (_, path) \<Rightarrow>
                   (case malloc al of (ok, al) \<Rightarrow>
                      if ok then Some ((Some (cstr path), Some (drop (path_len + 1) url)), al)
                      else Some ((None, None), al))))
       else
         (case malloc al of (ok, al) \<Rightarrow>
            if \<not> ok then Some ((None, None), al)
            else
              (case csilk_url_decode (Some url) of
                 None \<Rightarrow> None
               | Some (_, path) \<Rightarrow> Some ((Some (cstr path), None), al))))"

section \<open>The decoding as a recursive function\<close>

fun decode_ref :: "string \<Rightarrow> string" where
  "decode_ref [] = []"
| "decode_ref (c # cs) =
     (if c = CHR ''%'' then
        (case cs of
           a # b # rest \<Rightarrow>
             if isxdigit a \<and> isxdigit b then hex_byte (hex_to_int a) (hex_to_int b) # decode_ref rest
             else c # decode_ref cs
         | _ \<Rightarrow> c # decode_ref cs)
      else if c = CHR ''+'' then CHR '' '' # decode_ref cs
      else c # decode_ref cs)"

lemma isxdigit_hex: "isxdigit c \<Longrightarrow> 0 \<le> hex_to_int c \<and> hex_to_int c < 16"
  by (auto simp: isxdigit_def isdigit_def hex_to_int_def)

lemma hex_to_int_iff: "0 \<le> hex_to_int c \<longleftrightarrow> isxdigit c"
  by (auto simp: isxdigit_def isdigit_def hex_to_int_def)

lemma not_isxdigit_NUL [simp]: "\<not> isxdigit NUL"
  by (simp add: isxdigit_def isdigit_def byte_def)

lemma write_over:
  "g \<noteq> [] \<Longrightarrow> write_at (out @ g @ z) (length out) x = Some ((out @ [x]) @ tl g @ z)"
  by (cases g) (auto simp: write_at_def)

lemma read_mid: "read_at (p @ s @ [NUL]) (length p + i) = (if i \<le> length s then Some ((s @ [NUL]) ! i) else None)"
  by (auto simp: read_at_def nth_append)

lemma hex_ahead_mid:
  assumes "NUL \<notin> set cs"
  shows "hex_ahead (p @ (c # cs) @ [NUL]) (length p) =
    Some (case cs of a # b # rest \<Rightarrow> isxdigit a \<and> isxdigit b | _ \<Rightarrow> False)"
proof -
  have r: "read_at (p @ (c # cs) @ [NUL]) (length p + i) =
      (if i \<le> Suc (length cs) then Some (((c # cs) @ [NUL]) ! i) else None)" for i
    using read_mid[of p "c # cs" i] by simp
  show ?thesis
  proof (cases cs)
    case (Cons a rest)
    then show ?thesis using r[of 1] r[of 2] by (cases rest) (auto simp: hex_ahead_def numeral_2_eq_2)
  qed (use r[of 1] in \<open>simp add: hex_ahead_def\<close>)
qed

text \<open>
  The buffer during the loop: the decoded part, the bytes already read but not overwritten, the rest
  of the string and its terminator.
\<close>

lemma url_decode_loop_spec:
  assumes "NUL \<notin> set s"
  shows "\<exists>junk. url_decode_loop (out @ g @ s @ [NUL]) (length out + length g) (length out)
      = Some (out @ decode_ref s @ [NUL] @ junk, length out + length (decode_ref s))
      \<and> length junk + length (decode_ref s) = length g + length s"
  using assms
proof (induction "length s" arbitrary: s out g rule: less_induct)
  case less
  show ?case
  proof (cases s)
    case Nil
    show ?thesis
      using Nil read_mid[of "out @ g" "[]" 0] write_over[of "g @ [NUL]" out "[]" NUL]
      by (cases g) (simp_all add: url_decode_loop.simps)
  next
    case (Cons c cs)
    let ?buf = "out @ g @ s @ [NUL]"
    have c: "c \<noteq> NUL" and nul: "NUL \<notin> set cs" using less.prems Cons by auto
    have rd: "read_at ?buf (length out + length g) = Some c"
      using read_mid[of "out @ g" s 0] Cons by simp
    have ahead: "hex_ahead ?buf (length out + length g) =
        Some (case cs of a # b # rest \<Rightarrow> isxdigit a \<and> isxdigit b | _ \<Rightarrow> False)"
      using hex_ahead_mid[OF nul, of "out @ g" c] Cons by simp
    have plain: "\<exists>junk. url_decode_loop (out @ [x] @ tl (g @ [c]) @ cs @ [NUL]) (length out + length g + 1) (length out + 1)
      = Some (out @ (x # decode_ref cs) @ [NUL] @ junk, length out + length (x # decode_ref cs))
      \<and> length junk + length (x # decode_ref cs) = length g + length s" for x
      using less.hyps[of cs "out @ [x]" "tl (g @ [c])"] Cons nul by (auto simp: length_tl)
    have wr: "write_at ?buf (length out) x = Some (out @ [x] @ tl (g @ [c]) @ cs @ [NUL])" for x
      using write_over[of "g @ [c]" out "cs @ [NUL]" x] Cons by simp
    show ?thesis
    proof (cases "c = CHR ''%'' \<and> (case cs of a # b # rest \<Rightarrow> isxdigit a \<and> isxdigit b | _ \<Rightarrow> False)")
      case True
      then obtain a b rest where ab: "cs = a # b # rest" "isxdigit a" "isxdigit b" by (auto split: list.splits)
      let ?x = "hex_byte (hex_to_int a) (hex_to_int b)"
      have nth: "?buf ! (length out + length g + 1) = a" "?buf ! (length out + length g + 2) = b"
        using Cons ab by (simp_all add: nth_append)
      have w3: "write_at ?buf (length out) ?x = Some (out @ [?x] @ tl (g @ [c, a, b]) @ rest @ [NUL])"
        using write_over[of "g @ [c, a, b]" out "rest @ [NUL]" ?x] Cons ab by simp
      have "\<exists>junk. url_decode_loop (out @ [?x] @ tl (g @ [c, a, b]) @ rest @ [NUL]) (length out + length g + 3) (length out + 1)
        = Some (out @ (?x # decode_ref rest) @ [NUL] @ junk, length out + length (?x # decode_ref rest))
        \<and> length junk + length (?x # decode_ref rest) = length g + length s"
        using less.hyps[of rest "out @ [?x]" "tl (g @ [c, a, b])"] Cons nul ab by (auto simp: length_tl eval_nat_numeral)
      then show ?thesis
        using True c rd ahead w3 nth ab Cons isxdigit_hex[of a] isxdigit_hex[of b]
        by (subst url_decode_loop.simps) (simp add: Let_def)
    next
      case False
      let ?x = "if c = CHR ''+'' then CHR '' '' else c"
      have dref: "decode_ref s = ?x # decode_ref cs" 
        unfolding Cons decode_ref.simps(2)[of c cs] using False
        by (auto split: list.splits simp del: decode_ref.simps)
      have flag: "(if c = CHR ''%'' then hex_ahead ?buf (length out + length g) else Some False) = Some False"
        using False unfolding ahead by auto
      have "url_decode_loop ?buf (length out + length g) (length out)
          = url_decode_loop (out @ [?x] @ tl (g @ [c]) @ cs @ [NUL]) (length out + length g + 1) (length out + 1)"
        by (subst url_decode_loop.simps) (simp only: rd flag wr option.case bool.case c if_False)
      then show ?thesis using plain[of ?x] dref by presburger
    qed
  qed
qed

lemma url_decode_spec:
  assumes "NUL \<notin> set s"
  shows "\<exists>junk. csilk_url_decode (Some s) = Some (length (decode_ref s), decode_ref s @ [NUL] @ junk)
    \<and> length junk + length (decode_ref s) = length s"
  using url_decode_loop_spec[OF assms, of "[]" "[]"] by (auto simp: csilk_url_decode_def)

lemma cstr_append [simp]: "cstr (s @ NUL # junk) = cstr s"
  by (induction s) (auto simp: cstr_def)

lemma cstr_id: "NUL \<notin> set s \<Longrightarrow> cstr s = s"
  by (induction s) (auto simp: cstr_def)

lemma NUL_cstr: "NUL \<notin> set (cstr s)"
  unfolding cstr_def by (auto dest: set_takeWhileD)

lemma hex_byte_eq:
  assumes "0 \<le> hi" "hi < 16" "0 \<le> lo" "lo < 16"
  shows "hex_byte hi lo = char_of (nat (16 * hi + lo))"
proof -
  have "take_bit 4 lo = lo" using assms by (simp add: take_bit_int_eq_self)
  then have "push_bit 4 hi OR lo = lo + push_bit 4 hi"
    using concat_bit_eq[of 4 lo hi] concat_bit_def[of 4 lo hi] by (simp add: or.commute)
  then show ?thesis by (simp add: hex_byte_def push_bit_eq_mult add.commute mult.commute)
qed

text \<open>
  An encoding of a character: itself unless it is \<open>%\<close> or \<open>+\<close>, a \<open>+\<close> for a space, or \<open>%\<close> and the two
  hexadecimal digits of its byte.
\<close>

definition encodes :: "char \<Rightarrow> string \<Rightarrow> bool" where
  "encodes c e = ((e = [c] \<and> c \<noteq> CHR ''%'' \<and> c \<noteq> CHR ''+'') \<or> (c = CHR '' '' \<and> e = ''+'') \<or>
     (\<exists>a b. e = [CHR ''%'', a, b] \<and> isxdigit a \<and> isxdigit b \<and> int (byte c) = 16 * hex_to_int a + hex_to_int b))"

lemma decode_encoding: "list_all2 encodes s es \<Longrightarrow> decode_ref (concat es) = s"
proof (induction s es rule: list_all2_induct)
  case (Cons c s e es)
  have "hex_byte (hex_to_int a) (hex_to_int b) = c"
    if "isxdigit a" "isxdigit b" "int (byte c) = 16 * hex_to_int a + hex_to_int b" for a b
    using hex_byte_eq isxdigit_hex[OF that(1)] isxdigit_hex[OF that(2)] that(3)[symmetric]
    by simp
  then show ?case using Cons by (auto simp: encodes_def)
qed simp

section \<open>Properties\<close>

text \<open>
  C22. \<open>csilk_url_decode\<close> works in place without ever touching a byte outside the string and its
  terminator, terminates, and leaves the terminated decoding, never longer than the input; its result
  is the length of the decoding. Percent signs that are not followed by two hexadecimal digits stay
  as they are (\<open>decode_ref\<close>).
\<close>
theorem csilk_url_decode_in_place:
  assumes "NUL \<notin> set s"
  shows "\<exists>buf. csilk_url_decode (Some s) = Some (length (decode_ref s), buf) \<and> length buf = length s + 1
    \<and> take (length (decode_ref s) + 1) buf = decode_ref s @ [NUL] \<and> length (decode_ref s) \<le> length s"
  using url_decode_spec[OF assms] by auto

theorem csilk_url_decode_in_place_witness:
  "\<exists>buf. csilk_url_decode (Some ''a%2'') = Some (length (decode_ref ''a%2''), buf) \<and> length buf = length ''a%2'' + 1
    \<and> take (length (decode_ref ''a%2'') + 1) buf = decode_ref ''a%2'' @ [NUL] \<and> length (decode_ref ''a%2'') \<le> length ''a%2''"
  by (rule csilk_url_decode_in_place) simp

text \<open>
  Decoding inverts encoding: for any string, in whatever way its characters are encoded (as
  themselves, as \<open>+\<close> for a space, or as \<open>%XX\<close> in either case), \<open>csilk_url_decode\<close> leaves the string,
  terminated, and returns its length.
\<close>
theorem csilk_url_decode_inverts_encoding:
  assumes "list_all2 encodes s es" "NUL \<notin> set (concat es)"
  shows "\<exists>junk. csilk_url_decode (Some (concat es)) = Some (length s, s @ [NUL] @ junk)"
  using url_decode_spec[OF assms(2)] decode_encoding[OF assms(1)] by auto

theorem csilk_url_decode_inverts_encoding_witness:
  "\<exists>junk. csilk_url_decode (Some (concat [''+'', ''%2b'', ''a''])) = Some (length '' +a'', '' +a'' @ [NUL] @ junk)"
proof -
  have "list_all2 encodes '' +a'' [''+'', ''%2b'', ''a'']"
    by (simp add: encodes_def isxdigit_def isdigit_def hex_to_int_def byte_def)
  moreover have "NUL \<notin> set (concat [''+'', ''%2b'', ''a''])" by simp
  ultimately show ?thesis by (rule csilk_url_decode_inverts_encoding)
qed

text \<open>
  \<open>csilk_split_url\<close> under any allocation failures: either both outputs are set as documented (the
  decoded part before the first question mark, cut at a decoded NUL, and the raw rest after it, or
  NULL without a question mark), or both are NULL; with memory available it succeeds.
\<close>
theorem csilk_split_url_correct:
  assumes "NUL \<notin> set url"
  shows "\<exists>ok al'. csilk_split_url al (Some url) = Some
      (if ok then (Some (cstr (decode_ref (takeWhile (\<lambda>c. c \<noteq> CHR ''?'') url))),
         case dropWhile (\<lambda>c. c \<noteq> CHR ''?'') url of [] \<Rightarrow> None | _ # q \<Rightarrow> Some q)
       else (None, None), al')
    \<and> (al = [] \<longrightarrow> ok)"
proof (cases "CHR ''?'' \<in> set url")
  case False
  obtain ok al1 where ma: "malloc al = (ok, al1)" by fastforce
  have eq: "takeWhile (\<lambda>c. c \<noteq> CHR ''?'') url = url" "dropWhile (\<lambda>c. c \<noteq> CHR ''?'') url = []"
    using False by (auto simp: takeWhile_eq_all_conv)
  from url_decode_spec[OF assms] obtain junk where
    d: "csilk_url_decode (Some url) = Some (length (decode_ref url), decode_ref url @ [NUL] @ junk)" by blast
  have "csilk_split_url al (Some url) = Some (if ok then (Some (cstr (decode_ref url)), None) else (None, None), al1)"
    using False by (simp add: csilk_split_url_def ma d)
  moreover have "al = [] \<longrightarrow> ok" using malloc_Nil[OF ma] by simp
  ultimately show ?thesis unfolding eq list.case by blast
next
  case True
  obtain ok al1 where ma: "malloc al = (ok, al1)" by fastforce
  let ?p = "takeWhile (\<lambda>c. c \<noteq> CHR ''?'') url"
  obtain q where dq: "dropWhile (\<lambda>c. c \<noteq> CHR ''?'') url = CHR ''?'' # q"
    using True hd_dropWhile[of "\<lambda>c. c \<noteq> CHR ''?''" url]
    by (cases "dropWhile (\<lambda>c. c \<noteq> CHR ''?'') url") (auto simp: dropWhile_eq_Nil_conv)
  have url: "?p @ CHR ''?'' # q = url"
    using takeWhile_dropWhile_id[of "\<lambda>c. c \<noteq> CHR ''?''" url] unfolding dq .
  have tk: "take (length ?p) url = ?p" by (rule takeWhile_eq_take[symmetric])
  have "drop (Suc (length ?p)) (?p @ CHR ''?'' # q) = q" by simp
  then have dr: "drop (Suc (length ?p)) url = q" unfolding url .
  have nul: "NUL \<notin> set ?p" using assms by (auto dest: set_takeWhileD)
  obtain ok2 al2 where ma2: "malloc al1 = (ok2, al2)" by fastforce
  from url_decode_spec[OF nul] obtain junk where
    d: "csilk_url_decode (Some ?p) = Some (length (decode_ref ?p), decode_ref ?p @ [NUL] @ junk)" by blast
  have "csilk_split_url al (Some url) = Some (if ok \<and> ok2 then (Some (cstr (decode_ref ?p)), Some q) else (None, None),
      if ok then al2 else al1)"
    using True by (simp add: csilk_split_url_def Let_def ma ma2 tk d dr)
  moreover have "al = [] \<longrightarrow> ok \<and> ok2" using malloc_Nil[OF ma] malloc_Nil[OF ma2] by simp
  ultimately show ?thesis unfolding dq list.case by blast
qed

theorem csilk_split_url_correct_witness:
  "\<exists>ok al'. csilk_split_url [True, False] (Some ''/a?b'') = Some
      (if ok then (Some (cstr (decode_ref (takeWhile (\<lambda>c. c \<noteq> CHR ''?'') ''/a?b''))),
         case dropWhile (\<lambda>c. c \<noteq> CHR ''?'') ''/a?b'' of [] \<Rightarrow> None | _ # q \<Rightarrow> Some q)
       else (None, None), al')
    \<and> ([True, False] = [] \<longrightarrow> ok)"
  by (rule csilk_split_url_correct) simp

end
