(* ===== verification/Header_Intern.thy ===== *)
theory Header_Intern
  imports Bit_Scan
begin

text \<open>
  The interning of well-known header names in src/core/primitives/header_map.c: a name is
  recognised by comparing its length-indexed 8-, 4- and 2-byte words, folded with \<open>|= 0x20\<close>, with
  literal constants, or by \<open>strncasecmp\<close>. The lemmas show that for names without a carriage return
  this is the case-insensitive search in the table of canonical names.
\<close>

unbundle bit_operations_syntax

section \<open>Header identifiers\<close>

datatype csilk_header_id =
    HDR_UNKNOWN | HDR_HOST | HDR_CONTENT_TYPE | HDR_CONTENT_LENGTH | HDR_AUTHORIZATION
  | HDR_COOKIE | HDR_SET_COOKIE | HDR_ACCEPT | HDR_ACCEPT_ENCODING | HDR_ACCEPT_LANGUAGE
  | HDR_USER_AGENT | HDR_CONNECTION | HDR_UPGRADE | HDR_CACHE_CONTROL | HDR_ORIGIN | HDR_REFERER
  | HDR_SEC_WEBSOCKET_KEY | HDR_SEC_WEBSOCKET_VERSION | HDR_SEC_WEBSOCKET_EXTENSIONS
  | HDR_SEC_WEBSOCKET_PROTOCOL | HDR_TRANSFER_ENCODING | HDR_LOCATION | HDR_IF_MODIFIED_SINCE
  | HDR_IF_NONE_MATCH | HDR_ETAG | HDR_SERVER | HDR_DATE | HDR_VARY | HDR_X_REQUEST_ID
  | HDR_X_FORWARDED_FOR | HDR_X_REAL_IP | HDR_CONTENT_ENCODING

fun csilk_header_id_name :: "csilk_header_id \<Rightarrow> string" where
  "csilk_header_id_name HDR_UNKNOWN = ''Unknown''"
| "csilk_header_id_name HDR_HOST = ''Host''"
| "csilk_header_id_name HDR_CONTENT_TYPE = ''Content-Type''"
| "csilk_header_id_name HDR_CONTENT_LENGTH = ''Content-Length''"
| "csilk_header_id_name HDR_AUTHORIZATION = ''Authorization''"
| "csilk_header_id_name HDR_COOKIE = ''Cookie''"
| "csilk_header_id_name HDR_SET_COOKIE = ''Set-Cookie''"
| "csilk_header_id_name HDR_ACCEPT = ''Accept''"
| "csilk_header_id_name HDR_ACCEPT_ENCODING = ''Accept-Encoding''"
| "csilk_header_id_name HDR_ACCEPT_LANGUAGE = ''Accept-Language''"
| "csilk_header_id_name HDR_USER_AGENT = ''User-Agent''"
| "csilk_header_id_name HDR_CONNECTION = ''Connection''"
| "csilk_header_id_name HDR_UPGRADE = ''Upgrade''"
| "csilk_header_id_name HDR_CACHE_CONTROL = ''Cache-Control''"
| "csilk_header_id_name HDR_ORIGIN = ''Origin''"
| "csilk_header_id_name HDR_REFERER = ''Referer''"
| "csilk_header_id_name HDR_SEC_WEBSOCKET_KEY = ''Sec-WebSocket-Key''"
| "csilk_header_id_name HDR_SEC_WEBSOCKET_VERSION = ''Sec-WebSocket-Version''"
| "csilk_header_id_name HDR_SEC_WEBSOCKET_EXTENSIONS = ''Sec-WebSocket-Extensions''"
| "csilk_header_id_name HDR_SEC_WEBSOCKET_PROTOCOL = ''Sec-WebSocket-Protocol''"
| "csilk_header_id_name HDR_TRANSFER_ENCODING = ''Transfer-Encoding''"
| "csilk_header_id_name HDR_LOCATION = ''Location''"
| "csilk_header_id_name HDR_IF_MODIFIED_SINCE = ''If-Modified-Since''"
| "csilk_header_id_name HDR_IF_NONE_MATCH = ''If-None-Match''"
| "csilk_header_id_name HDR_ETAG = ''ETag''"
| "csilk_header_id_name HDR_SERVER = ''Server''"
| "csilk_header_id_name HDR_DATE = ''Date''"
| "csilk_header_id_name HDR_VARY = ''Vary''"
| "csilk_header_id_name HDR_X_REQUEST_ID = ''X-Request-ID''"
| "csilk_header_id_name HDR_X_FORWARDED_FOR = ''X-Forwarded-For''"
| "csilk_header_id_name HDR_X_REAL_IP = ''X-Real-IP''"
| "csilk_header_id_name HDR_CONTENT_ENCODING = ''Content-Encoding''"

section \<open>Case folding\<close>

text \<open>\<open>(char)(c | 0x20)\<close>, and \<open>tolower\<close> of the C locale.\<close>

definition or20 :: "char \<Rightarrow> char" where
  "or20 c = char_of (byte c OR 32)"

definition tolower :: "char \<Rightarrow> char" where
  "tolower c = (if 65 \<le> byte c \<and> byte c \<le> 90 then or20 c else c)"

abbreviation lower :: "string \<Rightarrow> string" where
  "lower s \<equiv> map tolower s"

fun strncasecmp :: "string \<Rightarrow> string \<Rightarrow> nat \<Rightarrow> int" where
  "strncasecmp s t 0 = 0"
| "strncasecmp s t (Suc n) =
     (if tolower (deref s) \<noteq> tolower (deref t) then int (byte (tolower (deref s))) - int (byte (tolower (deref t)))
      else if deref s = NUL then 0
      else strncasecmp (tl s) (tl t) n)"

section \<open>Interning\<close>

definition csilk_header_id_from_name :: "string option \<Rightarrow> csilk_header_id" where
  "csilk_header_id_from_name nm = (case nm of None \<Rightarrow> HDR_UNKNOWN | Some name \<Rightarrow>
     let len = length name;
         w4 = (\<lambda>i. le_load (take 4 (drop i name)) OR 0x20202020 :: u32);
         w2 = (\<lambda>i. le_load (take 2 (drop i name)) OR 0x2020 :: u16);
         w8 = (le_load (take 8 name) OR 0x2020202020202020 :: u64);
         c = (\<lambda>i. or20 (name ! i));
         ci = (\<lambda>i s. strncasecmp (drop i name) s (length s) = 0) in
     if len = 0 then HDR_UNKNOWN
     else if len = 4 then
       (if w4 0 = 0x74736f68 then HDR_HOST
        else if w4 0 = 0x67617465 then HDR_ETAG
        else if w4 0 = 0x65746164 then HDR_DATE
        else if w4 0 = 0x79726176 then HDR_VARY
        else HDR_UNKNOWN)
     else if len = 6 then
       (if w4 0 = 0x65636361 \<and> w2 4 = 0x7470 then HDR_ACCEPT
        else if w4 0 = 0x6b6f6f63 \<and> w2 4 = 0x6569 then HDR_COOKIE
        else if w4 0 = 0x6769726f \<and> w2 4 = 0x6e69 then HDR_ORIGIN
        else if w4 0 = 0x76726573 \<and> w2 4 = 0x7265 then HDR_SERVER
        else HDR_UNKNOWN)
     else if len = 7 then
       (if c 0 = CHR ''u'' \<and> ci 1 ''pgrade'' then HDR_UPGRADE
        else if c 0 = CHR ''r'' \<and> ci 1 ''eferer'' then HDR_REFERER
        else HDR_UNKNOWN)
     else if len = 8 then
       (if w8 = 0x6e6f697461636f6c then HDR_LOCATION else HDR_UNKNOWN)
     else if len = 9 then
       (if ci 0 ''x-real-ip'' then HDR_X_REAL_IP else HDR_UNKNOWN)
     else if len = 10 then
       (if w8 = 0x697463656e6e6f63 \<and> w2 8 = 0x6e6f then HDR_CONNECTION
        else if w8 = 0x6567612d72657375 \<and> w2 8 = 0x746e then HDR_USER_AGENT
        else if w8 = 0x6b6f6f632d746573 \<and> w2 8 = 0x6569 then HDR_SET_COOKIE
        else HDR_UNKNOWN)
     else if len = 12 then
       (if w8 = 0x2d746e65746e6f63 \<and> w4 8 = 0x65707974 then HDR_CONTENT_TYPE
        else if w8 = 0x7365757165722d78 \<and> w4 8 = 0x64692d74 then HDR_X_REQUEST_ID
        else HDR_UNKNOWN)
     else if len = 13 then
       (if c 0 = CHR ''a'' \<and> ci 1 ''uthorization'' then HDR_AUTHORIZATION
        else if c 0 = CHR ''c'' \<and> ci 1 ''ache-control'' then HDR_CACHE_CONTROL
        else if c 0 = CHR ''i'' \<and> ci 1 ''f-none-match'' then HDR_IF_NONE_MATCH
        else HDR_UNKNOWN)
     else if len = 14 then
       (if w8 = 0x2d746e65746e6f63 \<and> w4 8 = 0x676e656c \<and> w2 12 = 0x6874 then HDR_CONTENT_LENGTH
        else HDR_UNKNOWN)
     else if len = 15 then
       (if c 1 = CHR ''c'' then
          (if c 7 = CHR ''e'' \<and> ci 0 ''accept-encoding'' then HDR_ACCEPT_ENCODING
           else if c 7 = CHR ''l'' \<and> ci 0 ''accept-language'' then HDR_ACCEPT_LANGUAGE
           else HDR_UNKNOWN)
        else if c 1 = CHR ''-'' then
          (if ci 0 ''x-forwarded-for'' then HDR_X_FORWARDED_FOR else HDR_UNKNOWN)
        else HDR_UNKNOWN)
     else if len = 16 then
       (if ci 0 ''content-encoding'' then HDR_CONTENT_ENCODING else HDR_UNKNOWN)
     else if len = 17 then
       (if c 0 = CHR ''i'' \<and> ci 1 ''f-modified-since'' then HDR_IF_MODIFIED_SINCE
        else if c 0 = CHR ''s'' \<and> ci 1 ''ec-websocket-key'' then HDR_SEC_WEBSOCKET_KEY
        else if c 0 = CHR ''t'' \<and> ci 1 ''ransfer-encoding'' then HDR_TRANSFER_ENCODING
        else HDR_UNKNOWN)
     else if len = 21 then
       (if ci 0 ''sec-websocket-version'' then HDR_SEC_WEBSOCKET_VERSION else HDR_UNKNOWN)
     else if len = 22 then
       (if ci 0 ''sec-websocket-protocol'' then HDR_SEC_WEBSOCKET_PROTOCOL else HDR_UNKNOWN)
     else if len = 24 then
       (if ci 0 ''sec-websocket-extensions'' then HDR_SEC_WEBSOCKET_EXTENSIONS else HDR_UNKNOWN)
     else HDR_UNKNOWN)"

section \<open>What the interning computes\<close>

lemma or32_nat: "n OR 32 = (if bit n 5 then n else n + 32)" for n :: nat
proof -
  have b32: "bit (32 :: nat) i \<longleftrightarrow> i = 5" for i
  proof -
    have "(32 :: nat) = 2 ^ 5" by simp
    then show ?thesis by (metis bit_exp_iff possible_bit_nat)
  qed
  show ?thesis
  proof (cases "bit n 5")
    case True
    then have "n OR 32 = n" by (intro bit_eqI) (auto simp: bit_or_iff b32)
    with True show ?thesis by simp
  next
    case False
    then have "n AND 32 = 0" by (intro bit_eqI) (auto simp: bit_and_iff b32)
    then have "n + 32 = n OR 32" by (rule disjunctive_add_eq_or)
    with False show ?thesis by simp
  qed
qed

lemma bit5_add32: "bit (n + 32) 5 \<longleftrightarrow> \<not> bit n 5" for n :: nat
  by (simp add: bit_iff_odd div_add_self2)

lemma byte_or20: "byte (or20 c) = byte c OR 32"
proof -
  have "take_bit 8 (byte c OR 32) = byte c OR 32"
    using byte_less[of c] by (simp add: take_bit_or take_bit_nat_eq_self)
  then have "byte c OR 32 < 2 ^ 8" by (metis take_bit_nat_less_exp)
  then show ?thesis by (simp add: or20_def byte_def of_char_of)
qed

text \<open>The characters of the folded names.\<close>

definition folded :: "char \<Rightarrow> bool" where
  "folded c = (c = CHR ''-'' \<or> (97 \<le> byte c \<and> byte c \<le> 122))"

lemma folded_bit5: "folded c \<Longrightarrow> bit (byte c) 5"
proof -
  assume "folded c"
  then consider "byte c = 45" | "97 \<le> byte c" "byte c \<le> 122" by (auto simp: folded_def byte_def)
  then show ?thesis
  proof cases
    case 2
    then have "byte c div 32 = 3" by simp
    then show ?thesis by (simp add: bit_iff_odd)
  qed (simp add: bit_iff_odd)
qed

lemma or20_eq_folded_iff:
  assumes "folded d" "c \<noteq> CR"
  shows "or20 c = d \<longleftrightarrow> tolower c = d"
proof -
  have cr: "byte c \<noteq> 13"
    using assms(2) byte_eq_iff[of c CR] by (simp add: byte_def)
  have "or20 c = d \<longleftrightarrow> byte c OR 32 = byte d" by (metis byte_eq_iff byte_or20)
  also have "\<dots> \<longleftrightarrow> byte c = byte d \<or> byte c + 32 = byte d"
    using folded_bit5[OF assms(1)] bit5_add32[of "byte c"] by (auto simp: or32_nat)
  finally have or: "or20 c = d \<longleftrightarrow> byte c = byte d \<or> byte c + 32 = byte d" .
  have "byte c + 32 = byte d \<Longrightarrow> 65 \<le> byte c \<and> byte c \<le> 90"
    using assms(1) cr by (auto simp: folded_def byte_def)
  moreover have "65 \<le> byte c \<and> byte c \<le> 90 \<Longrightarrow> byte c \<noteq> byte d"
    using assms(1) by (auto simp: folded_def byte_def)
  ultimately show ?thesis
    using or by (auto simp: tolower_def)
qed

lemma le_nat_or20: "le_nat xs OR le_nat (replicate (length xs) (CHR '' '')) = le_nat (map or20 xs)"
proof (induction xs)
  case (Cons x xs)
  have low: "take_bit 8 (byte c + 256 * n) = byte c" and high: "drop_bit 8 (byte c + 256 * n) = n" for c n
    using byte_less[of c] by (simp_all add: take_bit_eq_mod drop_bit_eq_div)
  let ?m = "le_nat (x # xs)" and ?n = "le_nat (replicate (length (x # xs)) (CHR '' ''))"
  have sp: "byte (CHR '' '') = 32" by (simp add: byte_def)
  have "?m OR ?n = take_bit 8 (?m OR ?n) + push_bit 8 (drop_bit 8 (?m OR ?n))"
    by (metis add.commute bits_ident)
  also have "\<dots> = (byte x OR 32) + 256 * (le_nat xs OR le_nat (replicate (length xs) (CHR '' '')))"
    using low[of x "le_nat xs"] high[of x "le_nat xs"]
      low[of "CHR '' ''" "le_nat (replicate (length xs) (CHR '' ''))"]
      high[of "CHR '' ''" "le_nat (replicate (length xs) (CHR '' ''))"]
    by (simp add: take_bit_or drop_bit_or push_bit_eq_mult sp)
  finally show ?case using Cons.IH by (simp add: byte_or20)
qed simp

lemma le_load_or20:
  "(le_load xs OR le_load (replicate (length xs) (CHR '' '')) :: 'a::len word) = le_load (map or20 xs)"
  unfolding le_load_def by (simp add: of_nat_or_eq flip: le_nat_or20)

lemma word_test:
  assumes "length xs = length lit" "8 * length lit \<le> LENGTH('a::len)" "\<forall>d\<in>set lit. folded d" "CR \<notin> set xs"
    and "m = (le_load (replicate (length xs) (CHR '' '')) :: 'a word)"
  shows "(le_load xs OR m :: 'a word) = le_load lit \<longleftrightarrow> lower xs = lit"
proof -
  have "(le_load xs OR m :: 'a word) = le_load lit \<longleftrightarrow> map or20 xs = lit"
    unfolding assms(5) le_load_or20 using assms(1,2) by (intro le_load_eq_iff) auto
  also have "\<dots> \<longleftrightarrow> lower xs = lit"
    using assms(1,3,4)
  proof (induction xs lit rule: list_induct2)
    case (Cons x xs y ys)
    then show ?case using or20_eq_folded_iff[of y x] by auto
  qed simp
  finally show ?thesis .
qed

lemma tolower_NUL_iff: "tolower c = NUL \<longleftrightarrow> c = NUL"
proof -
  have "byte (or20 c) \<noteq> 0" unfolding byte_or20 by (simp add: or_eq_0_iff)
  then have "or20 c \<noteq> NUL" by simp
  moreover have "tolower NUL = NUL" by (simp add: tolower_def byte_def)
  ultimately show ?thesis by (auto simp: tolower_def)
qed

lemma strncasecmp_lit_iff:
  assumes "NUL \<notin> set t" "length s = length t"
  shows "strncasecmp s t (length t) = 0 \<longleftrightarrow> lower s = lower t"
  using assms(2,1)
proof (induction s t rule: list_induct2)
  case (Cons x s y t)
  have eq: "length (y # t) = Suc (length t)" by simp
  show ?case
  proof (cases "tolower x = tolower y")
    case True
    then have "x \<noteq> NUL" using Cons.prems tolower_NUL_iff[of x] tolower_NUL_iff[of y] by auto
    with True Cons show ?thesis unfolding eq by simp
  next
    case False
    then show ?thesis unfolding eq by simp
  qed
qed simp

text \<open>The words the code compares with are the loads of the folded names.\<close>

lemma word_consts:
  "(0x74736f68 :: u32) = le_load ''host''" "(0x67617465 :: u32) = le_load ''etag''"
  "(0x65746164 :: u32) = le_load ''date''" "(0x79726176 :: u32) = le_load ''vary''"
  "(0x65636361 :: u32) = le_load ''acce''" "(0x7470 :: u16) = le_load ''pt''"
  "(0x6b6f6f63 :: u32) = le_load ''cook''" "(0x6569 :: u16) = le_load ''ie''"
  "(0x6769726f :: u32) = le_load ''orig''" "(0x6e69 :: u16) = le_load ''in''"
  "(0x76726573 :: u32) = le_load ''serv''" "(0x7265 :: u16) = le_load ''er''"
  "(0x6e6f697461636f6c :: u64) = le_load ''location''"
  "(0x697463656e6e6f63 :: u64) = le_load ''connecti''" "(0x6e6f :: u16) = le_load ''on''"
  "(0x6567612d72657375 :: u64) = le_load ''user-age''" "(0x746e :: u16) = le_load ''nt''"
  "(0x6b6f6f632d746573 :: u64) = le_load ''set-cook''"
  "(0x2d746e65746e6f63 :: u64) = le_load ''content-''" "(0x65707974 :: u32) = le_load ''type''"
  "(0x7365757165722d78 :: u64) = le_load ''x-reques''" "(0x64692d74 :: u32) = le_load ''t-id''"
  "(0x676e656c :: u32) = le_load ''leng''" "(0x6874 :: u16) = le_load ''th''"
  by (simp_all add: le_load_def byte_def)

lemma mask_consts:
  "(0x20202020 :: u32) = le_load (replicate 4 (CHR '' ''))" "(0x2020 :: u16) = le_load (replicate 2 (CHR '' ''))"
  "(0x2020202020202020 :: u64) = le_load (replicate 8 (CHR '' ''))"
proof -
  have sp: "replicate 2 x = [x, x]" "replicate 4 x = [x, x, x, x]" "replicate 8 x = [x, x, x, x, x, x, x, x]"
    for x :: char
    by (simp_all add: numeral_eq_Suc)
  show "(0x20202020 :: u32) = le_load (replicate 4 (CHR '' ''))" "(0x2020 :: u16) = le_load (replicate 2 (CHR '' ''))"
    "(0x2020202020202020 :: u64) = le_load (replicate 8 (CHR '' ''))"
    by (simp_all add: sp le_load_def byte_def)
qed

definition known_ids :: "csilk_header_id list" where
  "known_ids = [HDR_HOST, HDR_CONTENT_TYPE, HDR_CONTENT_LENGTH, HDR_AUTHORIZATION, HDR_COOKIE,
     HDR_SET_COOKIE, HDR_ACCEPT, HDR_ACCEPT_ENCODING, HDR_ACCEPT_LANGUAGE, HDR_USER_AGENT,
     HDR_CONNECTION, HDR_UPGRADE, HDR_CACHE_CONTROL, HDR_ORIGIN, HDR_REFERER, HDR_SEC_WEBSOCKET_KEY,
     HDR_SEC_WEBSOCKET_VERSION, HDR_SEC_WEBSOCKET_EXTENSIONS, HDR_SEC_WEBSOCKET_PROTOCOL,
     HDR_TRANSFER_ENCODING, HDR_LOCATION, HDR_IF_MODIFIED_SINCE, HDR_IF_NONE_MATCH, HDR_ETAG,
     HDR_SERVER, HDR_DATE, HDR_VARY, HDR_X_REQUEST_ID, HDR_X_FORWARDED_FOR, HDR_X_REAL_IP,
     HDR_CONTENT_ENCODING]"

text \<open>The reference: look the lower-case name up among the lower-case canonical names.\<close>

definition intern_ref :: "string \<Rightarrow> csilk_header_id" where
  "intern_ref s = (case List.find (\<lambda>id. lower (csilk_header_id_name id) = lower s) known_ids of
     None \<Rightarrow> HDR_UNKNOWN | Some hid \<Rightarrow> hid)"

text \<open>The lower-case canonical names, by length.\<close>

definition intern_table :: "(string \<times> csilk_header_id) list" where
  "intern_table = map (\<lambda>id. (lower (csilk_header_id_name id), id)) known_ids"

lemma intern_ref_table:
  "intern_ref s = (case map_of intern_table (lower s) of None \<Rightarrow> HDR_UNKNOWN | Some hid \<Rightarrow> hid)"
proof -
  have "map_of (map (\<lambda>id. (f id, id)) xs) k = List.find (\<lambda>id. f id = k) xs"
    for f :: "csilk_header_id \<Rightarrow> string" and xs k
    by (induction xs) auto
  then show ?thesis by (simp add: intern_ref_def intern_table_def)
qed


lemma tolower_chars:
  "map tolower ''ABCDEFGHIJKLMNOPQRSTUVWXYZ'' = ''abcdefghijklmnopqrstuvwxyz''"
  "map tolower ''abcdefghijklmnopqrstuvwxyz-'' = ''abcdefghijklmnopqrstuvwxyz-''"
  by (simp_all add: tolower_def byte_def or20_def char_of_def bit_Suc_0_iff)

lemmas tolower_char_simps = tolower_chars[unfolded list.map list.inject simp_thms]

lemma intern_table_eq: "intern_table =
  [(''host'', HDR_HOST), (''content-type'', HDR_CONTENT_TYPE), (''content-length'', HDR_CONTENT_LENGTH),
   (''authorization'', HDR_AUTHORIZATION), (''cookie'', HDR_COOKIE), (''set-cookie'', HDR_SET_COOKIE),
   (''accept'', HDR_ACCEPT), (''accept-encoding'', HDR_ACCEPT_ENCODING),
   (''accept-language'', HDR_ACCEPT_LANGUAGE), (''user-agent'', HDR_USER_AGENT),
   (''connection'', HDR_CONNECTION), (''upgrade'', HDR_UPGRADE), (''cache-control'', HDR_CACHE_CONTROL),
   (''origin'', HDR_ORIGIN), (''referer'', HDR_REFERER), (''sec-websocket-key'', HDR_SEC_WEBSOCKET_KEY),
   (''sec-websocket-version'', HDR_SEC_WEBSOCKET_VERSION),
   (''sec-websocket-extensions'', HDR_SEC_WEBSOCKET_EXTENSIONS),
   (''sec-websocket-protocol'', HDR_SEC_WEBSOCKET_PROTOCOL), (''transfer-encoding'', HDR_TRANSFER_ENCODING),
   (''location'', HDR_LOCATION), (''if-modified-since'', HDR_IF_MODIFIED_SINCE),
   (''if-none-match'', HDR_IF_NONE_MATCH), (''etag'', HDR_ETAG), (''server'', HDR_SERVER),
   (''date'', HDR_DATE), (''vary'', HDR_VARY), (''x-request-id'', HDR_X_REQUEST_ID),
   (''x-forwarded-for'', HDR_X_FORWARDED_FOR), (''x-real-ip'', HDR_X_REAL_IP),
   (''content-encoding'', HDR_CONTENT_ENCODING)]"
  by (simp add: intern_table_def known_ids_def tolower_char_simps)

text \<open>The tests of the code, for a name without CR, as tests on the lower-case name.\<close>

lemma folded_lits:
  "\<forall>d\<in>set ''abcdefghijklmnopqrstuvwxyz-''. folded d"
  by (simp add: folded_def byte_def)

lemma name_tests:
  fixes lit :: string
  assumes "CR \<notin> set xs" "length xs = length lit" "set lit \<subseteq> set ''abcdefghijklmnopqrstuvwxyz-''"
  shows "length lit = 4 \<Longrightarrow> (le_load xs OR 0x20202020 :: u32) = le_load lit \<longleftrightarrow> lower xs = lit"
    "length lit = 2 \<Longrightarrow> (le_load xs OR 0x2020 :: u16) = le_load lit \<longleftrightarrow> lower xs = lit"
    "length lit = 8 \<Longrightarrow> (le_load xs OR 0x2020202020202020 :: u64) = le_load lit \<longleftrightarrow> lower xs = lit"
proof -
  have f: "\<forall>d\<in>set lit. folded d" using assms(3) folded_lits by blast
  show "(le_load xs OR 0x20202020 :: u32) = le_load lit \<longleftrightarrow> lower xs = lit" if "length lit = 4"
    using assms that f by (intro word_test) (simp_all add: mask_consts)
  show "(le_load xs OR 0x2020 :: u16) = le_load lit \<longleftrightarrow> lower xs = lit" if "length lit = 2"
    using assms that f by (intro word_test) (simp_all add: mask_consts)
  show "(le_load xs OR 0x2020202020202020 :: u64) = le_load lit \<longleftrightarrow> lower xs = lit" if "length lit = 8"
    using assms that f by (intro word_test) (simp_all add: mask_consts)
qed

lemma lower_len: "length name \<noteq> length lit \<Longrightarrow> (lower name = lit) = False"
  by (metis length_map)

lemma lower_append_iff:
  "length xs = length a + length b \<Longrightarrow>
     lower xs = a @ b \<longleftrightarrow> lower (take (length a) xs) = a \<and> lower (take (length b) (drop (length a) xs)) = b"
  by (metis append_eq_conv_conj append_take_drop_id diff_add_inverse length_drop length_map map_append
      order_refl take_all_iff take_map drop_map)

lemma lower_nth_or20:
  assumes "CR \<notin> set name" "lower name = lit" "i < length lit" "folded (lit ! i)"
  shows "or20 (name ! i) = lit ! i"
proof -
  have "i < length name" using assms(2,3) by (metis length_map)
  then have "name ! i \<noteq> CR" "tolower (name ! i) = lit ! i"
    using assms(1,2) by (metis nth_mem, metis nth_map)
  then show ?thesis using or20_eq_folded_iff[OF assms(4)] by blast
qed

lemma ci_test:
  assumes "length xs = length lit" "set lit \<subseteq> set ''abcdefghijklmnopqrstuvwxyz-''"
  shows "strncasecmp xs lit (length lit) = 0 \<longleftrightarrow> lower xs = lit"
proof -
  have "tolower d = d \<and> d \<noteq> NUL" if "d \<in> set ''abcdefghijklmnopqrstuvwxyz-''" for d
    using that tolower_char_simps by auto
  then have "lower lit = lit" "NUL \<notin> set lit" using assms(2) by (auto simp: map_idI subset_iff)
  then show ?thesis using strncasecmp_lit_iff[of lit xs] assms(1) by simp
qed

text \<open>A name of which the first character is tested by itself.\<close>

lemma first_ci_test:
  assumes "CR \<notin> set name" "length name = Suc (length lit)"
    "set (d # lit) \<subseteq> set ''abcdefghijklmnopqrstuvwxyz-''"
  shows "lower name = d # lit \<longleftrightarrow> or20 (name ! 0) = d \<and> strncasecmp (drop 1 name) lit (length lit) = 0"
proof -
  obtain x xs where name: "name = x # xs" using assms(2) by (cases name) auto
  have "folded d" using assms(3) folded_lits by auto
  then show ?thesis
    using assms name or20_eq_folded_iff[of d x] ci_test[of xs lit] by auto
qed

text \<open>The word tests, by the length of the name.\<close>

abbreviation letters :: "string \<Rightarrow> bool" where
  "letters lit \<equiv> set lit \<subseteq> set ''abcdefghijklmnopqrstuvwxyz-''"

abbreviation W8 :: "string \<Rightarrow> u64" where
  "W8 name \<equiv> le_load (take 8 name) OR 0x2020202020202020"

abbreviation W4 :: "string \<Rightarrow> nat \<Rightarrow> u32" where
  "W4 name i \<equiv> le_load (take 4 (drop i name)) OR 0x20202020"

abbreviation W2 :: "string \<Rightarrow> nat \<Rightarrow> u16" where
  "W2 name i \<equiv> le_load (take 2 (drop i name)) OR 0x2020"

lemma part_tests:
  assumes "CR \<notin> set name" "letters lit"
  shows "length lit = 8 \<Longrightarrow> 8 \<le> length name \<Longrightarrow> lower (take 8 name) = lit \<longleftrightarrow> W8 name = le_load lit"
    and "length lit = 4 \<Longrightarrow> i + 4 \<le> length name \<Longrightarrow> lower (take 4 (drop i name)) = lit \<longleftrightarrow> W4 name i = le_load lit"
    and "length lit = 2 \<Longrightarrow> i + 2 \<le> length name \<Longrightarrow> lower (take 2 (drop i name)) = lit \<longleftrightarrow> W2 name i = le_load lit"
proof -
  have cr: "CR \<notin> set (take n (drop j name))" for n j
    using assms(1) by (meson in_set_dropD in_set_takeD)
  show "lower (take 8 name) = lit \<longleftrightarrow> W8 name = le_load lit" if "length lit = 8" "8 \<le> length name"
    using name_tests(3)[OF cr[of 8 0], of lit] that assms(2) by simp
  show "lower (take 4 (drop i name)) = lit \<longleftrightarrow> W4 name i = le_load lit" if "length lit = 4" "i + 4 \<le> length name"
    using name_tests(1)[OF cr[of 4 i], of lit] that assms(2) by simp
  show "lower (take 2 (drop i name)) = lit \<longleftrightarrow> W2 name i = le_load lit" if "length lit = 2" "i + 2 \<le> length name"
    using name_tests(2)[OF cr[of 2 i], of lit] that assms(2) by simp
qed

lemma word_layouts:
  assumes cr: "CR \<notin> set name"
  shows "length name = 4 \<Longrightarrow> letters a \<Longrightarrow> length a = 4 \<Longrightarrow> lower name = a \<longleftrightarrow> W4 name 0 = le_load a"
    and "length name = 6 \<Longrightarrow> letters a \<Longrightarrow> letters b \<Longrightarrow> length a = 4 \<Longrightarrow> length b = 2 \<Longrightarrow>
      lower name = a @ b \<longleftrightarrow> W4 name 0 = le_load a \<and> W2 name 4 = le_load b"
    and "length name = 8 \<Longrightarrow> letters a \<Longrightarrow> length a = 8 \<Longrightarrow> lower name = a \<longleftrightarrow> W8 name = le_load a"
    and "length name = 10 \<Longrightarrow> letters a \<Longrightarrow> letters b \<Longrightarrow> length a = 8 \<Longrightarrow> length b = 2 \<Longrightarrow>
      lower name = a @ b \<longleftrightarrow> W8 name = le_load a \<and> W2 name 8 = le_load b"
    and "length name = 12 \<Longrightarrow> letters a \<Longrightarrow> letters b \<Longrightarrow> length a = 8 \<Longrightarrow> length b = 4 \<Longrightarrow>
      lower name = a @ b \<longleftrightarrow> W8 name = le_load a \<and> W4 name 8 = le_load b"
proof -
  show "lower name = a \<longleftrightarrow> W4 name 0 = le_load a" if "length name = 4" "letters a" "length a = 4"
    using part_tests(2)[OF cr that(2), of 0] that by simp
  show "lower name = a \<longleftrightarrow> W8 name = le_load a" if "length name = 8" "letters a" "length a = 8"
    using part_tests(1)[OF cr that(2)] that by simp
  show "lower name = a @ b \<longleftrightarrow> W4 name 0 = le_load a \<and> W2 name 4 = le_load b"
    if "length name = 6" "letters a" "letters b" "length a = 4" "length b = 2"
    using part_tests(2)[OF cr that(2), of 0] part_tests(3)[OF cr that(3), of 4] lower_append_iff[of name a b] that
    by simp
  show "lower name = a @ b \<longleftrightarrow> W8 name = le_load a \<and> W2 name 8 = le_load b"
    if "length name = 10" "letters a" "letters b" "length a = 8" "length b = 2"
    using part_tests(1)[OF cr that(2)] part_tests(3)[OF cr that(3), of 8] lower_append_iff[of name a b] that
    by simp
  show "lower name = a @ b \<longleftrightarrow> W8 name = le_load a \<and> W4 name 8 = le_load b"
    if "length name = 12" "letters a" "letters b" "length a = 8" "length b = 4"
    using part_tests(1)[OF cr that(2)] part_tests(2)[OF cr that(3), of 8] lower_append_iff[of name a b] that
    by simp
qed

lemma word_layout_14:
  assumes cr: "CR \<notin> set name" "length name = 14"
  shows "lower name = ''content-length'' \<longleftrightarrow>
    W8 name = le_load ''content-'' \<and> W4 name 8 = le_load ''leng'' \<and> W2 name 12 = le_load ''th''"
proof -
  have "lower name = ''content-'' @ ''length'' \<longleftrightarrow>
      lower (take 8 name) = ''content-'' \<and> lower (take 6 (drop 8 name)) = ''leng'' @ ''th''"
    using lower_append_iff[of name "''content-''" "''length''"] cr(2) by (simp add: numeral_eq_Suc)
  also have "lower (take 6 (drop 8 name)) = ''leng'' @ ''th'' \<longleftrightarrow>
      lower (take 4 (drop 8 name)) = ''leng'' \<and> lower (take 2 (drop 12 name)) = ''th''"
    using lower_append_iff[of "take 6 (drop 8 name)" "''leng''" "''th''"] cr(2)
    by (simp add: numeral_eq_Suc)
  also have "lower (take 8 name) = ''content-'' \<longleftrightarrow> W8 name = le_load ''content-''"
    using part_tests(1)[OF cr(1), of "''content-''"] cr(2) by simp
  also have "lower (take 4 (drop 8 name)) = ''leng'' \<longleftrightarrow> W4 name 8 = le_load ''leng''"
    using part_tests(2)[OF cr(1), of "''leng''" 8] cr(2) by simp
  also have "lower (take 2 (drop 12 name)) = ''th'' \<longleftrightarrow> W2 name 12 = le_load ''th''"
    using part_tests(3)[OF cr(1), of "''th''" 12] cr(2) by simp
  finally show ?thesis by simp
qed

lemmas intern_unfold = intern_ref_table intern_table_eq csilk_header_id_from_name_def Let_def option.case

lemma intern_4:
  assumes "CR \<notin> set name" "length name = 4"
  shows "csilk_header_id_from_name (Some name) = intern_ref name"
proof -
  have e0: "W4 name 0 = 0x74736f68 \<longleftrightarrow> lower name = ''host''"
    using word_layouts(1)[OF assms, of "''host''"] unfolding word_consts by simp
  have e1: "W4 name 0 = 0x67617465 \<longleftrightarrow> lower name = ''etag''"
    using word_layouts(1)[OF assms, of "''etag''"] unfolding word_consts by simp
  have e2: "W4 name 0 = 0x65746164 \<longleftrightarrow> lower name = ''date''"
    using word_layouts(1)[OF assms, of "''date''"] unfolding word_consts by simp
  have e3: "W4 name 0 = 0x79726176 \<longleftrightarrow> lower name = ''vary''"
    using word_layouts(1)[OF assms, of "''vary''"] unfolding word_consts by simp
  show ?thesis
    unfolding intern_unfold by (simp only: e0 e1 e2 e3, simp add: assms(2) lower_len)
qed

lemma intern_6:
  assumes "CR \<notin> set name" "length name = 6"
  shows "csilk_header_id_from_name (Some name) = intern_ref name"
proof -
  have e0: "W4 name 0 = 0x65636361 \<and> W2 name 4 = 0x7470 \<longleftrightarrow> lower name = ''accept''"
    using word_layouts(2)[OF assms, of "''acce''" "''pt''"] unfolding word_consts by simp
  have e1: "W4 name 0 = 0x6b6f6f63 \<and> W2 name 4 = 0x6569 \<longleftrightarrow> lower name = ''cookie''"
    using word_layouts(2)[OF assms, of "''cook''" "''ie''"] unfolding word_consts by simp
  have e2: "W4 name 0 = 0x6769726f \<and> W2 name 4 = 0x6e69 \<longleftrightarrow> lower name = ''origin''"
    using word_layouts(2)[OF assms, of "''orig''" "''in''"] unfolding word_consts by simp
  have e3: "W4 name 0 = 0x76726573 \<and> W2 name 4 = 0x7265 \<longleftrightarrow> lower name = ''server''"
    using word_layouts(2)[OF assms, of "''serv''" "''er''"] unfolding word_consts by simp
  show ?thesis
    unfolding intern_unfold by (simp only: e0 e1 e2 e3, simp add: assms(2) lower_len)
qed

lemma intern_8:
  assumes "CR \<notin> set name" "length name = 8"
  shows "csilk_header_id_from_name (Some name) = intern_ref name"
proof -
  have e0: "W8 name = 0x6e6f697461636f6c \<longleftrightarrow> lower name = ''location''"
    using word_layouts(3)[OF assms, of "''location''"] unfolding word_consts by simp
  show ?thesis
    unfolding intern_unfold by (simp only: e0, simp add: assms(2) lower_len)
qed

lemma intern_10:
  assumes "CR \<notin> set name" "length name = 10"
  shows "csilk_header_id_from_name (Some name) = intern_ref name"
proof -
  have e0: "W8 name = 0x697463656e6e6f63 \<and> W2 name 8 = 0x6e6f \<longleftrightarrow> lower name = ''connection''"
    using word_layouts(4)[OF assms, of "''connecti''" "''on''"] unfolding word_consts by simp
  have e1: "W8 name = 0x6567612d72657375 \<and> W2 name 8 = 0x746e \<longleftrightarrow> lower name = ''user-agent''"
    using word_layouts(4)[OF assms, of "''user-age''" "''nt''"] unfolding word_consts by simp
  have e2: "W8 name = 0x6b6f6f632d746573 \<and> W2 name 8 = 0x6569 \<longleftrightarrow> lower name = ''set-cookie''"
    using word_layouts(4)[OF assms, of "''set-cook''" "''ie''"] unfolding word_consts by simp
  show ?thesis
    unfolding intern_unfold by (simp only: e0 e1 e2, simp add: assms(2) lower_len)
qed

lemma intern_12:
  assumes "CR \<notin> set name" "length name = 12"
  shows "csilk_header_id_from_name (Some name) = intern_ref name"
proof -
  have e0: "W8 name = 0x2d746e65746e6f63 \<and> W4 name 8 = 0x65707974 \<longleftrightarrow> lower name = ''content-type''"
    using word_layouts(5)[OF assms, of "''content-''" "''type''"] unfolding word_consts by simp
  have e1: "W8 name = 0x7365757165722d78 \<and> W4 name 8 = 0x64692d74 \<longleftrightarrow> lower name = ''x-request-id''"
    using word_layouts(5)[OF assms, of "''x-reques''" "''t-id''"] unfolding word_consts by simp
  show ?thesis
    unfolding intern_unfold by (simp only: e0 e1, simp add: assms(2) lower_len)
qed

lemma intern_7:
  assumes "CR \<notin> set name" "length name = 7"
  shows "csilk_header_id_from_name (Some name) = intern_ref name"
proof -
  have e0: "or20 (name ! 0) = CHR ''u'' \<and> strncasecmp (drop 1 name) ''pgrade'' (length ''pgrade'') = 0 \<longleftrightarrow>
      lower name = ''upgrade''"
    using first_ci_test[OF assms(1), of "''pgrade''" "CHR ''u''"] assms(2) by simp
  have e1: "or20 (name ! 0) = CHR ''r'' \<and> strncasecmp (drop 1 name) ''eferer'' (length ''eferer'') = 0 \<longleftrightarrow>
      lower name = ''referer''"
    using first_ci_test[OF assms(1), of "''eferer''" "CHR ''r''"] assms(2) by simp
  show ?thesis
    unfolding intern_unfold by (simp only: e0 e1, simp add: assms(2) lower_len)
qed

lemma intern_13:
  assumes "CR \<notin> set name" "length name = 13"
  shows "csilk_header_id_from_name (Some name) = intern_ref name"
proof -
  have e0: "or20 (name ! 0) = CHR ''a'' \<and> strncasecmp (drop 1 name) ''uthorization'' (length ''uthorization'') = 0 \<longleftrightarrow>
      lower name = ''authorization''"
    using first_ci_test[OF assms(1), of "''uthorization''" "CHR ''a''"] assms(2) by simp
  have e1: "or20 (name ! 0) = CHR ''c'' \<and> strncasecmp (drop 1 name) ''ache-control'' (length ''ache-control'') = 0 \<longleftrightarrow>
      lower name = ''cache-control''"
    using first_ci_test[OF assms(1), of "''ache-control''" "CHR ''c''"] assms(2) by simp
  have e2: "or20 (name ! 0) = CHR ''i'' \<and> strncasecmp (drop 1 name) ''f-none-match'' (length ''f-none-match'') = 0 \<longleftrightarrow>
      lower name = ''if-none-match''"
    using first_ci_test[OF assms(1), of "''f-none-match''" "CHR ''i''"] assms(2) by simp
  show ?thesis
    unfolding intern_unfold by (simp only: e0 e1 e2, simp add: assms(2) lower_len)
qed

lemma intern_17:
  assumes "CR \<notin> set name" "length name = 17"
  shows "csilk_header_id_from_name (Some name) = intern_ref name"
proof -
  have e0: "or20 (name ! 0) = CHR ''i'' \<and> strncasecmp (drop 1 name) ''f-modified-since'' (length ''f-modified-since'') = 0 \<longleftrightarrow>
      lower name = ''if-modified-since''"
    using first_ci_test[OF assms(1), of "''f-modified-since''" "CHR ''i''"] assms(2) by simp
  have e1: "or20 (name ! 0) = CHR ''s'' \<and> strncasecmp (drop 1 name) ''ec-websocket-key'' (length ''ec-websocket-key'') = 0 \<longleftrightarrow>
      lower name = ''sec-websocket-key''"
    using first_ci_test[OF assms(1), of "''ec-websocket-key''" "CHR ''s''"] assms(2) by simp
  have e2: "or20 (name ! 0) = CHR ''t'' \<and> strncasecmp (drop 1 name) ''ransfer-encoding'' (length ''ransfer-encoding'') = 0 \<longleftrightarrow>
      lower name = ''transfer-encoding''"
    using first_ci_test[OF assms(1), of "''ransfer-encoding''" "CHR ''t''"] assms(2) by simp
  show ?thesis
    unfolding intern_unfold by (simp only: e0 e1 e2, simp add: assms(2) lower_len)
qed

lemma intern_14:
  assumes "CR \<notin> set name" "length name = 14"
  shows "csilk_header_id_from_name (Some name) = intern_ref name"
proof -
  have e: "W8 name = 0x2d746e65746e6f63 \<and> W4 name 8 = 0x676e656c \<and> W2 name 12 = 0x6874 \<longleftrightarrow>
      lower name = ''content-length''"
    using word_layout_14[OF assms] unfolding word_consts by simp
  show ?thesis
    unfolding intern_unfold by (simp only: e, simp add: assms(2) lower_len)
qed

lemma intern_15:
  assumes "CR \<notin> set name" "length name = 15"
  shows "csilk_header_id_from_name (Some name) = intern_ref name"
proof -
  have e0: "strncasecmp (drop 0 name) ''accept-encoding'' (length ''accept-encoding'') = 0 \<longleftrightarrow> lower name = ''accept-encoding''"
    using ci_test[of name "''accept-encoding''"] assms(2) by simp
  have e1: "strncasecmp (drop 0 name) ''accept-language'' (length ''accept-language'') = 0 \<longleftrightarrow> lower name = ''accept-language''"
    using ci_test[of name "''accept-language''"] assms(2) by simp
  have e2: "strncasecmp (drop 0 name) ''x-forwarded-for'' (length ''x-forwarded-for'') = 0 \<longleftrightarrow> lower name = ''x-forwarded-for''"
    using ci_test[of name "''x-forwarded-for''"] assms(2) by simp
  have c1: "or20 (name ! 1) = CHR ''c''" "or20 (name ! 7) = CHR ''e''" if "lower name = ''accept-encoding''"
    using lower_nth_or20[OF assms(1) that, of 1] lower_nth_or20[OF assms(1) that, of 7]
    by (simp_all add: folded_def byte_def)
  have c2: "or20 (name ! 1) = CHR ''c''" "or20 (name ! 7) = CHR ''l''" if "lower name = ''accept-language''"
    using lower_nth_or20[OF assms(1) that, of 1] lower_nth_or20[OF assms(1) that, of 7]
    by (simp_all add: folded_def byte_def)
  have c3: "or20 (name ! 1) = CHR ''-''" if "lower name = ''x-forwarded-for''"
    using lower_nth_or20[OF assms(1) that, of 1] by (simp add: folded_def byte_def)
  show ?thesis
    unfolding intern_unfold using c1 c2 c3 by (simp only: e0 e1 e2, auto simp: assms(2) lower_len)
qed

lemma intern_other:
  assumes "CR \<notin> set name" "length name \<notin> {4, 6, 7, 8, 10, 12, 13, 14, 15, 17}"
  shows "csilk_header_id_from_name (Some name) = intern_ref name"
proof -
  have e0: "length name = 9 \<Longrightarrow> strncasecmp (drop 0 name) ''x-real-ip'' (length ''x-real-ip'') = 0 \<longleftrightarrow> lower name = ''x-real-ip''"
    using ci_test[of name "''x-real-ip''"] by simp
  have e1: "length name = 16 \<Longrightarrow> strncasecmp (drop 0 name) ''content-encoding'' (length ''content-encoding'') = 0 \<longleftrightarrow> lower name = ''content-encoding''"
    using ci_test[of name "''content-encoding''"] by simp
  have e2: "length name = 21 \<Longrightarrow> strncasecmp (drop 0 name) ''sec-websocket-version'' (length ''sec-websocket-version'') = 0 \<longleftrightarrow> lower name = ''sec-websocket-version''"
    using ci_test[of name "''sec-websocket-version''"] by simp
  have e3: "length name = 22 \<Longrightarrow> strncasecmp (drop 0 name) ''sec-websocket-protocol'' (length ''sec-websocket-protocol'') = 0 \<longleftrightarrow> lower name = ''sec-websocket-protocol''"
    using ci_test[of name "''sec-websocket-protocol''"] by simp
  have e4: "length name = 24 \<Longrightarrow> strncasecmp (drop 0 name) ''sec-websocket-extensions'' (length ''sec-websocket-extensions'') = 0 \<longleftrightarrow> lower name = ''sec-websocket-extensions''"
    using ci_test[of name "''sec-websocket-extensions''"] by simp
  consider "length name = 9" | "length name = 16" | "length name = 21" | "length name = 22" | "length name = 24"
    | "length name \<notin> {4, 6, 7, 8, 9, 10, 12, 13, 14, 15, 16, 17, 21, 22, 24}"
    using assms(2) by blast
  then show ?thesis
  proof cases
    case 1
    show ?thesis unfolding intern_unfold by (simp only: e0[OF 1], simp add: 1 lower_len)
  next
    case 2
    show ?thesis unfolding intern_unfold by (simp only: e1[OF 2], simp add: 2 lower_len)
  next
    case 3
    show ?thesis unfolding intern_unfold by (simp only: e2[OF 3], simp add: 3 lower_len)
  next
    case 4
    show ?thesis unfolding intern_unfold by (simp only: e3[OF 4], simp add: 4 lower_len)
  next
    case 5
    show ?thesis unfolding intern_unfold by (simp only: e4[OF 5], simp add: 5 lower_len)
  next
    case 6
    have "\<forall>k\<in>fst ` set intern_table. length k \<in> {4, 6, 7, 8, 9, 10, 12, 13, 14, 15, 16, 17, 21, 22, 24}"
      by (simp add: intern_table_eq)
    then have "lower name \<notin> fst ` set intern_table" using 6 by (metis length_map)
    then have "map_of intern_table (lower name) = None" by (simp add: map_of_eq_None_iff)
    then show ?thesis
      using 6 by (simp add: intern_ref_table csilk_header_id_from_name_def Let_def)
  qed
qed

lemma intern_correct:
  assumes "CR \<notin> set name"
  shows "csilk_header_id_from_name (Some name) = intern_ref name"
  using assms intern_4 intern_6 intern_7 intern_8 intern_10 intern_12 intern_13 intern_14 intern_15
    intern_17 intern_other
  by (cases "length name \<in> {4, 6, 7, 8, 10, 12, 13, 14, 15, 17}") auto

end
