(* ===== verification/Header_Map.thy ===== *)
theory Header_Map
  imports Header_Intern
begin

text \<open>
  Model of the maps of src/core/primitives/header_map.c: the case-folding hash, the header map with
  its direct slots and hash chains, and the key-value map of query and form parameters.

  The nodes of a map live in a store (a list; a pointer is an index), because a node is reachable
  both from its hash chain and from its direct slot, and an update through one is seen through the
  other. A chain (the \<open>next\<close> pointers from a bucket head) is the list of its nodes. The arena of the
  context is the \<open>heap\<close> of outcomes of its coming allocations, \<open>None\<close> standing for a NULL context or
  arena; a result \<open>None\<close> of an operation is undefined behaviour (a comparison with a NULL key).
\<close>

unbundle bit_operations_syntax

section \<open>Data\<close>

record csilk_header =
  h_key :: "string option"
  h_value :: "string option"
  h_key_len :: nat
  h_value_len :: nat
  h_hash :: u32
  h_id :: csilk_header_id

record csilk_kv_map =
  kv_nodes :: "csilk_header list"
  kv_buckets :: "nat list list"
  kv_used :: bool

record csilk_header_map =
  hm_nodes :: "csilk_header list"
  hm_known :: "csilk_header_id \<Rightarrow> nat option"
  hm_buckets :: "nat list list"
  hm_count :: u16
  hm_used :: bool

text \<open>A view is a pointer and a length.\<close>

type_synonym csilk_view = "string option \<times> nat"

section \<open>The hash\<close>

definition hash_step :: "u32 \<Rightarrow> char \<Rightarrow> u32" where
  "hash_step hash c = (push_bit 5 hash + hash) + of_nat (byte (tolower c))"

fun header_hash_loop :: "string \<Rightarrow> u32 \<Rightarrow> nat \<Rightarrow> u32 \<times> nat" where
  "header_hash_loop [] hash len = (hash, len)"
| "header_hash_loop (c # cs) hash len =
     (if c = NUL then (hash, len) else header_hash_loop cs (hash_step hash c) (len + 1))"

definition header_hash :: "string \<Rightarrow> u32 \<times> nat" where
  "header_hash key = header_hash_loop key 5381 0"

definition header_hash_view :: "string \<Rightarrow> u32" where
  "header_hash_view data = foldl hash_step 5381 data"

definition HEADER_BUCKETS :: nat where
  [c_defs]: "HEADER_BUCKETS = 16"

definition bucket_of :: "u32 \<Rightarrow> nat" where
  "bucket_of hash = unat (hash AND 15)"

definition hash_key :: "string option \<Rightarrow> u32" where
  "hash_key k = (case k of None \<Rightarrow> 0 | Some key \<Rightarrow> fst (header_hash key) AND 15)"

section \<open>Lookups\<close>

text \<open>
  The search along a hash chain: hash and length first, then \<open>memcmp\<close> or \<open>strncasecmp\<close>. Comparing
  with a NULL key is undefined.
\<close>

fun chain_find :: "csilk_header list \<Rightarrow> nat list \<Rightarrow> u32 \<Rightarrow> string \<Rightarrow> nat option option" where
  "chain_find nodes [] hash key = Some None"
| "chain_find nodes (p # ps) hash key =
     (let h = nodes ! p in
      if h_hash h = hash \<and> h_key_len h = length key then
        (case h_key h of
           None \<Rightarrow> None
         | Some k \<Rightarrow>
             if take (length key) k = key \<or> strncasecmp k key (length key) = 0 then Some (Some p)
             else chain_find nodes ps hash key)
      else chain_find nodes ps hash key)"

definition view_of :: "csilk_header \<Rightarrow> csilk_view" where
  "view_of h = (h_value h,
     if h_value_len h \<noteq> 0 then h_value_len h
     else case h_value h of Some v \<Rightarrow> length (takeWhile (\<lambda>c. c \<noteq> NUL) v) | None \<Rightarrow> 0)"

definition map_get_id :: "csilk_header_map \<Rightarrow> csilk_header_id \<Rightarrow> string option" where
  "map_get_id m hid = (if hid = HDR_UNKNOWN then None
     else case hm_known m hid of None \<Rightarrow> None | Some p \<Rightarrow> h_value (hm_nodes m ! p))"

definition map_get_id_view :: "csilk_header_map \<Rightarrow> csilk_header_id \<Rightarrow> csilk_view" where
  "map_get_id_view m hid = (if hid = HDR_UNKNOWN then (None, 0)
     else case hm_known m hid of None \<Rightarrow> (None, 0) | Some p \<Rightarrow> view_of (hm_nodes m ! p))"

definition known_slot :: "csilk_header_map \<Rightarrow> csilk_header_id \<Rightarrow> nat option" where
  "known_slot m hid = (if hid \<noteq> HDR_UNKNOWN then hm_known m hid else None)"

definition map_get :: "csilk_header_map \<Rightarrow> string option \<Rightarrow> string option option" where
  "map_get m key = (case key of
     None \<Rightarrow> Some None
   | Some key \<Rightarrow>
       (case known_slot m (csilk_header_id_from_name (Some key)) of
          Some p \<Rightarrow> Some (h_value (hm_nodes m ! p))
        | None \<Rightarrow>
            let hash = fst (header_hash key) in
            (case chain_find (hm_nodes m) (hm_buckets m ! bucket_of hash) hash key of
               None \<Rightarrow> None
             | Some None \<Rightarrow> Some None
             | Some (Some p) \<Rightarrow> Some (h_value (hm_nodes m ! p)))))"

definition map_get_view :: "csilk_header_map \<Rightarrow> string option \<Rightarrow> csilk_view option" where
  "map_get_view m key = (case key of
     None \<Rightarrow> Some (None, 0)
   | Some key \<Rightarrow>
       if \<not> hm_used m \<or> deref key = NUL then Some (None, 0)
       else
         (case known_slot m (csilk_header_id_from_name (Some key)) of
            Some p \<Rightarrow> Some (view_of (hm_nodes m ! p))
          | None \<Rightarrow>
              let hash = fst (header_hash key) in
              (case chain_find (hm_nodes m) (hm_buckets m ! bucket_of hash) hash key of
                 None \<Rightarrow> None
               | Some None \<Rightarrow> Some (None, 0)
               | Some (Some p) \<Rightarrow> Some (view_of (hm_nodes m ! p)))))"

section \<open>Insertion and update\<close>

definition arena_strndup :: "heap \<Rightarrow> string \<Rightarrow> string option \<times> heap" where
  "arena_strndup al s = (case malloc al of (ok, al) \<Rightarrow> (if ok then Some s else None, al))"

definition strip_crlf :: "string \<Rightarrow> string" where
  "strip_crlf s = filter (\<lambda>c. c \<noteq> CR \<and> c \<noteq> LF) s"

definition sanitize_header_str :: "heap \<Rightarrow> string \<Rightarrow> string option \<times> heap" where
  "sanitize_header_str al s =
     (case malloc al of (ok, al) \<Rightarrow> (if ok then Some (strip_crlf s) else None, al))"

definition set_value :: "csilk_header_map \<Rightarrow> nat \<Rightarrow> string option \<Rightarrow> nat \<Rightarrow> csilk_header_map" where
  "set_value m p v len = m\<lparr>hm_nodes := (hm_nodes m)[p := (hm_nodes m ! p)\<lparr>h_value := v, h_value_len := len\<rparr>]\<rparr>"

definition set_known :: "csilk_header_map \<Rightarrow> csilk_header_id \<Rightarrow> nat \<Rightarrow> csilk_header_map" where
  "set_known m hid p = (if hid \<noteq> HDR_UNKNOWN then m\<lparr>hm_known := (hm_known m)(hid := Some p)\<rparr> else m)"

text \<open>The new node becomes the head of its chain, and the direct slot of its identifier.\<close>

definition push_header :: "csilk_header_map \<Rightarrow> csilk_header \<Rightarrow> csilk_header_map" where
  "push_header m h = (let b = bucket_of (h_hash h); p = length (hm_nodes m) in
     set_known (m\<lparr>hm_nodes := hm_nodes m @ [h],
                  hm_buckets := (hm_buckets m)[b := p # hm_buckets m ! b],
                  hm_count := hm_count m + 1\<rparr>) (h_id h) p)"

definition map_set_view ::
  "heap option \<Rightarrow> csilk_header_map \<Rightarrow> string option \<Rightarrow> string option \<Rightarrow>
   (csilk_header_map \<times> heap option) option" where
  "map_set_view ar m key value = (case (ar, key, value) of
     (Some al, Some k, Some v) \<Rightarrow>
       let m = m\<lparr>hm_used := True\<rparr>;
           hid = csilk_header_id_from_name (Some k);
           hash = header_hash_view k in
       (case known_slot m hid of
          Some p \<Rightarrow> (case arena_strndup al v of (nv, al) \<Rightarrow> Some (set_value m p nv (length v), Some al))
        | None \<Rightarrow>
            (case chain_find (hm_nodes m) (hm_buckets m ! bucket_of hash) hash k of
               None \<Rightarrow> None
             | Some (Some p) \<Rightarrow>
                 (case arena_strndup al v of (nv, al) \<Rightarrow>
                    Some (set_known (set_value m p nv (length v)) hid p, Some al))
             | Some None \<Rightarrow>
                 (case malloc al of (ok, al) \<Rightarrow>
                    if \<not> ok then Some (m, Some al)
                    else (case arena_strndup al k of (nk, al) \<Rightarrow>
                          (case arena_strndup al v of (nv, al) \<Rightarrow>
                             Some (push_header m \<lparr>h_key = nk, h_value = nv, h_key_len = length k,
                                     h_value_len = length v, h_hash = hash, h_id = hid\<rparr>, Some al))))))
   | _ \<Rightarrow> Some (m, ar))"

text \<open>
  \<open>map_set\<close> and \<open>map_add\<close> begin with the same two sanitised copies: \<open>sanitize_pair\<close> gives them, or
  nothing when the function returns early (an allocation failed, or nothing is left of the key).
\<close>

definition sanitize_pair :: "heap \<Rightarrow> string \<Rightarrow> string \<Rightarrow> (string \<times> string) option \<times> heap" where
  "sanitize_pair al key value =
     (case sanitize_header_str al key of (ck, al) \<Rightarrow>
        (case ck of
           None \<Rightarrow> (None, al)
         | Some k \<Rightarrow>
             if length k = 0 then (None, al)
             else (case sanitize_header_str al value of (cv, al) \<Rightarrow>
                     (case cv of None \<Rightarrow> (None, al) | Some v \<Rightarrow> (Some (k, v), al)))))"

definition map_set ::
  "heap option \<Rightarrow> csilk_header_map \<Rightarrow> string option \<Rightarrow> string option \<Rightarrow>
   (csilk_header_map \<times> heap option) option" where
  "map_set ar m key value = (case (ar, key, value) of
     (Some al, Some key, Some value) \<Rightarrow>
       let m = m\<lparr>hm_used := True\<rparr> in
       (case sanitize_pair al key value of
          (None, al) \<Rightarrow> Some (m, Some al)
        | (Some (k, v), al) \<Rightarrow>
            let hash = header_hash_view k; hid = csilk_header_id_from_name (Some k) in
            (case known_slot m hid of
               Some p \<Rightarrow> Some (set_value m p (Some v) (length v), Some al)
             | None \<Rightarrow>
                 (case chain_find (hm_nodes m) (hm_buckets m ! bucket_of hash) hash k of
                    None \<Rightarrow> None
                  | Some (Some p) \<Rightarrow>
                      Some (set_known (set_value m p (Some v) (length v)) hid p, Some al)
                  | Some None \<Rightarrow>
                      (case malloc al of (ok, al) \<Rightarrow>
                         if \<not> ok then Some (m, Some al)
                         else Some (push_header m \<lparr>h_key = Some k, h_value = Some v, h_key_len = length k,
                                     h_value_len = length v, h_hash = hash, h_id = hid\<rparr>, Some al)))))
   | _ \<Rightarrow> Some (m, ar))"

definition map_add ::
  "heap option \<Rightarrow> csilk_header_map \<Rightarrow> string option \<Rightarrow> string option \<Rightarrow>
   csilk_header_map \<times> heap option" where
  "map_add ar m key value = (case (ar, key, value) of
     (Some al, Some key, Some value) \<Rightarrow>
       let m = m\<lparr>hm_used := True\<rparr> in
       (case sanitize_pair al key value of
          (None, al) \<Rightarrow> (m, Some al)
        | (Some (k, v), al) \<Rightarrow>
            (case malloc al of (ok, al) \<Rightarrow>
               if \<not> ok then (m, Some al)
               else (push_header m \<lparr>h_key = Some k, h_value = Some v, h_key_len = length k,
                       h_value_len = length v, h_hash = header_hash_view k,
                       h_id = csilk_header_id_from_name (Some k)\<rparr>, Some al)))
   | _ \<Rightarrow> (m, ar))"

section \<open>The key-value map\<close>

definition map_kv_get :: "csilk_kv_map \<Rightarrow> string option \<Rightarrow> string option option" where
  "map_kv_get m key = (case key of
     None \<Rightarrow> Some None
   | Some key \<Rightarrow>
       let hash = fst (header_hash key) in
       (case chain_find (kv_nodes m) (kv_buckets m ! bucket_of hash) hash key of
          None \<Rightarrow> None
        | Some None \<Rightarrow> Some None
        | Some (Some p) \<Rightarrow> Some (h_value (kv_nodes m ! p))))"

definition map_kv_get_view :: "csilk_kv_map \<Rightarrow> string option \<Rightarrow> csilk_view option" where
  "map_kv_get_view m key = (case key of
     None \<Rightarrow> Some (None, 0)
   | Some key \<Rightarrow>
       if \<not> kv_used m \<or> deref key = NUL then Some (None, 0)
       else
         let hash = fst (header_hash key) in
         (case chain_find (kv_nodes m) (kv_buckets m ! bucket_of hash) hash key of
            None \<Rightarrow> None
          | Some None \<Rightarrow> Some (None, 0)
          | Some (Some p) \<Rightarrow> Some (view_of (kv_nodes m ! p))))"

definition push_kv :: "csilk_kv_map \<Rightarrow> csilk_header \<Rightarrow> csilk_kv_map" where
  "push_kv m h = (let b = bucket_of (h_hash h); p = length (kv_nodes m) in
     m\<lparr>kv_nodes := kv_nodes m @ [h], kv_buckets := (kv_buckets m)[b := p # kv_buckets m ! b]\<rparr>)"

definition map_kv_add ::
  "heap option \<Rightarrow> csilk_kv_map \<Rightarrow> string option \<Rightarrow> string option \<Rightarrow> csilk_kv_map \<times> heap option" where
  "map_kv_add ar m key value = (case (ar, key, value) of
     (Some al, Some key, Some value) \<Rightarrow>
       let m = m\<lparr>kv_used := True\<rparr> in
       (case sanitize_pair al key value of
          (None, al) \<Rightarrow> (m, Some al)
        | (Some (k, v), al) \<Rightarrow>
            (case malloc al of (ok, al) \<Rightarrow>
               if \<not> ok then (m, Some al)
               else (push_kv m \<lparr>h_key = Some k, h_value = Some v, h_key_len = length k,
                       h_value_len = length v, h_hash = header_hash_view k, h_id = HDR_UNKNOWN\<rparr>, Some al)))
   | _ \<Rightarrow> (m, ar))"

text \<open>The zeroed maps of a fresh context.\<close>

definition empty_header_map :: csilk_header_map where
  "empty_header_map = \<lparr>hm_nodes = [], hm_known = (\<lambda>_. None), hm_buckets = replicate HEADER_BUCKETS [],
     hm_count = 0, hm_used = False\<rparr>"

definition empty_kv_map :: csilk_kv_map where
  "empty_kv_map = \<lparr>kv_nodes = [], kv_buckets = replicate HEADER_BUCKETS [], kv_used = False\<rparr>"

section \<open>Hashes and identifiers of names that differ in case only\<close>

lemma tolower_idem [simp]: "tolower (tolower c) = tolower c"
proof (cases "65 \<le> byte c \<and> byte c \<le> 90")
  case True
  then have "byte c div 32 = 2" by (intro div_nat_eqI) auto
  then have "\<not> bit (byte c) 5" by (simp add: bit_iff_odd)
  then have "byte (or20 c) = byte c + 32" by (simp add: byte_or20 or32_nat)
  with True have "\<not> byte (or20 c) \<le> 90" by simp
  with True show ?thesis by (simp add: tolower_def)
next
  case False
  then have "tolower c = c" by (auto simp: tolower_def)
  then show ?thesis by simp
qed

lemma lower_idem [simp]: "lower (lower k) = lower k"
  by simp

lemma header_hash_view_lower: "header_hash_view (lower k) = header_hash_view k"
proof -
  have "foldl hash_step h (lower k) = foldl hash_step h k" for h
    by (induction k arbitrary: h) (simp_all add: hash_step_def)
  then show ?thesis by (simp add: header_hash_view_def)
qed

lemma header_hash_view_cong: "lower k = lower k' \<Longrightarrow> header_hash_view k = header_hash_view k'"
  by (metis header_hash_view_lower)

lemma header_hash_eq: "NUL \<notin> set key \<Longrightarrow> header_hash key = (header_hash_view key, length key)"
proof -
  have "NUL \<notin> set key \<Longrightarrow> header_hash_loop key h n = (foldl hash_step h key, n + length key)" for h n
    by (induction key arbitrary: h n) auto
  then show "NUL \<notin> set key \<Longrightarrow> header_hash key = (header_hash_view key, length key)"
    by (simp add: header_hash_def header_hash_view_def)
qed

lemma bucket_of_less [simp]: "bucket_of h < 16"
proof -
  have "h AND 15 = take_bit 4 h" by (simp add: take_bit_eq_mask mask_eq_exp_minus_1)
  then have "bucket_of h = take_bit 4 (unat h)" by (simp only: bucket_of_def unsigned_take_bit_eq)
  then show ?thesis by (simp add: take_bit_eq_mod)
qed

lemma known_ids_set: "hid \<in> set known_ids \<longleftrightarrow> hid \<noteq> HDR_UNKNOWN"
  by (cases hid) (simp_all add: known_ids_def)

lemma known_names_distinct: "distinct (map (\<lambda>hid. lower (csilk_header_id_name hid)) known_ids)"
proof -
  have "map (\<lambda>hid. lower (csilk_header_id_name hid)) known_ids = map fst intern_table"
    by (simp only: intern_table_def map_map comp_def fst_conv)
  then show ?thesis by (simp add: intern_table_eq)
qed

lemma find_distinct_map:
  "distinct (map f xs) \<Longrightarrow> x \<in> set xs \<Longrightarrow> List.find (\<lambda>y. f y = k) xs = Some x \<longleftrightarrow> f x = k"
proof
  show "List.find (\<lambda>y. f y = k) xs = Some x \<Longrightarrow> f x = k" by (auto simp: find_Some_iff)
  show "distinct (map f xs) \<Longrightarrow> x \<in> set xs \<Longrightarrow> f x = k \<Longrightarrow> List.find (\<lambda>y. f y = k) xs = Some x"
    by (induction xs) auto
qed

lemma intern_eq_iff:
  assumes "CR \<notin> set k" "hid \<noteq> HDR_UNKNOWN"
  shows "csilk_header_id_from_name (Some k) = hid \<longleftrightarrow> lower k = lower (csilk_header_id_name hid)"
proof -
  have mem: "hid \<in> set known_ids" using assms(2) by (simp add: known_ids_set)
  note f = find_distinct_map[OF known_names_distinct mem, of "lower k"]
  have "intern_ref k = hid \<longleftrightarrow>
      List.find (\<lambda>id. lower (csilk_header_id_name id) = lower k) known_ids = Some hid"
    using assms(2) by (auto simp: intern_ref_def split: option.splits)
  then show ?thesis using f intern_correct[OF assms(1)] by auto
qed

lemma intern_cong:
  assumes "CR \<notin> set k" "CR \<notin> set k'" "lower k = lower k'"
  shows "csilk_header_id_from_name (Some k) = csilk_header_id_from_name (Some k')"
  unfolding intern_correct[OF assms(1)] intern_correct[OF assms(2)] intern_ref_def assms(3) ..

lemma CR_lower_iff: "CR \<in> set (lower k) \<longleftrightarrow> CR \<in> set k"
proof -
  have "tolower c = CR \<longleftrightarrow> c = CR" for c
  proof -
    have "byte (or20 c) \<noteq> 13" if "65 \<le> byte c"
    proof -
      have "byte (or20 c) \<ge> byte c" by (simp add: byte_or20 or32_nat)
      with that show ?thesis by simp
    qed
    moreover have "byte CR = 13" by (simp add: byte_def)
    ultimately show ?thesis by (auto simp: tolower_def)
  qed
  then show ?thesis by (simp add: image_iff) metis
qed

section \<open>The invariant and the abstract map\<close>

text \<open>
  A chained table is well formed if every chain holds allocated nodes with a key, their cached
  length and hash, and lies in the bucket of that hash. Abstractly a table is a map from names, up
  to case, to values: the first node of the chain whose key matches.
\<close>

definition key_is :: "csilk_header \<Rightarrow> string \<Rightarrow> bool" where
  "key_is h k = (case h_key h of None \<Rightarrow> False | Some k' \<Rightarrow> lower k' = lower k)"

definition node_ok :: "csilk_header \<Rightarrow> bool" where
  "node_ok h = (case (h_key h, h_value h) of
     (Some k, Some v) \<Rightarrow> NUL \<notin> set k \<and> CR \<notin> set k \<and> h_key_len h = length k
       \<and> h_hash h = header_hash_view k \<and> h_value_len h = length v
   | _ \<Rightarrow> False)"

definition wf_chains :: "csilk_header list \<Rightarrow> nat list list \<Rightarrow> bool" where
  "wf_chains nodes buckets = (length buckets = 16 \<and>
     (\<forall>b < 16. \<forall>p\<in>set (buckets ! b).
        p < length nodes \<and> node_ok (nodes ! p) \<and> bucket_of (h_hash (nodes ! p)) = b))"

definition find_key :: "csilk_header list \<Rightarrow> nat list list \<Rightarrow> string \<Rightarrow> nat option" where
  "find_key nodes buckets k =
     List.find (\<lambda>p. key_is (nodes ! p) k) (buckets ! bucket_of (header_hash_view k))"

definition chains_lookup :: "csilk_header list \<Rightarrow> nat list list \<Rightarrow> string \<Rightarrow> string option" where
  "chains_lookup nodes buckets k =
     (case find_key nodes buckets k of None \<Rightarrow> None | Some p \<Rightarrow> h_value (nodes ! p))"

definition wf_hmap :: "csilk_header_map \<Rightarrow> bool" where
  "wf_hmap m = (wf_chains (hm_nodes m) (hm_buckets m) \<and>
     (\<forall>hid\<in>set known_ids. hm_known m hid = find_key (hm_nodes m) (hm_buckets m) (csilk_header_id_name hid)))"

definition hm_lookup :: "csilk_header_map \<Rightarrow> string \<Rightarrow> string option" where
  "hm_lookup m = chains_lookup (hm_nodes m) (hm_buckets m)"

definition wf_kv :: "csilk_kv_map \<Rightarrow> bool" where
  "wf_kv m = wf_chains (kv_nodes m) (kv_buckets m)"

definition kv_lookup :: "csilk_kv_map \<Rightarrow> string \<Rightarrow> string option" where
  "kv_lookup m = chains_lookup (kv_nodes m) (kv_buckets m)"

lemma key_is_cong: "lower k = lower k' \<Longrightarrow> key_is h k = key_is h k'"
  by (cases "h_key h") (simp_all add: key_is_def)

lemma find_key_cong: "lower k = lower k' \<Longrightarrow> find_key nodes buckets k = find_key nodes buckets k'"
  using header_hash_view_cong[of k k'] key_is_cong[of k k'] by (simp add: find_key_def)

lemma chains_lookup_cong:
  "lower k = lower k' \<Longrightarrow> chains_lookup nodes buckets k = chains_lookup nodes buckets k'"
  using find_key_cong[of k k'] by (simp add: chains_lookup_def)

lemma find_cong': "(\<And>x. x \<in> set xs \<Longrightarrow> P x = Q x) \<Longrightarrow> List.find P xs = List.find Q xs"
  by (induction xs) auto

lemma wf_chainsD:
  assumes "wf_chains nodes buckets" "b < 16" "p \<in> set (buckets ! b)"
  shows "p < length nodes" "node_ok (nodes ! p)" "bucket_of (h_hash (nodes ! p)) = b"
  using assms by (auto simp: wf_chains_def)

lemma node_okE:
  assumes "node_ok h"
  obtains k v where "h_key h = Some k" "h_value h = Some v" "NUL \<notin> set k" "CR \<notin> set k"
    "h_key_len h = length k" "h_hash h = header_hash_view k" "h_value_len h = length v"
  using assms by (auto simp: node_ok_def split: option.splits)

text \<open>The comparisons of the search loop decide case-insensitive equality.\<close>

lemma chain_find_eq:
  assumes "\<forall>p\<in>set ps. node_ok (nodes ! p)" "NUL \<notin> set key"
  shows "chain_find nodes ps (header_hash_view key) key = Some (List.find (\<lambda>p. key_is (nodes ! p) key) ps)"
  using assms(1)
proof (induction ps)
  case (Cons p ps)
  from Cons.prems obtain k v where k: "h_key (nodes ! p) = Some k" "NUL \<notin> set k"
    "h_key_len (nodes ! p) = length k" "h_hash (nodes ! p) = header_hash_view k"
    by (auto elim: node_okE)
  have IH: "chain_find nodes ps (header_hash_view key) key = Some (List.find (\<lambda>p. key_is (nodes ! p) key) ps)"
    using Cons by simp
  show ?case
  proof (cases "lower k = lower key")
    case True
    then have "length k = length key" by (rule map_eq_imp_length_eq)
    then have "strncasecmp k key (length key) = 0"
      using strncasecmp_lit_iff[OF assms(2)] True by blast
    then show ?thesis
      using True k \<open>length k = length key\<close> header_hash_view_cong[OF True] by (simp add: key_is_def)
  next
    case False
    have "\<not> (take (length key) k = key \<or> strncasecmp k key (length key) = 0)" if "length k = length key"
      using strncasecmp_lit_iff[OF assms(2) that] that False by auto
    then show ?thesis
      using False k IH by (simp add: key_is_def)
  qed
qed simp

lemma chain_find_wf:
  assumes "wf_chains nodes buckets" "NUL \<notin> set key"
  shows "chain_find nodes (buckets ! bucket_of (header_hash_view key)) (header_hash_view key) key
    = Some (find_key nodes buckets key)"
  unfolding find_key_def using wf_chainsD(2)[OF assms(1) bucket_of_less] assms(2)
  by (intro chain_find_eq) auto

lemma find_keyD:
  assumes "wf_chains nodes buckets" "find_key nodes buckets k = Some p"
  shows "p < length nodes" "node_ok (nodes ! p)" "key_is (nodes ! p) k"
proof -
  have "p \<in> set (buckets ! bucket_of (header_hash_view k)) \<and> key_is (nodes ! p) k"
    using assms(2) by (auto simp: find_key_def find_Some_iff)
  then show "p < length nodes" "node_ok (nodes ! p)" "key_is (nodes ! p) k"
    using wf_chainsD(1,2)[OF assms(1) bucket_of_less] by auto
qed

text \<open>Pushing a node in front of its chain.\<close>

lemma wf_chains_push:
  assumes "wf_chains nodes buckets" "node_ok h" "b = bucket_of (h_hash h)"
  shows "wf_chains (nodes @ [h]) (buckets[b := length nodes # buckets ! b])"
proof -
  have len: "length buckets = 16" using assms(1) by (simp add: wf_chains_def)
  have old: "p < Suc (length nodes) \<and> node_ok ((nodes @ [h]) ! p) \<and> bucket_of (h_hash ((nodes @ [h]) ! p)) = c"
    if "c < 16" "p \<in> set (buckets ! c)" for c p
    using wf_chainsD[OF assms(1) that] by (simp add: nth_append)
  show ?thesis
    unfolding wf_chains_def using len old assms(2,3) by (auto simp: nth_list_update)
qed

lemma find_key_push:
  assumes "wf_chains nodes buckets" "node_ok h" "b = bucket_of (h_hash h)"
  shows "find_key (nodes @ [h]) (buckets[b := length nodes # buckets ! b]) k
    = (if key_is h k then Some (length nodes) else find_key nodes buckets k)"
proof -
  let ?b = "bucket_of (header_hash_view k)"
  have old: "List.find (\<lambda>p. key_is ((nodes @ [h]) ! p) k) (buckets ! ?b) = find_key nodes buckets k"
    unfolding find_key_def using wf_chainsD(1)[OF assms(1) bucket_of_less]
    by (intro find_cong') (simp add: nth_append)
  have len: "length buckets = 16" using assms(1) by (simp add: wf_chains_def)
  obtain k' where k': "h_key h = Some k'" "h_hash h = header_hash_view k'"
    using assms(2) by (rule node_okE)
  have "b = ?b" if "key_is h k"
    using that k' assms(3) header_hash_view_cong[of k' k] by (simp add: key_is_def)
  then show ?thesis
    using old len by (auto simp: find_key_def nth_list_update assms(3))
qed

lemma chains_lookup_push:
  assumes "wf_chains nodes buckets" "node_ok h" "b = bucket_of (h_hash h)"
  shows "chains_lookup (nodes @ [h]) (buckets[b := length nodes # buckets ! b]) k
    = (if key_is h k then h_value h else chains_lookup nodes buckets k)"
  using find_keyD(1)[OF assms(1)]
  by (auto simp: chains_lookup_def find_key_push[OF assms] nth_append split: option.splits)

text \<open>Replacing the value of the node found for a name.\<close>

abbreviation with_value :: "csilk_header \<Rightarrow> string \<Rightarrow> csilk_header" where
  "with_value h v \<equiv> h\<lparr>h_value := Some v, h_value_len := length v\<rparr>"

lemma node_ok_with_value: "node_ok h \<Longrightarrow> node_ok (with_value h v)"
  by (auto simp: node_ok_def split: option.splits)

lemma find_key_update:
  "find_key (nodes[p := with_value (nodes ! p) v]) buckets k = find_key nodes buckets k"
proof -
  have "key_is (nodes[p := with_value (nodes ! p) v] ! q) k = key_is (nodes ! q) k" for q
    by (cases "q = p"; cases "p < length nodes") (simp_all add: key_is_def list_update_beyond)
  then show ?thesis by (simp add: find_key_def)
qed

lemma wf_chains_update:
  assumes "wf_chains nodes buckets"
  shows "wf_chains (nodes[p := with_value (nodes ! p) v]) buckets"
proof -
  have "q < length nodes \<and> node_ok (nodes[p := with_value (nodes ! p) v] ! q)
      \<and> bucket_of (h_hash (nodes[p := with_value (nodes ! p) v] ! q)) = b"
    if "b < 16" "q \<in> set (buckets ! b)" for b q
    using wf_chainsD[OF assms that] node_ok_with_value by (cases "q = p") auto
  moreover have "length buckets = 16" using assms by (simp add: wf_chains_def)
  ultimately show ?thesis by (simp add: wf_chains_def)
qed

lemma chains_lookup_update:
  assumes "wf_chains nodes buckets" "find_key nodes buckets k = Some p"
  shows "chains_lookup (nodes[p := with_value (nodes ! p) v]) buckets k'
    = (if lower k' = lower k then Some v else chains_lookup nodes buckets k')"
proof (cases "lower k' = lower k")
  case True
  then have "find_key nodes buckets k' = Some p" using assms(2) find_key_cong[OF True] by simp
  then show ?thesis
    using True find_keyD(1)[OF assms] by (simp add: chains_lookup_def find_key_update)
next
  case False
  have "q \<noteq> p" if "find_key nodes buckets k' = Some q" for q
    using find_keyD(3)[OF assms(1) that] find_keyD(3)[OF assms] False
    by (auto simp: key_is_def split: option.splits)
  then show ?thesis
    using False by (auto simp: chains_lookup_def find_key_update split: option.splits)
qed

section \<open>Every operation refines the abstract map\<close>

lemma wf_chains_empty: "wf_chains [] (replicate 16 [])"
  by (simp add: wf_chains_def)

lemma find_key_empty: "find_key nodes (replicate 16 []) k = None"
  by (simp add: find_key_def)

lemma wf_empty_header_map: "wf_hmap empty_header_map"
  by (simp add: wf_hmap_def empty_header_map_def HEADER_BUCKETS_def wf_chains_empty find_key_empty)

lemma hm_lookup_empty: "hm_lookup empty_header_map k = None"
  by (simp add: hm_lookup_def chains_lookup_def empty_header_map_def HEADER_BUCKETS_def find_key_empty)

lemma wf_empty_kv_map: "wf_kv empty_kv_map"
  by (simp add: wf_kv_def empty_kv_map_def HEADER_BUCKETS_def wf_chains_empty)

lemma kv_lookup_empty: "kv_lookup empty_kv_map k = None"
  by (simp add: kv_lookup_def chains_lookup_def empty_kv_map_def HEADER_BUCKETS_def find_key_empty)

lemma wf_hmap_used [simp]: "wf_hmap (m\<lparr>hm_used := u\<rparr>) = wf_hmap m"
  by (simp add: wf_hmap_def)

lemma hm_lookup_used [simp]: "hm_lookup (m\<lparr>hm_used := u\<rparr>) = hm_lookup m"
  by (simp add: hm_lookup_def)

lemma known_slot_eq:
  assumes "wf_hmap m" "CR \<notin> set k"
  shows "known_slot m (csilk_header_id_from_name (Some k)) =
    (if csilk_header_id_from_name (Some k) = HDR_UNKNOWN then None
     else find_key (hm_nodes m) (hm_buckets m) k)"
proof (cases "csilk_header_id_from_name (Some k) = HDR_UNKNOWN")
  case False
  let ?hid = "csilk_header_id_from_name (Some k)"
  have "lower k = lower (csilk_header_id_name ?hid)"
    using intern_eq_iff[OF assms(2) False] by simp
  then show ?thesis
    using False assms(1) find_key_cong[of k "csilk_header_id_name ?hid"]
    by (simp add: known_slot_def wf_hmap_def known_ids_set)
qed (simp add: known_slot_def)

text \<open>One search for both paths: the direct slot and the chain.\<close>

lemma search_wf:
  assumes "wf_hmap m" "NUL \<notin> set k"
  shows "chain_find (hm_nodes m) (hm_buckets m ! bucket_of (header_hash_view k)) (header_hash_view k) k
    = Some (find_key (hm_nodes m) (hm_buckets m) k)"
  using assms by (intro chain_find_wf) (simp_all add: wf_hmap_def)

lemma map_get_wf:
  assumes "wf_hmap m" "NUL \<notin> set k" "CR \<notin> set k"
  shows "map_get m (Some k) = Some (hm_lookup m k)"
  using known_slot_eq[OF assms(1,3)] search_wf[OF assms(1,2)] header_hash_eq[OF assms(2)]
  by (auto simp: map_get_def hm_lookup_def chains_lookup_def Let_def split: option.splits)

lemma view_of_ok: "node_ok h \<Longrightarrow> h_value h = Some v \<Longrightarrow> view_of h = (Some v, length v)"
  by (auto simp: view_of_def elim!: node_okE)

definition value_view :: "string option \<Rightarrow> csilk_view" where
  "value_view v = (v, case v of None \<Rightarrow> 0 | Some s \<Rightarrow> length s)"

lemma view_of_found:
  assumes "wf_chains nodes buckets" "find_key nodes buckets k = Some p"
  shows "view_of (nodes ! p) = value_view (chains_lookup nodes buckets k)"
proof -
  obtain v where "h_value (nodes ! p) = Some v"
    using find_keyD(2)[OF assms] by (rule node_okE)
  then show ?thesis
    using view_of_ok[OF find_keyD(2)[OF assms]] assms(2) by (simp add: chains_lookup_def value_view_def)
qed

lemma map_get_view_wf:
  assumes "wf_hmap m" "NUL \<notin> set k" "CR \<notin> set k" "hm_used m" "k \<noteq> []"
  shows "map_get_view m (Some k) = Some (value_view (hm_lookup m k))"
proof -
  have "deref k \<noteq> NUL" using assms(2,5) by (cases k) auto
  moreover have "wf_chains (hm_nodes m) (hm_buckets m)" using assms(1) by (simp add: wf_hmap_def)
  moreover have "find_key (hm_nodes m) (hm_buckets m) k = None \<Longrightarrow>
      value_view (hm_lookup m k) = (None, 0)"
    by (simp add: hm_lookup_def chains_lookup_def value_view_def)
  ultimately show ?thesis
    using assms(4) known_slot_eq[OF assms(1,3)] search_wf[OF assms(1,2)] header_hash_eq[OF assms(2)]
      view_of_found[of "hm_nodes m" "hm_buckets m" k]
    by (auto simp: map_get_view_def hm_lookup_def Let_def split: option.splits)
qed

lemma map_get_id_wf:
  assumes "wf_hmap m" "hid \<noteq> HDR_UNKNOWN"
  shows "map_get_id m hid = hm_lookup m (csilk_header_id_name hid)"
  using assms by (auto simp: map_get_id_def wf_hmap_def known_ids_set hm_lookup_def chains_lookup_def)

text \<open>The two ways an entry changes: a new head of chain, and a new value of the node found.\<close>

lemma push_header_wf:
  assumes "wf_hmap m" "node_ok h" "h_key h = Some k" "h_value h = Some v"
    "h_id h = csilk_header_id_from_name (Some k)"
  shows "wf_hmap (push_header m h)"
    and "hm_lookup (push_header m h) k' = (if lower k' = lower k then Some v else hm_lookup m k')"
proof -
  have wf: "wf_chains (hm_nodes m) (hm_buckets m)" using assms(1) by (simp add: wf_hmap_def)
  have cr: "CR \<notin> set k" using assms(2,3) by (auto elim: node_okE)
  have nodes: "hm_nodes (push_header m h) = hm_nodes m @ [h]"
    and buckets: "hm_buckets (push_header m h) = (hm_buckets m)
      [bucket_of (h_hash h) := length (hm_nodes m) # hm_buckets m ! bucket_of (h_hash h)]"
    and known: "hid \<noteq> HDR_UNKNOWN \<Longrightarrow> hm_known (push_header m h) hid =
      (if hid = h_id h then Some (length (hm_nodes m)) else hm_known m hid)" for hid
    by (simp_all add: push_header_def set_known_def Let_def)
  have "hm_known (push_header m h) hid =
      find_key (hm_nodes (push_header m h)) (hm_buckets (push_header m h)) (csilk_header_id_name hid)"
    if "hid \<in> set known_ids" for hid
    using that assms(1,3,5) known[of hid] intern_eq_iff[OF cr, of hid]
    by (auto simp: nodes buckets find_key_push[OF wf assms(2)] known_ids_set wf_hmap_def key_is_def)
  then show "wf_hmap (push_header m h)"
    using wf_chains_push[OF wf assms(2)] by (simp add: wf_hmap_def nodes buckets)
  show "hm_lookup (push_header m h) k' = (if lower k' = lower k then Some v else hm_lookup m k')"
    using assms(3,4) by (auto simp: hm_lookup_def nodes buckets chains_lookup_push[OF wf assms(2)] key_is_def)
qed

lemma set_value_wf:
  assumes "wf_hmap m" "find_key (hm_nodes m) (hm_buckets m) k = Some p"
  shows "wf_hmap (set_value m p (Some v) (length v))"
    and "hm_lookup (set_value m p (Some v) (length v)) k' = (if lower k' = lower k then Some v else hm_lookup m k')"
    and "find_key (hm_nodes (set_value m p (Some v) (length v))) (hm_buckets (set_value m p (Some v) (length v))) k = Some p"
proof -
  have wf: "wf_chains (hm_nodes m) (hm_buckets m)" using assms(1) by (simp add: wf_hmap_def)
  show "wf_hmap (set_value m p (Some v) (length v))"
    using assms(1) wf_chains_update[OF wf] by (simp add: wf_hmap_def set_value_def find_key_update)
  show "hm_lookup (set_value m p (Some v) (length v)) k' = (if lower k' = lower k then Some v else hm_lookup m k')"
    using chains_lookup_update[OF wf assms(2)] by (simp add: hm_lookup_def set_value_def)
  show "find_key (hm_nodes (set_value m p (Some v) (length v))) (hm_buckets (set_value m p (Some v) (length v))) k = Some p"
    using assms(2) by (simp add: set_value_def find_key_update)
qed

lemma set_known_wf:
  assumes "wf_hmap m" "find_key (hm_nodes m) (hm_buckets m) k = Some p" "CR \<notin> set k"
  shows "wf_hmap (set_known m (csilk_header_id_from_name (Some k)) p)"
    and "hm_lookup (set_known m (csilk_header_id_from_name (Some k)) p) = hm_lookup m"
proof -
  let ?hid = "csilk_header_id_from_name (Some k)"
  have "find_key (hm_nodes m) (hm_buckets m) (csilk_header_id_name ?hid) = Some p" if "?hid \<noteq> HDR_UNKNOWN"
    using intern_eq_iff[OF assms(3) that] assms(2) find_key_cong by metis
  then show "wf_hmap (set_known m ?hid p)"
    using assms(1) by (auto simp: wf_hmap_def set_known_def)
  show "hm_lookup (set_known m ?hid p) = hm_lookup m"
    by (simp add: hm_lookup_def set_known_def)
qed

text \<open>The sanitised copies, and what the writers do with them.\<close>

lemma sanitize_pair_outcome:
  assumes "sanitize_pair al key value = (r, al')"
  shows "r = None \<or> (r = Some (strip_crlf key, strip_crlf value) \<and> strip_crlf key \<noteq> [])"
    and "al = [] \<Longrightarrow> al' = []"
    and "al = [] \<Longrightarrow> strip_crlf key \<noteq> [] \<Longrightarrow> r \<noteq> None"
  using assms
  by (auto simp: sanitize_pair_def sanitize_header_str_def split: prod.splits option.splits if_splits)

lemma strip_crlf_no [simp]: "CR \<notin> set (strip_crlf s)" "LF \<notin> set (strip_crlf s)"
  by (simp_all add: strip_crlf_def)

lemma strip_crlf_id: "CR \<notin> set s \<Longrightarrow> LF \<notin> set s \<Longrightarrow> strip_crlf s = s"
  unfolding strip_crlf_def by (rule filter_True) auto

lemma NUL_strip_crlf: "NUL \<notin> set s \<Longrightarrow> NUL \<notin> set (strip_crlf s)"
  by (simp add: strip_crlf_def)

lemma node_ok_new:
  "NUL \<notin> set k \<Longrightarrow> CR \<notin> set k \<Longrightarrow> node_ok \<lparr>h_key = Some k, h_value = Some v, h_key_len = length k,
     h_value_len = length v, h_hash = header_hash_view k, h_id = hid\<rparr>"
  by (simp add: node_ok_def)

lemma push_new_wf:
  assumes "wf_hmap m" "NUL \<notin> set k" "CR \<notin> set k"
    and h: "h = \<lparr>h_key = Some k, h_value = Some v, h_key_len = length k, h_value_len = length v,
      h_hash = header_hash_view k, h_id = csilk_header_id_from_name (Some k)\<rparr>"
  shows "wf_hmap (push_header m h)"
    and "hm_lookup (push_header m h) k' = (if lower k' = lower k then Some v else hm_lookup m k')"
  using push_header_wf[OF assms(1), of h k v] node_ok_new[OF assms(2,3)] by (simp_all add: h)

abbreviation stored :: "(string \<Rightarrow> string option) \<Rightarrow> (string \<Rightarrow> string option) \<Rightarrow> bool \<Rightarrow> string \<Rightarrow> string \<Rightarrow> bool" where
  "stored f g ok k v \<equiv>
     \<forall>k'. g k' = (if ok \<and> lower k' = lower (strip_crlf k) then Some (strip_crlf v) else f k')"

lemma map_set_outcome:
  assumes "wf_hmap m" "NUL \<notin> set key"
  shows "\<exists>m' al' ok. map_set (Some al) m (Some key) (Some value) = Some (m', Some al') \<and> wf_hmap m'
    \<and> (al = [] \<longrightarrow> al' = [] \<and> (strip_crlf key \<noteq> [] \<longrightarrow> ok)) \<and> stored (hm_lookup m) (hm_lookup m') ok key value"
proof -
  let ?m = "m\<lparr>hm_used := True\<rparr>"
  have wf: "wf_hmap ?m" using assms(1) by simp
  obtain r al1 where sp: "sanitize_pair al key value = (r, al1)" by fastforce
  note out = sanitize_pair_outcome[OF sp]
  show ?thesis
  proof (cases r)
    case None
    with sp out(2,3) assms(1) show ?thesis
      by (intro exI[of _ ?m] exI[of _ al1] exI[of _ False]) (auto simp: map_set_def)
  next
    case (Some kv)
    let ?k = "strip_crlf key" and ?v = "strip_crlf value"
    let ?hid = "csilk_header_id_from_name (Some ?k)"
    have kv: "kv = (?k, ?v)" using out(1) Some by simp
    have nul: "NUL \<notin> set ?k" using assms(2) by (rule NUL_strip_crlf)
    note slot = known_slot_eq[OF wf strip_crlf_no(1), of key] and search = search_wf[OF wf nul]
    show ?thesis
    proof (cases "find_key (hm_nodes ?m) (hm_buckets ?m) ?k")
      case (Some p)
      note sv = set_value_wf[OF wf Some, of ?v]
      note sk = set_known_wf[OF sv(1,3) strip_crlf_no(1)]
      show ?thesis
        using sp kv \<open>r = Some kv\<close> slot search Some sv(1,2) sk out(2)
        by (cases "?hid = HDR_UNKNOWN") (auto simp: map_set_def Let_def)
    next
      case None
      obtain ok al2 where ma: "malloc al1 = (ok, al2)" by fastforce
      note ph = push_new_wf[OF wf nul strip_crlf_no(1) refl, of ?v]
      let ?h = "\<lparr>h_key = Some ?k, h_value = Some ?v, h_key_len = length ?k, h_value_len = length ?v,
        h_hash = header_hash_view ?k, h_id = ?hid\<rparr>"
      have "map_set (Some al) m (Some key) (Some value) = Some (if ok then push_header ?m ?h else ?m, Some al2)"
        using sp kv \<open>r = Some kv\<close> slot search None ma by (simp add: map_set_def Let_def)
      then show ?thesis
        using ph out(2) wf malloc_Nil[OF ma]
        by (intro exI[of _ "if ok then push_header ?m ?h else ?m"] exI[of _ al2] exI[of _ ok]) auto
    qed
  qed
qed

lemma map_add_outcome:
  assumes "wf_hmap m" "NUL \<notin> set key"
  shows "\<exists>m' al' ok. map_add (Some al) m (Some key) (Some value) = (m', Some al') \<and> wf_hmap m'
    \<and> (al = [] \<longrightarrow> al' = [] \<and> (strip_crlf key \<noteq> [] \<longrightarrow> ok)) \<and> stored (hm_lookup m) (hm_lookup m') ok key value"
proof -
  let ?m = "m\<lparr>hm_used := True\<rparr>"
  have wf: "wf_hmap ?m" using assms(1) by simp
  obtain r al1 where sp: "sanitize_pair al key value = (r, al1)" by fastforce
  note out = sanitize_pair_outcome[OF sp]
  show ?thesis
  proof (cases r)
    case None
    with sp out(2,3) assms(1) show ?thesis
      by (intro exI[of _ ?m] exI[of _ al1] exI[of _ False]) (auto simp: map_add_def)
  next
    case (Some kv)
    let ?k = "strip_crlf key" and ?v = "strip_crlf value"
    have kv: "kv = (?k, ?v)" using out(1) Some by simp
    have nul: "NUL \<notin> set ?k" using assms(2) by (rule NUL_strip_crlf)
    obtain ok al2 where ma: "malloc al1 = (ok, al2)" by fastforce
    note ph = push_new_wf[OF wf nul strip_crlf_no(1) refl, of ?v]
    show ?thesis
      using sp kv Some ma ph out(2) wf malloc_Nil[OF ma]
      by (cases ok) (auto simp: map_add_def Let_def)
  qed
qed

lemma map_kv_add_outcome:
  assumes "wf_kv m" "NUL \<notin> set key"
  shows "\<exists>m' al' ok. map_kv_add (Some al) m (Some key) (Some value) = (m', Some al') \<and> wf_kv m'
    \<and> (al = [] \<longrightarrow> al' = [] \<and> (strip_crlf key \<noteq> [] \<longrightarrow> ok)) \<and> stored (kv_lookup m) (kv_lookup m') ok key value"
proof -
  let ?m = "m\<lparr>kv_used := True\<rparr>"
  have wf: "wf_chains (kv_nodes m) (kv_buckets m)" using assms(1) by (simp add: wf_kv_def)
  obtain r al1 where sp: "sanitize_pair al key value = (r, al1)" by fastforce
  note out = sanitize_pair_outcome[OF sp]
  show ?thesis
  proof (cases r)
    case None
    with sp out(2,3) assms(1) show ?thesis
      by (intro exI[of _ ?m] exI[of _ al1] exI[of _ False]) (auto simp: map_kv_add_def wf_kv_def kv_lookup_def)
  next
    case (Some kv)
    let ?k = "strip_crlf key" and ?v = "strip_crlf value"
    have kv: "kv = (?k, ?v)" using out(1) Some by simp
    have ok_h: "node_ok \<lparr>h_key = Some ?k, h_value = Some ?v, h_key_len = length ?k, h_value_len = length ?v,
        h_hash = header_hash_view ?k, h_id = HDR_UNKNOWN\<rparr>"
      using assms(2) by (intro node_ok_new NUL_strip_crlf strip_crlf_no)
    obtain ok al2 where ma: "malloc al1 = (ok, al2)" by fastforce
    show ?thesis
      using sp kv Some ma wf_chains_push[OF wf ok_h] chains_lookup_push[OF wf ok_h] out(2) wf
        malloc_Nil[OF ma]
      by (cases ok) (auto simp: map_kv_add_def Let_def push_kv_def wf_kv_def kv_lookup_def key_is_def)
  qed
qed

section \<open>The case-insensitive map as an interface\<close>

text \<open>A sequence of writes, as the request parser and the query parser issue them.\<close>

fun put_all :: "(heap option \<Rightarrow> 'm \<Rightarrow> string option \<Rightarrow> string option \<Rightarrow> ('m \<times> heap option) option) \<Rightarrow>
  heap option \<Rightarrow> 'm \<Rightarrow> (string \<times> string) list \<Rightarrow> ('m \<times> heap option) option" where
  "put_all put ar m [] = Some (m, ar)"
| "put_all put ar m ((k, v) # kvs) =
     (case put ar m (Some k) (Some v) of None \<Rightarrow> None | Some (m', ar') \<Rightarrow> put_all put ar' m' kvs)"

definition hits :: "string \<Rightarrow> string \<times> string \<Rightarrow> bool" where
  "hits k kv = (strip_crlf (fst kv) \<noteq> [] \<and> lower (strip_crlf (fst kv)) = lower k)"

definition last_put :: "(string \<times> string) list \<Rightarrow> string \<Rightarrow> string option" where
  "last_put kvs k = (case filter (hits k) kvs of [] \<Rightarrow> None | xs \<Rightarrow> Some (strip_crlf (snd (last xs))))"

lemma last_put_Nil [simp]: "last_put [] k = None"
  by (simp add: last_put_def)

lemma last_put_Cons: "last_put (kv # kvs) k = (case last_put kvs k of
    None \<Rightarrow> if hits k kv then Some (strip_crlf (snd kv)) else None | Some v \<Rightarrow> Some v)"
  by (auto simp: last_put_def split: list.splits)

locale ci_map =
  fixes wf :: "'m \<Rightarrow> bool" and look :: "'m \<Rightarrow> string \<Rightarrow> string option"
    and put :: "heap option \<Rightarrow> 'm \<Rightarrow> string option \<Rightarrow> string option \<Rightarrow> ('m \<times> heap option) option"
  assumes put_outcome: "wf m \<Longrightarrow> NUL \<notin> set k \<Longrightarrow> \<exists>m' al' ok.
    put (Some al) m (Some k) (Some v) = Some (m', Some al') \<and> wf m'
    \<and> (al = [] \<longrightarrow> al' = [] \<and> (strip_crlf k \<noteq> [] \<longrightarrow> ok)) \<and> stored (look m) (look m') ok k v"
    and put_empty: "strip_crlf k = [] \<Longrightarrow> wf m \<Longrightarrow>
      put (Some al) m (Some k) (Some v) = Some (m', Some al') \<Longrightarrow> look m' = look m"
begin

lemma puts_defined:
  assumes "wf m" "\<forall>kv\<in>set kvs. NUL \<notin> set (fst kv)"
  shows "\<exists>m' al'. put_all put (Some al) m kvs = Some (m', Some al') \<and> wf m' \<and>
    (\<forall>k. look m' k = look m k \<or> (\<exists>kv\<in>set kvs. hits k kv \<and> look m' k = Some (strip_crlf (snd kv))))"
  using assms
proof (induction kvs arbitrary: al m)
  case (Cons kv kvs)
  obtain k v where kv: "kv = (k, v)" by fastforce
  from Cons.prems kv put_outcome[of m k al v] obtain m1 al1 ok where
    one: "put (Some al) m (Some k) (Some v) = Some (m1, Some al1)" "wf m1" "stored (look m) (look m1) ok k v"
    by auto
  have step: "look m1 k' = look m k' \<or> look m1 k' = Some (strip_crlf v) \<and> hits k' kv" for k'
  proof (cases "strip_crlf k = []")
    case True
    then show ?thesis using put_empty[OF True Cons.prems(1) one(1)] by simp
  next
    case False
    then show ?thesis using one(3) kv by (auto simp: hits_def)
  qed
  from Cons.IH[OF one(2), of al1] Cons.prems(2) kv obtain m' al' where
    all: "put_all put (Some al1) m1 kvs = Some (m', Some al')" "wf m'"
    "\<forall>k. look m' k = look m1 k \<or> (\<exists>kv\<in>set kvs. hits k kv \<and> look m' k = Some (strip_crlf (snd kv)))"
    by auto
  have "look m' k' = look m k' \<or>
      (\<exists>x\<in>set (kv # kvs). hits k' x \<and> look m' k' = Some (strip_crlf (snd x)))" for k'
    using all(3)[rule_format, of k'] step[of k'] kv by auto
  then show ?case using one(1) all(1,2) kv by auto
qed simp

lemma puts_last:
  assumes "wf m" "\<forall>kv\<in>set kvs. NUL \<notin> set (fst kv)"
  shows "\<exists>m'. put_all put (Some []) m kvs = Some (m', Some []) \<and> wf m' \<and>
    (\<forall>k. look m' k = (case last_put kvs k of None \<Rightarrow> look m k | Some v \<Rightarrow> Some v))"
  using assms
proof (induction kvs arbitrary: m)
  case (Cons kv kvs)
  obtain k v where kv: "kv = (k, v)" by fastforce
  from Cons.prems kv put_outcome[of m k "[]" v] obtain m1 ok where
    one: "put (Some []) m (Some k) (Some v) = Some (m1, Some [])" "wf m1" "strip_crlf k \<noteq> [] \<longrightarrow> ok"
    "stored (look m) (look m1) ok k v"
    by auto
  have step: "look m1 k' = (if hits k' (k, v) then Some (strip_crlf v) else look m k')" for k'
  proof (cases "strip_crlf k = []")
    case True
    then show ?thesis using put_empty[OF True Cons.prems(1) one(1)] by (simp add: hits_def)
  next
    case False
    then show ?thesis using one(3,4) by (auto simp: hits_def)
  qed
  from Cons.IH[OF one(2)] Cons.prems(2) kv obtain m' where
    all: "put_all put (Some []) m1 kvs = Some (m', Some [])" "wf m'"
    "\<forall>k. look m' k = (case last_put kvs k of None \<Rightarrow> look m1 k | Some v \<Rightarrow> Some v)"
    by auto
  show ?case
    using one(1) all step kv by (auto simp: last_put_Cons split: option.splits)
qed simp

end

lemma sanitize_pair_empty: "strip_crlf key = [] \<Longrightarrow> fst (sanitize_pair al key value) = None"
  by (auto simp: sanitize_pair_def sanitize_header_str_def split: prod.splits option.splits if_splits)

lemma fst_NoneE: "fst p = None \<Longrightarrow> (\<And>al. p = (None, al) \<Longrightarrow> P) \<Longrightarrow> P"
  by (cases p) auto

definition put_add :: "heap option \<Rightarrow> csilk_header_map \<Rightarrow> string option \<Rightarrow> string option \<Rightarrow>
    (csilk_header_map \<times> heap option) option" where
  "put_add ar m k v = Some (map_add ar m k v)"

definition put_kv :: "heap option \<Rightarrow> csilk_kv_map \<Rightarrow> string option \<Rightarrow> string option \<Rightarrow>
    (csilk_kv_map \<times> heap option) option" where
  "put_kv ar m k v = Some (map_kv_add ar m k v)"

interpretation set_map: ci_map wf_hmap hm_lookup map_set
proof
  fix m k al v m' al'
  show "wf_hmap m \<Longrightarrow> NUL \<notin> set k \<Longrightarrow> \<exists>m' al' ok.
    map_set (Some al) m (Some k) (Some v) = Some (m', Some al') \<and> wf_hmap m'
    \<and> (al = [] \<longrightarrow> al' = [] \<and> (strip_crlf k \<noteq> [] \<longrightarrow> ok)) \<and> stored (hm_lookup m) (hm_lookup m') ok k v"
    by (rule map_set_outcome)
  show "strip_crlf k = [] \<Longrightarrow> wf_hmap m \<Longrightarrow>
      map_set (Some al) m (Some k) (Some v) = Some (m', Some al') \<Longrightarrow> hm_lookup m' = hm_lookup m"
    using sanitize_pair_empty[of k al v] by (auto simp: map_set_def elim!: fst_NoneE)
qed

interpretation add_map: ci_map wf_hmap hm_lookup put_add
proof
  fix m k al v m' al'
  show "wf_hmap m \<Longrightarrow> NUL \<notin> set k \<Longrightarrow> \<exists>m' al' ok.
    put_add (Some al) m (Some k) (Some v) = Some (m', Some al') \<and> wf_hmap m'
    \<and> (al = [] \<longrightarrow> al' = [] \<and> (strip_crlf k \<noteq> [] \<longrightarrow> ok)) \<and> stored (hm_lookup m) (hm_lookup m') ok k v"
    unfolding put_add_def option.inject by (rule map_add_outcome)
  show "strip_crlf k = [] \<Longrightarrow> wf_hmap m \<Longrightarrow>
      put_add (Some al) m (Some k) (Some v) = Some (m', Some al') \<Longrightarrow> hm_lookup m' = hm_lookup m"
    using sanitize_pair_empty[of k al v] by (auto simp: put_add_def map_add_def elim!: fst_NoneE)
qed

interpretation kv_map: ci_map wf_kv kv_lookup put_kv
proof
  fix m k al v m' al'
  show "wf_kv m \<Longrightarrow> NUL \<notin> set k \<Longrightarrow> \<exists>m' al' ok.
    put_kv (Some al) m (Some k) (Some v) = Some (m', Some al') \<and> wf_kv m'
    \<and> (al = [] \<longrightarrow> al' = [] \<and> (strip_crlf k \<noteq> [] \<longrightarrow> ok)) \<and> stored (kv_lookup m) (kv_lookup m') ok k v"
    unfolding put_kv_def option.inject by (rule map_kv_add_outcome)
  show "strip_crlf k = [] \<Longrightarrow> wf_kv m \<Longrightarrow>
      put_kv (Some al) m (Some k) (Some v) = Some (m', Some al') \<Longrightarrow> kv_lookup m' = kv_lookup m"
    using sanitize_pair_empty[of k al v]
    by (auto simp: put_kv_def map_kv_add_def kv_lookup_def elim!: fst_NoneE)
qed

lemma map_kv_get_wf:
  assumes "wf_kv m" "NUL \<notin> set k"
  shows "map_kv_get m (Some k) = Some (kv_lookup m k)"
  using chain_find_wf[of "kv_nodes m" "kv_buckets m" k] assms header_hash_eq[OF assms(2)]
  by (auto simp: map_kv_get_def wf_kv_def kv_lookup_def chains_lookup_def Let_def split: option.splits)

lemma map_kv_get_view_wf:
  assumes "wf_kv m" "NUL \<notin> set k" "kv_used m" "k \<noteq> []"
  shows "map_kv_get_view m (Some k) = Some (value_view (kv_lookup m k))"
proof -
  have "deref k \<noteq> NUL" using assms(2,4) by (cases k) auto
  moreover have wf: "wf_chains (kv_nodes m) (kv_buckets m)" using assms(1) by (simp add: wf_kv_def)
  moreover have "find_key (kv_nodes m) (kv_buckets m) k = None \<Longrightarrow> value_view (kv_lookup m k) = (None, 0)"
    by (simp add: kv_lookup_def chains_lookup_def value_view_def)
  ultimately show ?thesis
    using assms(3) chain_find_wf[OF wf assms(2)] header_hash_eq[OF assms(2)] view_of_found[OF wf, of k]
    by (auto simp: map_kv_get_view_def kv_lookup_def Let_def split: option.splits)
qed

section \<open>No line breaks in stored headers\<close>

definition line_free :: "string option \<Rightarrow> bool" where
  "line_free s = (case s of None \<Rightarrow> True | Some t \<Rightarrow> CR \<notin> set t \<and> LF \<notin> set t)"

definition crlf_free :: "csilk_header_map \<Rightarrow> bool" where
  "crlf_free m = (\<forall>h\<in>set (hm_nodes m). line_free (h_key h) \<and> line_free (h_value h))"

lemma crlf_free_set_known [simp]: "crlf_free (set_known m hid p) = crlf_free m"
  by (simp add: crlf_free_def set_known_def)

lemma crlf_free_set_value:
  assumes "crlf_free m" "line_free v"
  shows "crlf_free (set_value m p v n)"
proof (cases "p < length (hm_nodes m)")
  case True
  then have "hm_nodes m ! p \<in> set (hm_nodes m)" by simp
  with assms show ?thesis
    by (auto simp: crlf_free_def set_value_def dest!: subsetD[OF set_update_subset_insert])
next
  case False
  then show ?thesis using assms by (simp add: crlf_free_def set_value_def list_update_beyond)
qed

lemma crlf_free_push:
  "crlf_free m \<Longrightarrow> line_free (h_key h) \<Longrightarrow> line_free (h_value h) \<Longrightarrow> crlf_free (push_header m h)"
  by (auto simp: push_header_def Let_def crlf_free_def set_known_def)

lemma line_free_strip [simp]: "line_free (Some (strip_crlf s))"
  by (simp add: line_free_def)

lemma crlf_free_used [simp]: "crlf_free (m\<lparr>hm_used := u\<rparr>) = crlf_free m"
  by (simp add: crlf_free_def)

lemma sanitize_pair_line_free:
  "sanitize_pair al k v = (Some (k', v'), al') \<Longrightarrow> line_free (Some k') \<and> line_free (Some v')"
  using sanitize_pair_outcome(1)[of al k v] by auto

lemma map_set_crlf_free:
  assumes "crlf_free m" "map_set ar m k v = Some (m', ar')"
  shows "crlf_free m'"
  using assms
  by (auto simp: map_set_def Let_def crlf_free_push crlf_free_set_value
      dest!: sanitize_pair_line_free split: option.splits prod.splits if_splits)

lemma map_add_crlf_free:
  assumes "crlf_free m" "map_add ar m k v = (m', ar')"
  shows "crlf_free m'"
  using assms
  by (auto simp: map_add_def Let_def crlf_free_push
      dest!: sanitize_pair_line_free split: option.splits prod.splits if_splits)

text \<open>Any interleaving of the two sanitising writers.\<close>

datatype header_write = Set_Header "string option" "string option" | Add_Header "string option" "string option"

fun run_writes :: "heap option \<Rightarrow> csilk_header_map \<Rightarrow> header_write list \<Rightarrow> (csilk_header_map \<times> heap option) option" where
  "run_writes ar m [] = Some (m, ar)"
| "run_writes ar m (Set_Header k v # ws) =
     (case map_set ar m k v of None \<Rightarrow> None | Some (m', ar') \<Rightarrow> run_writes ar' m' ws)"
| "run_writes ar m (Add_Header k v # ws) =
     (case map_add ar m k v of (m', ar') \<Rightarrow> run_writes ar' m' ws)"

lemma map_set_view_outcome:
  assumes "wf_hmap m" "NUL \<notin> set k" "CR \<notin> set k"
  shows "\<exists>m'. map_set_view (Some []) m (Some k) (Some v) = Some (m', Some []) \<and> wf_hmap m'
    \<and> (\<forall>k'. hm_lookup m' k' = (if lower k' = lower k then Some v else hm_lookup m k'))"
proof -
  let ?m = "m\<lparr>hm_used := True\<rparr>" and ?hid = "csilk_header_id_from_name (Some k)"
  have wf: "wf_hmap ?m" using assms(1) by simp
  note slot = known_slot_eq[OF wf assms(3)] and search = search_wf[OF wf assms(2)]
  show ?thesis
  proof (cases "find_key (hm_nodes ?m) (hm_buckets ?m) k")
    case (Some p)
    note sv = set_value_wf[OF wf Some, of v]
    note sk = set_known_wf[OF sv(1,3) assms(3)]
    show ?thesis
      using slot search Some sv(1,2) sk
      by (cases "?hid = HDR_UNKNOWN") (auto simp: map_set_view_def Let_def arena_strndup_def)
  next
    case None
    note ph = push_new_wf[OF wf assms(2,3) refl, of v]
    let ?h = "\<lparr>h_key = Some k, h_value = Some v, h_key_len = length k, h_value_len = length v,
      h_hash = header_hash_view k, h_id = ?hid\<rparr>"
    have "map_set_view (Some []) m (Some k) (Some v) = Some (push_header ?m ?h, Some [])"
      using slot search None by (simp add: map_set_view_def Let_def arena_strndup_def)
    then show ?thesis using ph by simp
  qed
qed

lemma case_option_same: "(case x of None \<Rightarrow> None | Some v \<Rightarrow> Some v) = x"
  by (cases x) simp_all

section \<open>Properties\<close>

text \<open>
  C27. Interning: for a name without a carriage return, \<open>csilk_header_id_from_name\<close> returns a known
  identifier exactly when the name is the canonical name of that identifier up to case, and
  \<open>CSILK_HDR_UNKNOWN\<close> exactly when it is none of the canonical names; every canonical name is
  interned as its own identifier.
\<close>
theorem csilk_header_id_from_name_correct:
  assumes "CR \<notin> set name"
  shows "(csilk_header_id_from_name (Some name) = hid \<longleftrightarrow>
      (if hid = HDR_UNKNOWN then (\<forall>h. h \<noteq> HDR_UNKNOWN \<longrightarrow> lower name \<noteq> lower (csilk_header_id_name h))
       else lower name = lower (csilk_header_id_name hid)))
    \<and> csilk_header_id_from_name (Some (csilk_header_id_name hid)) = hid"
proof
  show "csilk_header_id_from_name (Some name) = hid \<longleftrightarrow>
      (if hid = HDR_UNKNOWN then (\<forall>h. h \<noteq> HDR_UNKNOWN \<longrightarrow> lower name \<noteq> lower (csilk_header_id_name h))
       else lower name = lower (csilk_header_id_name hid))"
    using intern_eq_iff[OF assms] by metis
  have cr: "CR \<notin> set (csilk_header_id_name hid)" by (cases hid) simp_all
  show "csilk_header_id_from_name (Some (csilk_header_id_name hid)) = hid"
  proof (cases "hid = HDR_UNKNOWN")
    case True
    then show ?thesis
      using intern_correct[of "''Unknown''"] by (simp add: intern_ref_table intern_table_eq tolower_char_simps)
  next
    case False
    then show ?thesis using intern_eq_iff[OF cr False] by simp
  qed
qed

theorem csilk_header_id_from_name_correct_witness:
  "csilk_header_id_from_name (Some ''hOST'') = HDR_HOST \<longleftrightarrow> lower ''hOST'' = lower (csilk_header_id_name HDR_HOST)"
  using csilk_header_id_from_name_correct[of "''hOST''" HDR_HOST] by simp

text \<open>
  C18. \<open>map_set\<close> then \<open>map_get\<close>: on a well-formed map and under any pattern of allocation failures
  \<open>map_set\<close> has no undefined behaviour and keeps the map well formed; a later \<open>map_get\<close> of any name
  returns the sanitised value if the name equals the sanitised key up to case and the store
  succeeded, and what it returned before otherwise. The store can only fail when an allocation
  fails or nothing is left of the key.
\<close>
theorem map_set_then_get:
  assumes "wf_hmap m" "NUL \<notin> set key" "NUL \<notin> set k'" "CR \<notin> set k'"
  shows "\<exists>m' al' ok. map_set (Some al) m (Some key) (Some value) = Some (m', Some al') \<and> wf_hmap m'
    \<and> (al = [] \<and> strip_crlf key \<noteq> [] \<longrightarrow> ok)
    \<and> map_get m' (Some k') =
        (if ok \<and> lower k' = lower (strip_crlf key) then Some (Some (strip_crlf value)) else map_get m (Some k'))"
proof -
  from map_set_outcome[OF assms(1,2)] obtain m' al' ok where
    "map_set (Some al) m (Some key) (Some value) = Some (m', Some al')" "wf_hmap m'"
    "al = [] \<longrightarrow> al' = [] \<and> (strip_crlf key \<noteq> [] \<longrightarrow> ok)" "stored (hm_lookup m) (hm_lookup m') ok key value"
    by blast
  then show ?thesis using map_get_wf[OF _ assms(3,4)] assms(1) by auto
qed

theorem map_set_then_get_witness:
  "\<exists>m' al' ok. map_set (Some []) empty_header_map (Some ''X-A'') (Some ''1'') = Some (m', Some al') \<and> wf_hmap m'
    \<and> (([] :: heap) = [] \<and> strip_crlf ''X-A'' \<noteq> [] \<longrightarrow> ok)
    \<and> map_get m' (Some ''x-a'') =
        (if ok \<and> lower ''x-a'' = lower (strip_crlf ''X-A'') then Some (Some (strip_crlf ''1''))
         else map_get empty_header_map (Some ''x-a''))"
  by (rule map_set_then_get[OF wf_empty_header_map]) simp_all

text \<open>
  Repeated \<open>map_add\<close>: after adding any list of headers to the empty map without allocation
  failure, the three lookups agree: \<open>map_get\<close> and \<open>map_get_view\<close> of a name, and \<open>map_get_id\<close> of its
  identifier, give the sanitised value of the last header added under that name up to case, and
  nothing if there is none.
\<close>
theorem map_add_last_wins:
  assumes "\<forall>kv\<in>set kvs. NUL \<notin> set (fst kv)" "NUL \<notin> set k" "CR \<notin> set k" "k \<noteq> []"
  shows "\<exists>m'. put_all put_add (Some []) empty_header_map kvs = Some (m', Some [])
    \<and> map_get m' (Some k) = Some (last_put kvs k)
    \<and> (hm_used m' \<longrightarrow> map_get_view m' (Some k) = Some (value_view (last_put kvs k)))
    \<and> (csilk_header_id_from_name (Some k) \<noteq> HDR_UNKNOWN \<longrightarrow>
         map_get_id m' (csilk_header_id_from_name (Some k)) = last_put kvs k)"
proof -
  from add_map.puts_last[OF wf_empty_header_map assms(1)] obtain m' where
    m': "put_all put_add (Some []) empty_header_map kvs = Some (m', Some [])" "wf_hmap m'"
    "\<forall>k. hm_lookup m' k = last_put kvs k"
    unfolding hm_lookup_empty case_option_same by blast
  let ?hid = "csilk_header_id_from_name (Some k)"
  have "map_get_id m' ?hid = last_put kvs k" if "?hid \<noteq> HDR_UNKNOWN"
  proof -
    have "lower k = lower (csilk_header_id_name ?hid)" using intern_eq_iff[OF assms(3) that] by simp
    then have "hm_lookup m' (csilk_header_id_name ?hid) = hm_lookup m' k"
      unfolding hm_lookup_def by (intro chains_lookup_cong) simp
    then show ?thesis using map_get_id_wf[OF m'(2) that] m'(3) by simp
  qed
  then show ?thesis
    using m' map_get_wf[OF m'(2) assms(2,3)] map_get_view_wf[OF m'(2) assms(2,3) _ assms(4)] by auto
qed

theorem map_add_last_wins_witness:
  "\<exists>m'. put_all put_add (Some []) empty_header_map [(''host'', ''a''), (''HOST'', ''b'')] = Some (m', Some [])
    \<and> map_get m' (Some ''Host'') = Some (last_put [(''host'', ''a''), (''HOST'', ''b'')] ''Host'')"
proof -
  have "\<forall>kv\<in>set [(''host'', ''a''), (''HOST'', ''b'')]. NUL \<notin> set (fst kv)"
    "NUL \<notin> set ''Host''" "CR \<notin> set ''Host''" "''Host'' \<noteq> []"
    by simp_all
  from map_add_last_wins[OF this] show ?thesis by blast
qed

text \<open>
  C19. Header injection: starting from a map none of whose keys and values contains a carriage
  return or a line feed, no sequence of \<open>map_set\<close> and \<open>map_add\<close> calls, with any arguments and any
  allocation failures, stores one.
\<close>
theorem no_header_injection:
  assumes "crlf_free m" "run_writes ar m ws = Some (m', ar')"
  shows "crlf_free m'"
  using assms
proof (induction ar m ws rule: run_writes.induct)
  case (2 ar m k v ws)
  then obtain m1 ar1 where one: "map_set ar m k v = Some (m1, ar1)" "run_writes ar1 m1 ws = Some (m', ar')"
    by (auto split: option.splits)
  from 2(1)[OF one(1) refl map_set_crlf_free[OF 2(2) one(1)] one(2)] show ?case .
next
  case (3 ar m k v ws)
  obtain m1 ar1 where one: "map_add ar m k v = (m1, ar1)" by fastforce
  with 3(3) have "run_writes ar1 m1 ws = Some (m', ar')" by simp
  from 3(1)[OF one[symmetric] map_add_crlf_free[OF 3(2) one] this] show ?case .
qed simp

theorem no_header_injection_witness:
  "\<exists>m' ar'. run_writes (Some []) empty_header_map [Set_Header (Some ''a'') (Some [CR, LF])] = Some (m', ar') \<and> crlf_free m'"
proof -
  obtain m' al' where "map_set (Some []) empty_header_map (Some ''a'') (Some [CR, LF]) = Some (m', Some al')"
    using map_set_outcome[OF wf_empty_header_map, of "''a''" "[]"] by fastforce
  then have run: "run_writes (Some []) empty_header_map [Set_Header (Some ''a'') (Some [CR, LF])] = Some (m', Some al')"
    by simp
  have "crlf_free empty_header_map" by (simp add: crlf_free_def empty_header_map_def)
  from no_header_injection[OF this run] run show ?thesis by blast
qed

text \<open>
  \<open>map_set_view\<close> does not check its copies: when the allocation of the key copy fails after
  that of the node, a node with a NULL key is linked, and the next \<open>map_get\<close> of the same name
  compares with the NULL key (undefined behaviour).
\<close>
theorem map_set_view_null_key:
  assumes "wf_hmap m" "NUL \<notin> set k" "CR \<notin> set k" "csilk_header_id_from_name (Some k) = HDR_UNKNOWN"
    and "hm_lookup m k = None"
  shows "\<exists>m'. map_set_view (Some [True, False]) m (Some k) (Some v) = Some (m', Some [])
    \<and> map_get m' (Some k) = None"
proof -
  have wf: "wf_chains (hm_nodes m) (hm_buckets m)" "length (hm_buckets m) = 16"
    using assms(1) by (simp_all add: wf_hmap_def wf_chains_def)
  have "find_key (hm_nodes m) (hm_buckets m) k = None"
    using assms(5) find_keyD(2)[OF wf(1)]
    by (fastforce simp: hm_lookup_def chains_lookup_def elim: node_okE split: option.splits)
  then have "map_set_view (Some [True, False]) m (Some k) (Some v) = Some (push_header (m\<lparr>hm_used := True\<rparr>)
      \<lparr>h_key = None, h_value = Some v, h_key_len = length k, h_value_len = length v,
       h_hash = header_hash_view k, h_id = HDR_UNKNOWN\<rparr>, Some [])"
    using assms(4) search_wf[OF assms(1,2)]
    by (simp add: map_set_view_def Let_def arena_strndup_def known_slot_def)
  then show ?thesis
    using assms(4) header_hash_eq[OF assms(2)] wf(2)
    by (simp add: map_get_def known_slot_def push_header_def set_known_def Let_def)
qed

lemma intern_x: "csilk_header_id_from_name (Some ''x'') = HDR_UNKNOWN"
  using intern_correct[of "''x''"] by (simp add: intern_ref_table intern_table_eq tolower_char_simps)

theorem map_set_view_null_key_witness:
  "\<exists>m'. map_set_view (Some [True, False]) empty_header_map (Some ''x'') (Some ''1'') = Some (m', Some [])
    \<and> map_get m' (Some ''x'') = None"
  by (rule map_set_view_null_key[OF wf_empty_header_map])
    (simp_all add: intern_x hm_lookup_empty)

text \<open>
  Without allocation failure \<open>map_set_view\<close> stores the bytes of the view as they are (it does
  not sanitise), for every name up to case, and keeps the map well formed.
\<close>
theorem map_set_view_then_get:
  assumes "wf_hmap m" "NUL \<notin> set k" "CR \<notin> set k" "NUL \<notin> set k'" "CR \<notin> set k'"
  shows "\<exists>m'. map_set_view (Some []) m (Some k) (Some v) = Some (m', Some []) \<and> wf_hmap m'
    \<and> map_get m' (Some k') = (if lower k' = lower k then Some (Some v) else map_get m (Some k'))"
proof -
  from map_set_view_outcome[OF assms(1-3)] obtain m' where
    "map_set_view (Some []) m (Some k) (Some v) = Some (m', Some [])" "wf_hmap m'"
    "\<forall>k'. hm_lookup m' k' = (if lower k' = lower k then Some v else hm_lookup m k')"
    by blast
  then show ?thesis using map_get_wf[OF _ assms(4,5)] assms(1) by simp
qed

theorem map_set_view_then_get_witness:
  "\<exists>m'. map_set_view (Some []) empty_header_map (Some ''Etag'') (Some [CR, LF]) = Some (m', Some []) \<and> wf_hmap m'
    \<and> map_get m' (Some ''ETAG'') = (if lower ''ETAG'' = lower ''Etag'' then Some (Some [CR, LF]) else map_get empty_header_map (Some ''ETAG''))"
  by (rule map_set_view_then_get[OF wf_empty_header_map]) simp_all

end
