(* ===== verification/Query.thy ===== *)
theory Query
  imports Url Header_Map
begin

text \<open>
  Model of src/core/primitives/query.c: query strings and form bodies are split at ampersands and
  equals signs, both halves are percent-decoded and stored in a key-value map. The parser is related
  to the list of pairs of the string (\<open>query_pairs\<close>), and through the interface of the
  case-insensitive maps to what later lookups return.
\<close>

record request_ctx =
  rc_arena :: "heap option"
  rc_headers :: csilk_header_map
  rc_body :: "string option"
  rc_query :: csilk_kv_map
  rc_form :: csilk_kv_map

section \<open>Parsing\<close>

definition split_pair :: "string \<Rightarrow> string \<times> string" where
  "split_pair seg = (takeWhile (\<lambda>c. c \<noteq> CHR ''='') seg,
     case dropWhile (\<lambda>c. c \<noteq> CHR ''='') seg of [] \<Rightarrow> [] | _ # v \<Rightarrow> v)"

definition parse_pair :: "heap option \<Rightarrow> csilk_kv_map \<Rightarrow> string \<Rightarrow> (csilk_kv_map \<times> heap option) option" where
  "parse_pair ar m seg = (case split_pair seg of (key, value) \<Rightarrow>
     if key \<noteq> [] then
       (case csilk_url_decode (Some key) of
          None \<Rightarrow> None
        | Some (_, kbuf) \<Rightarrow>
            (case (if value \<noteq> [] then csilk_url_decode (Some value) else Some (0, [])) of
               None \<Rightarrow> None
             | Some (_, vbuf) \<Rightarrow> Some (map_kv_add ar m (Some (cstr kbuf)) (Some (cstr vbuf)))))
     else Some (m, ar))"

function parse_key_value_pairs ::
  "heap option \<Rightarrow> csilk_kv_map \<Rightarrow> string \<Rightarrow> (csilk_kv_map \<times> heap option) option" where
  "parse_key_value_pairs ar m pos = (if pos = [] then Some (m, ar)
     else (case parse_pair ar m (takeWhile (\<lambda>c. c \<noteq> CHR ''&'') pos) of
       None \<Rightarrow> None
     | Some (m', ar') \<Rightarrow>
         (case dropWhile (\<lambda>c. c \<noteq> CHR ''&'') pos of
            [] \<Rightarrow> Some (m', ar')
          | _ # rest \<Rightarrow> parse_key_value_pairs ar' m' rest)))"
  by auto
termination
proof (relation "measure (\<lambda>(ar, m, pos). length pos)")
  fix pos c and rest :: string
  assume "dropWhile (\<lambda>c. c \<noteq> CHR ''&'') pos = c # rest"
  then have "length (c # rest) \<le> length pos" by (metis length_dropWhile_le)
  then show "((ar', m', rest), ar :: heap option, m :: csilk_kv_map, pos) \<in> measure (\<lambda>(ar, m, pos). length pos)"
    for ar' ar :: "heap option" and m' m :: csilk_kv_map by simp
qed simp

declare parse_key_value_pairs.simps [simp del]

definition csilk_parse_query :: "request_ctx \<Rightarrow> string option \<Rightarrow> request_ctx option" where
  "csilk_parse_query c query_string = (case (query_string, rc_arena c) of
     (Some q, Some al) \<Rightarrow>
       if deref q = NUL then Some c
       else (case malloc al of (ok, al) \<Rightarrow>
         if \<not> ok then Some (c\<lparr>rc_arena := Some al\<rparr>)
         else map_option (\<lambda>(m, ar). c\<lparr>rc_query := m, rc_arena := ar\<rparr>)
                (parse_key_value_pairs (Some al) (rc_query c) q))
   | _ \<Rightarrow> Some c)"

definition isspace :: "char \<Rightarrow> bool" where
  "isspace c = (byte c = 32 \<or> (9 \<le> byte c \<and> byte c \<le> 13))"

definition FORM_TYPE :: string where
  "FORM_TYPE = ''application/x-www-form-urlencoded''"

definition is_form_type :: "string \<Rightarrow> bool" where
  "is_form_type ct = (take 33 ct = FORM_TYPE \<and>
     (let sep = deref (drop 33 ct) in sep = CHR '';'' \<or> sep = NUL \<or> isspace sep))"

definition csilk_get_header :: "request_ctx \<Rightarrow> string option \<Rightarrow> string option option" where
  "csilk_get_header c key = (case key of None \<Rightarrow> Some None | Some _ \<Rightarrow> map_get (rc_headers c) key)"

text \<open>The body is a byte buffer: the copy is parsed up to its first NUL.\<close>

definition csilk_parse_form_urlencoded :: "request_ctx \<Rightarrow> request_ctx option" where
  "csilk_parse_form_urlencoded c = (case (rc_arena c, rc_body c) of
     (Some al, Some body) \<Rightarrow>
       if length body = 0 then Some c
       else (case csilk_get_header c (Some ''Content-Type'') of
          None \<Rightarrow> None
        | Some None \<Rightarrow> Some c
        | Some (Some ct) \<Rightarrow>
            if \<not> is_form_type ct then Some c
            else (case arena_strndup al body of
                (None, al) \<Rightarrow> Some (c\<lparr>rc_arena := Some al\<rparr>)
              | (Some qs, al) \<Rightarrow>
                  map_option (\<lambda>(m, ar). c\<lparr>rc_form := m, rc_arena := ar\<rparr>)
                    (parse_key_value_pairs (Some al) (rc_form c) (cstr qs))))
   | _ \<Rightarrow> Some c)"

definition csilk_get_form_field :: "request_ctx \<Rightarrow> string option \<Rightarrow> string option option" where
  "csilk_get_form_field c key = (case key of None \<Rightarrow> Some None | Some _ \<Rightarrow> map_kv_get (rc_form c) key)"

definition csilk_get_query :: "request_ctx \<Rightarrow> string option \<Rightarrow> string option option" where
  "csilk_get_query c key = map_kv_get (rc_query c) key"

section \<open>The pairs of a query string\<close>

function segments :: "string \<Rightarrow> string list" where
  "segments s = (if s = [] then []
     else takeWhile (\<lambda>c. c \<noteq> CHR ''&'') s #
       (case dropWhile (\<lambda>c. c \<noteq> CHR ''&'') s of [] \<Rightarrow> [] | _ # rest \<Rightarrow> segments rest))"
  by auto
termination
proof (relation "measure length")
  fix s c and rest :: string
  assume "dropWhile (\<lambda>c. c \<noteq> CHR ''&'') s = c # rest"
  then have "length (c # rest) \<le> length s" by (metis length_dropWhile_le)
  then show "(rest, s) \<in> measure length" by simp
qed simp

declare segments.simps [simp del]

definition decoded :: "string \<Rightarrow> string" where
  "decoded s = cstr (decode_ref s)"

definition query_pairs :: "string \<Rightarrow> (string \<times> string) list" where
  "query_pairs s = map (\<lambda>kv. (decoded (fst kv), decoded (snd kv)))
     (filter (\<lambda>kv. fst kv \<noteq> []) (map split_pair (segments s)))"

lemma NUL_decoded [simp]: "NUL \<notin> set (decoded s)"
  by (simp add: decoded_def NUL_cstr)

lemma url_decode_cstr:
  assumes "NUL \<notin> set s"
  obtains n buf where "csilk_url_decode (Some s) = Some (n, buf)" "cstr buf = decoded s"
  using url_decode_spec[OF assms] by (auto simp: decoded_def)

lemma set_split_pair: "set (fst (split_pair seg)) \<subseteq> set seg" "set (snd (split_pair seg)) \<subseteq> set seg"
proof -
  show "set (fst (split_pair seg)) \<subseteq> set seg" by (auto simp: split_pair_def dest: set_takeWhileD)
  show "set (snd (split_pair seg)) \<subseteq> set seg"
  proof (cases "dropWhile (\<lambda>c. c \<noteq> CHR ''='') seg")
    case (Cons c v)
    have "set (c # v) \<subseteq> set seg" using set_dropWhileD Cons by (metis subsetI)
    then show ?thesis by (simp add: split_pair_def Cons)
  qed (simp add: split_pair_def del: dropWhile_eq_Nil_conv)
qed

lemma parse_pair_eq:
  assumes "NUL \<notin> set seg"
  shows "parse_pair ar m seg = (let kv = split_pair seg in
    if fst kv \<noteq> [] then Some (map_kv_add ar m (Some (decoded (fst kv))) (Some (decoded (snd kv)))) else Some (m, ar))"
proof -
  obtain k v where kv: "split_pair seg = (k, v)" by fastforce
  have nul: "NUL \<notin> set k" "NUL \<notin> set v" using set_split_pair[of seg] kv assms by auto
  obtain n kb where k: "csilk_url_decode (Some k) = Some (n, kb)" "cstr kb = decoded k"
    using nul(1) by (rule url_decode_cstr)
  obtain l vb where v: "csilk_url_decode (Some v) = Some (l, vb)" "cstr vb = decoded v"
    using nul(2) by (rule url_decode_cstr)
  have "cstr [] = decoded []" by (simp add: decoded_def)
  then show ?thesis using kv k v by (simp add: parse_pair_def Let_def)
qed

lemma parse_is_put_all:
  assumes "NUL \<notin> set s"
  shows "parse_key_value_pairs ar m s = put_all put_kv ar m (query_pairs s)"
  using assms
proof (induction "length s" arbitrary: s ar m rule: less_induct)
  case less
  show ?case
  proof (cases "s = []")
    case True
    then show ?thesis by (simp add: parse_key_value_pairs.simps segments.simps query_pairs_def)
  next
    case False
    let ?seg = "takeWhile (\<lambda>c. c \<noteq> CHR ''&'') s"
    have nul: "NUL \<notin> set ?seg" using less.prems by (auto dest: set_takeWhileD)
    show ?thesis
    proof (cases "dropWhile (\<lambda>c. c \<noteq> CHR ''&'') s")
      case Nil
      have "segments s = [?seg]" using False by (simp add: segments.simps[of s] Nil del: dropWhile_eq_Nil_conv)
      then show ?thesis
        using False parse_pair_eq[OF nul, of ar m]
        by (simp add: parse_key_value_pairs.simps[of ar m s] Nil query_pairs_def put_kv_def Let_def
            split: prod.splits del: dropWhile_eq_Nil_conv)
    next
      case (Cons c rest)
      have "length (c # rest) \<le> length s" by (metis Cons length_dropWhile_le)
      moreover have "set rest \<subseteq> set s" using set_dropWhileD[of _ "\<lambda>c. c \<noteq> CHR ''&''" s] Cons by auto
      ultimately have IH: "parse_key_value_pairs ar' m' rest = put_all put_kv ar' m' (query_pairs rest)" for ar' m'
        using less.hyps[of rest] less.prems by auto
      have "segments s = ?seg # segments rest" using False Cons by (simp add: segments.simps[of s])
      then show ?thesis
        using False Cons parse_pair_eq[OF nul, of ar m] IH
        by (simp add: parse_key_value_pairs.simps[of ar m s] query_pairs_def put_kv_def Let_def split: prod.splits)
    qed
  qed
qed

section \<open>Rendering\<close>












section \<open>Properties\<close>

lemma parse_query_defined:
  assumes "wf_kv (rc_query c)" "rc_arena c = Some al" "NUL \<notin> set q"
  shows "\<exists>c'. csilk_parse_query c (Some q) = Some c' \<and> wf_kv (rc_query c') \<and>
    (\<forall>k. kv_lookup (rc_query c') k = kv_lookup (rc_query c) k
      \<or> (\<exists>kv\<in>set (query_pairs q). hits k kv \<and> kv_lookup (rc_query c') k = Some (strip_crlf (snd kv))))
    \<and> (al = [] \<longrightarrow> (\<forall>k. kv_lookup (rc_query c') k =
         (case last_put (query_pairs q) k of None \<Rightarrow> kv_lookup (rc_query c) k | Some v \<Rightarrow> Some v)))"
proof (cases "q = []")
  case True
  have "query_pairs [] = []" by (simp add: query_pairs_def segments.simps)
  then show ?thesis using True assms by (simp add: csilk_parse_query_def)
next
  case False
  then have q: "deref q \<noteq> NUL" using assms(3) by (cases q) auto
  obtain ok al1 where ma: "malloc al = (ok, al1)" by fastforce
  have nul: "\<forall>kv\<in>set (query_pairs q). NUL \<notin> set (fst kv)" by (auto simp: query_pairs_def)
  note run = parse_is_put_all[OF assms(3)] csilk_parse_query_def[of c "Some q"]
  show ?thesis
  proof (cases ok)
    case False
    then have "al \<noteq> []" using malloc_Nil[OF ma] by blast
    then show ?thesis using False run q ma assms by simp
  next
    case True
    obtain m' al' where m': "put_all put_kv (Some al1) (rc_query c) (query_pairs q) = Some (m', Some al')"
      "wf_kv m'" "\<forall>k. kv_lookup m' k = kv_lookup (rc_query c) k
        \<or> (\<exists>kv\<in>set (query_pairs q). hits k kv \<and> kv_lookup m' k = Some (strip_crlf (snd kv)))"
      using kv_map.puts_defined[OF assms(1) nul, of al1] by blast
    have "kv_lookup m' k = (case last_put (query_pairs q) k of None \<Rightarrow> kv_lookup (rc_query c) k | Some v \<Rightarrow> Some v)"
      if "al = []" for k
      using kv_map.puts_last[OF assms(1) nul] m'(1) malloc_Nil[OF ma that] by auto
    then show ?thesis using True run q ma assms m' by simp
  qed
qed

text \<open>
  Query parsing on a well-formed parameter map: it terminates, has no undefined behaviour under
  any allocation failures, and afterwards \<open>csilk_get_query\<close> gives for every key either what it gave
  before or the sanitised value of a pair of the query string with that key up to case; when no
  allocation fails it is the last such pair.
\<close>
theorem csilk_parse_query_correct:
  assumes "wf_kv (rc_query c)" "rc_arena c = Some al" "NUL \<notin> set q" "NUL \<notin> set k"
  shows "\<exists>c'. csilk_parse_query c (Some q) = Some c' \<and> wf_kv (rc_query c') \<and>
    (csilk_get_query c' (Some k) = csilk_get_query c (Some k)
      \<or> (\<exists>kv\<in>set (query_pairs q). hits k kv \<and> csilk_get_query c' (Some k) = Some (Some (strip_crlf (snd kv)))))
    \<and> (al = [] \<longrightarrow> csilk_get_query c' (Some k) =
         (case last_put (query_pairs q) k of None \<Rightarrow> csilk_get_query c (Some k) | Some v \<Rightarrow> Some (Some v)))"
proof -
  from parse_query_defined[OF assms(1-3)] obtain c' where c': "csilk_parse_query c (Some q) = Some c'"
    "wf_kv (rc_query c')"
    "\<forall>k. kv_lookup (rc_query c') k = kv_lookup (rc_query c) k
      \<or> (\<exists>kv\<in>set (query_pairs q). hits k kv \<and> kv_lookup (rc_query c') k = Some (strip_crlf (snd kv)))"
    "al = [] \<longrightarrow> (\<forall>k. kv_lookup (rc_query c') k =
         (case last_put (query_pairs q) k of None \<Rightarrow> kv_lookup (rc_query c) k | Some v \<Rightarrow> Some v))"
    by blast
  have "csilk_get_query c' (Some k) = Some (kv_lookup (rc_query c') k)"
    "csilk_get_query c (Some k) = Some (kv_lookup (rc_query c) k)"
    unfolding csilk_get_query_def using assms(1,4) c'(2) by (simp_all add: map_kv_get_wf)
  then show ?thesis using c' by (auto split: option.splits)
qed

abbreviation fresh_ctx :: request_ctx where
  "fresh_ctx \<equiv> \<lparr>rc_arena = Some [], rc_headers = empty_header_map, rc_body = None,
     rc_query = empty_kv_map, rc_form = empty_kv_map\<rparr>"

theorem csilk_parse_query_correct_witness:
  "\<exists>c'. csilk_parse_query fresh_ctx (Some ''a=1&A=2'') = Some c' \<and> wf_kv (rc_query c')"
  using csilk_parse_query_correct[of fresh_ctx "[]" "''a=1&A=2''" "''a''"] wf_empty_kv_map by auto



end
