(* ===== verification/Base64.thy ===== *)
theory Base64
  imports Csilk_Prelude
begin

text \<open>
  Model of src/crypto/base64.c: the encoder, which packs three bytes into a 32-bit word and emits
  four characters, its URL-safe variant without padding, and the decoder, which shifts six bits per
  character through a 32-bit accumulator. Byte buffers are character lists; \<open>None\<close> as a result of the
  decoder is its return value -1.
\<close>

unbundle bit_operations_syntax

section \<open>Encoding\<close>

definition b64_table :: string where
  "b64_table = ''ABCDEFGHIJKLMNOPQRSTUVWXYZabcdefghijklmnopqrstuvwxyz0123456789+/''"

definition b64_char :: "u32 \<Rightarrow> char" where
  "b64_char v = b64_table ! unat (v AND 0x3F)"

definition b64_pack :: "string \<Rightarrow> nat \<Rightarrow> u32" where
  "b64_pack src i =
     (let v = push_bit 16 (of_nat (byte (src ! i)));
          v = (if i + 1 < length src then v OR push_bit 8 (of_nat (byte (src ! (i + 1)))) else v);
          v = (if i + 2 < length src then v OR of_nat (byte (src ! (i + 2))) else v)
      in v)"

definition b64_group :: "string \<Rightarrow> nat \<Rightarrow> string" where
  "b64_group src i = (let v = b64_pack src i in
     [b64_char (drop_bit 18 v), b64_char (drop_bit 12 v),
      if i + 1 < length src then b64_char (drop_bit 6 v) else CHR ''='',
      if i + 2 < length src then b64_char v else CHR ''='' ])"

function b64_encode_loop :: "string \<Rightarrow> nat \<Rightarrow> string" where
  "b64_encode_loop src i = (if i < length src then b64_group src i @ b64_encode_loop src (i + 3) else [])"
  by auto
termination by (relation "measure (\<lambda>(src, i). length src - i)") auto

declare b64_encode_loop.simps [simp del]

definition csilk_base64_encode :: "string \<Rightarrow> string" where
  "csilk_base64_encode src = b64_encode_loop src 0"

fun url_subst :: "string \<Rightarrow> string" where
  "url_subst [] = []"
| "url_subst (c # cs) =
     (if c = CHR ''+'' then CHR ''-'' # url_subst cs
      else if c = CHR ''/'' then CHR ''_'' # url_subst cs
      else if c = CHR ''='' then []
      else c # url_subst cs)"

definition csilk_base64url_encode :: "string \<Rightarrow> string" where
  "csilk_base64url_encode src = url_subst (csilk_base64_encode src)"

section \<open>Decoding\<close>

definition b64_rev_table :: "int list" where
  "b64_rev_table =
     replicate 43 (- 1) @ [62, - 1, - 1, - 1, 63, 52, 53, 54, 55, 56, 57, 58, 59, 60, 61] @ replicate 7 (- 1) @
     [0, 1, 2, 3, 4, 5, 6, 7, 8, 9, 10, 11, 12, 13, 14, 15, 16, 17, 18, 19, 20, 21, 22, 23, 24, 25] @ replicate 6 (- 1) @
     [26, 27, 28, 29, 30, 31, 32, 33, 34, 35, 36, 37, 38, 39, 40, 41, 42, 43, 44, 45, 46, 47, 48, 49, 50, 51] @
     replicate 133 (- 1)"

definition url_unsubst :: "string \<Rightarrow> string" where
  "url_unsubst s = map (\<lambda>c. if c = CHR ''-'' then CHR ''+'' else if c = CHR ''_'' then CHR ''/'' else c) s"

definition b64_pad :: "string \<Rightarrow> string" where
  "b64_pad s = s @ replicate ((4 - length s mod 4) mod 4) (CHR ''='')"

fun b64_decode_loop :: "string \<Rightarrow> nat \<Rightarrow> u32 \<Rightarrow> nat \<Rightarrow> string \<Rightarrow> string option" where
  "b64_decode_loop [] out_cap v bits out = Some out"
| "b64_decode_loop (c # cs) out_cap v bits out =
     (if c = CHR ''='' then Some out
      else let val = b64_rev_table ! byte c in
        if val < 0 then None
        else let v = push_bit 6 v OR of_int val; bits = bits + 6 in
          if bits \<ge> 8 then
            let bits = bits - 8 in
            if length out \<ge> out_cap then None
            else b64_decode_loop cs out_cap v bits (out @ [char_of (unat (drop_bit bits v AND 0xFF))])
          else b64_decode_loop cs out_cap v bits out)"

definition csilk_base64url_decode :: "heap \<Rightarrow> string \<Rightarrow> nat \<Rightarrow> string option \<times> heap" where
  "csilk_base64url_decode al src out_cap = (case malloc al of (ok, al) \<Rightarrow>
     if \<not> ok then (None, al)
     else (b64_decode_loop (b64_pad (url_unsubst src)) out_cap 0 0 [], al))"

section \<open>The encoder by groups\<close>

abbreviation byte32 :: "char \<Rightarrow> u32" where
  "byte32 c \<equiv> of_nat (byte c)"

fun enc :: "string \<Rightarrow> string" where
  "enc [] = []"
| "enc [a] = (let v = push_bit 16 (byte32 a) in [b64_char (drop_bit 18 v), b64_char (drop_bit 12 v)])"
| "enc [a, b] = (let v = push_bit 16 (byte32 a) OR push_bit 8 (byte32 b) in
     [b64_char (drop_bit 18 v), b64_char (drop_bit 12 v), b64_char (drop_bit 6 v)])"
| "enc (a # b # c # rest) = (let v = push_bit 16 (byte32 a) OR push_bit 8 (byte32 b) OR byte32 c in
     [b64_char (drop_bit 18 v), b64_char (drop_bit 12 v), b64_char (drop_bit 6 v), b64_char v]) @ enc rest"

definition pad_for :: "string \<Rightarrow> string" where
  "pad_for s = replicate ((3 - length s mod 3) mod 3) (CHR ''='')"

lemma list_by_three:
  obtains "xs = []" | a where "xs = [a]" | a b where "xs = [a, b]" | a b c rest where "xs = a # b # c # rest"
  by (metis list.exhaust)

lemma encode_loop_enc: "b64_encode_loop src i = enc (drop i src) @ pad_for (drop i src)"
proof (induction "length src - i" arbitrary: i rule: less_induct)
  case less
  have nth: "src ! (i + j) = drop i src ! j" if "i \<le> length src" for j using that by (simp add: nth_drop)
  have step: "b64_encode_loop src i = b64_group src i @ b64_encode_loop src (i + 3)" if "i < length src"
    using that by (simp add: b64_encode_loop.simps)
  have IH: "b64_encode_loop src (i + 3) = enc (drop 3 (drop i src)) @ pad_for (drop 3 (drop i src))" if "i < length src"
    using less[of "i + 3"] that by (simp add: add.commute)
  show ?case
  proof (cases "drop i src" rule: list_by_three)
    case 1
    then show ?thesis by (simp add: b64_encode_loop.simps[of src i] pad_for_def)
  next
    case (2 a)
    then have "length src = i + 1" 
      by (metis One_nat_def Suc_eq_plus1_left add.commute drop_eq_Nil le_add_diff_inverse length_drop length_Cons
          list.distinct(1) list.size(3) nat_le_linear)
    then show ?thesis
      using step IH 2 nth[of 0] by (simp add: b64_group_def b64_pack_def pad_for_def Let_def numeral_2_eq_2)
  next
    case (3 a b)
    then have "length (drop i src) = 2" by simp
    then have "length src = i + 2" by simp
    then show ?thesis
      using step IH 3 nth[of 0] nth[of 1] by (simp add: b64_group_def b64_pack_def pad_for_def Let_def)
  next
    case (4 a b c rest)
    then have "length (drop i src) = Suc (Suc (Suc (length rest)))" by simp
    then have "length src = i + 3 + length rest" by simp
    then show ?thesis
      using step IH 4 nth[of 0] nth[of 1] nth[of 2]
      by (simp add: b64_group_def b64_pack_def pad_for_def Let_def or.assoc)
  qed
qed

section \<open>Characters and their values\<close>

lemma table_length: "length b64_table = 64"
  by (simp add: b64_table_def)

lemma rev_table_chars: "map (\<lambda>c. b64_rev_table ! byte c) b64_table = map int [0..<64]"
  by code_simp

lemma table_no_marks: "CHR ''='' \<notin> set b64_table" "CHR ''-'' \<notin> set b64_table" "CHR ''_'' \<notin> set b64_table"
  by (simp_all add: b64_table_def)

lemma and_63_less: "unat (v AND 0x3F :: u32) < 64"
proof -
  have "v AND 0x3F = take_bit 6 v" by (simp add: take_bit_eq_mask mask_eq_exp_minus_1)
  then have "unat (v AND 0x3F) = take_bit 6 (unat v)" by (simp only: unsigned_take_bit_eq)
  then show ?thesis by (simp add: take_bit_eq_mod)
qed

lemma b64_char_in_table: "b64_char v \<in> set b64_table"
  using and_63_less[of v] by (simp add: b64_char_def table_length)

lemma b64_char_marks [simp]: "b64_char v \<noteq> CHR ''=''" "b64_char v \<noteq> CHR ''-''" "b64_char v \<noteq> CHR ''_''"
  using b64_char_in_table[of v] table_no_marks by metis+

lemma rev_b64_char: "b64_rev_table ! byte (b64_char v) = int (unat (v AND 0x3F))"
proof -
  let ?i = "unat (v AND 0x3F)"
  have "map (\<lambda>c. b64_rev_table ! byte c) b64_table ! ?i = map int [0..<64] ! ?i" by (simp only: rev_table_chars)
  then show ?thesis using and_63_less[of v] by (simp add: b64_char_def table_length)
qed

definition acc :: "u32 \<Rightarrow> u32 \<Rightarrow> u32" where
  "acc v x = push_bit 6 v OR (x AND 0x3F)"

lemma decode_char:
  "b64_decode_loop (b64_char x # cs) cap v bits out =
     (if bits \<ge> 2 then
        (if length out \<ge> cap then None
         else b64_decode_loop cs cap (acc v x) (bits - 2)
                (out @ [char_of (unat (drop_bit (bits - 2) (acc v x) AND 0xFF))]))
      else b64_decode_loop cs cap (acc v x) (bits + 6) out)"
  by (simp add: rev_b64_char acc_def Let_def)

lemma and_masks: "x AND 0x3F = take_bit 6 x" "x AND 0xFF = take_bit 8 x" for x :: u32
  by (simp_all add: take_bit_eq_mask mask_eq_exp_minus_1)

lemma bit_acc: "n < 32 \<Longrightarrow> bit (acc v x) n \<longleftrightarrow> (if n < 6 then bit x n else bit v (n - 6))"
  unfolding acc_def and_masks by (auto simp: bit_or_iff bit_take_bit_iff bit_push_bit_iff)

lemma extract_byte:
  assumes "k \<le> 4"
  shows "drop_bit k (acc (acc v (drop_bit (m + 6) x)) (drop_bit m x)) AND 0xFF = drop_bit (k + m) x AND 0xFF"
proof (rule bit_word_eqI)
  fix n assume "n < LENGTH(32)"
  show "bit (drop_bit k (acc (acc v (drop_bit (m + 6) x)) (drop_bit m x)) AND 0xFF) n
      = bit (drop_bit (k + m) x AND 0xFF) n"
  proof (cases "n < 8")
    case True
    then have lt: "k + n < 32" "k + n < 12" using assms by auto
    have "bit (acc (acc v (drop_bit (m + 6) x)) (drop_bit m x)) (k + n) = bit x (k + m + n)"
    proof (cases "k + n < 6")
      case True
      then show ?thesis using lt by (simp add: bit_acc bit_drop_bit_eq ac_simps)
    next
      case False
      then have "m + 6 + (k + n - 6) = k + m + n" "k + n - 6 < 6" using lt by auto
      then show ?thesis using False lt by (simp add: bit_acc bit_drop_bit_eq ac_simps)
    qed
    then show ?thesis
      unfolding and_masks using True by (simp add: bit_take_bit_iff bit_drop_bit_eq ac_simps)
  qed (simp add: and_masks bit_take_bit_iff)
qed

lemma extract_bytes:
  "drop_bit 4 (acc (acc v (drop_bit 18 x)) (drop_bit 12 x)) AND 0xFF = drop_bit 16 x AND 0xFF"
  "drop_bit 2 (acc (acc v (drop_bit 12 x)) (drop_bit 6 x)) AND 0xFF = drop_bit 8 x AND 0xFF"
  "acc (acc v (drop_bit 6 x)) x AND 0xFF = x AND 0xFF"
  using extract_byte[of 4 v 12 x] extract_byte[of 2 v 6 x] extract_byte[of 0 v 0 x]
  by (simp_all only: numeral_plus_numeral semiring_norm add_0 add_0_right drop_bit_0 order.refl le_numeral_simps zero_le id_apply simp_thms)

lemma bit_byte32: "bit (byte32 a) n \<Longrightarrow> n < 8"
proof -
  have "take_bit 8 (byte32 a) = of_nat (take_bit 8 (byte a))" by (simp add: take_bit_of_nat)
  also have "take_bit 8 (byte a) = byte a" using byte_less[of a] by (simp add: take_bit_nat_eq_self)
  finally show "bit (byte32 a) n \<Longrightarrow> n < 8" by (metis bit_take_bit_iff)
qed

lemma not_bit_byte32: "8 \<le> n \<Longrightarrow> \<not> bit (byte32 a) n"
  using bit_byte32[of a n] by auto

lemma cut_byte:
  assumes "\<And>n. n < 8 \<Longrightarrow> bit v (k + n) = bit (byte32 d) n"
  shows "take_bit 8 (drop_bit k v) = byte32 d"
  using assms bit_byte32[of d] by (intro bit_word_eqI) (auto simp: bit_take_bit_iff bit_drop_bit_eq)

lemma packed_bytes:
  "drop_bit 16 (push_bit 16 (byte32 a) OR push_bit 8 (byte32 b) OR byte32 c) AND 0xFF = byte32 a"
  "drop_bit 8 (push_bit 16 (byte32 a) OR push_bit 8 (byte32 b) OR byte32 c) AND 0xFF = byte32 b"
  "(push_bit 16 (byte32 a) OR push_bit 8 (byte32 b) OR byte32 c) AND 0xFF = byte32 c"
proof -
  let ?v = "push_bit 16 (byte32 a) OR push_bit 8 (byte32 b) OR byte32 c"
  have bit_v: "bit ?v n \<longleftrightarrow> (16 \<le> n \<and> bit (byte32 a) (n - 16)) \<or> (8 \<le> n \<and> bit (byte32 b) (n - 8)) \<or> bit (byte32 c) n"
    if "n < 32" for n
    using that by (simp add: bit_or_iff bit_push_bit_iff)
  show "drop_bit 16 ?v AND 0xFF = byte32 a" unfolding and_masks
    by (rule cut_byte) (simp add: bit_v not_bit_byte32)
  show "drop_bit 8 ?v AND 0xFF = byte32 b" unfolding and_masks
    by (rule cut_byte) (simp add: bit_v not_bit_byte32)
  show "?v AND 0xFF = byte32 c" unfolding and_masks
    using cut_byte[of ?v 0 c] by (simp add: bit_v del: take_bit_or)
qed

lemma char_of_byte32 [simp]: "char_of (unat (byte32 a)) = a"
proof -
  have "unat (byte32 a) = byte a" using byte_less[of a] by (simp add: unat_of_nat take_bit_nat_eq_self)
  then show ?thesis by simp
qed

lemma decode_padding: "b64_decode_loop (replicate n (CHR ''='')) cap v bits out = Some out"
  by (cases n) simp_all

text \<open>One packed word: its four characters give back its three bytes, two of them the first two, and
  so on, from any contents of the accumulator.\<close>

lemma decode_group:
  fixes a b c
  defines "x \<equiv> push_bit 16 (byte32 a) OR push_bit 8 (byte32 b) OR byte32 c"
  shows "b64_decode_loop (b64_char (drop_bit 18 x) # b64_char (drop_bit 12 x) # cs) cap v 0 out =
      (if cap \<le> length out then None
       else b64_decode_loop cs cap (acc (acc v (drop_bit 18 x)) (drop_bit 12 x)) 4 (out @ [a]))"
    and "b64_decode_loop (b64_char (drop_bit 6 x) # cs) cap (acc v (drop_bit 12 x)) 4 out =
      (if cap \<le> length out then None
       else b64_decode_loop cs cap (acc (acc v (drop_bit 12 x)) (drop_bit 6 x)) 2 (out @ [b]))"
    and "b64_decode_loop (b64_char x # cs) cap (acc v (drop_bit 6 x)) 2 out =
      (if cap \<le> length out then None else b64_decode_loop cs cap (acc (acc v (drop_bit 6 x)) x) 0 (out @ [c]))"
proof -
  note bytes = packed_bytes[of a b c, folded x_def]
  show "b64_decode_loop (b64_char (drop_bit 18 x) # b64_char (drop_bit 12 x) # cs) cap v 0 out =
      (if cap \<le> length out then None
       else b64_decode_loop cs cap (acc (acc v (drop_bit 18 x)) (drop_bit 12 x)) 4 (out @ [a]))"
    by (simp add: decode_char extract_bytes(1) bytes(1) del: b64_decode_loop.simps)
  show "b64_decode_loop (b64_char (drop_bit 6 x) # cs) cap (acc v (drop_bit 12 x)) 4 out =
      (if cap \<le> length out then None
       else b64_decode_loop cs cap (acc (acc v (drop_bit 12 x)) (drop_bit 6 x)) 2 (out @ [b]))"
    by (simp add: decode_char extract_bytes(2) bytes(2) del: b64_decode_loop.simps)
  show "b64_decode_loop (b64_char x # cs) cap (acc v (drop_bit 6 x)) 2 out =
      (if cap \<le> length out then None else b64_decode_loop cs cap (acc (acc v (drop_bit 6 x)) x) 0 (out @ [c]))"
    by (simp add: decode_char extract_bytes(3) bytes(3) del: b64_decode_loop.simps)
qed

lemma byte32_NUL [simp]: "byte32 NUL = 0"
  by (simp add: byte_def)

lemma decode_enc:
  assumes "length out \<le> cap"
  shows "b64_decode_loop (enc data @ replicate n (CHR ''='')) cap v 0 out =
    (if length out + length data \<le> cap then Some (out @ data) else None)"
  using assms
proof (induction data arbitrary: v out rule: enc.induct)
  case 1
  then show ?case by (simp add: decode_padding)
next
  case (2 a)
  then show ?case
    using decode_group(1)[of a NUL NUL "replicate n (CHR ''='')" cap v out]
    by (simp add: Let_def decode_padding del: b64_decode_loop.simps drop_bit_or)
next
  case (3 a b)
  then show ?case
    using decode_group(1)[of a b NUL "b64_char (drop_bit 6 (push_bit 16 (byte32 a) OR push_bit 8 (byte32 b))) # replicate n (CHR ''='')" cap v out]
      decode_group(2)[of a b NUL "replicate n (CHR ''='')" cap _ "out @ [a]"]
    by (simp add: Let_def decode_padding del: b64_decode_loop.simps drop_bit_or)
next
  case (4 a b c rest)
  have "b64_decode_loop (enc rest @ replicate n (CHR ''='')) cap v' 0 (out @ [a, b, c]) =
      (if length (out @ [a, b, c]) + length rest \<le> cap then Some ((out @ [a, b, c]) @ rest) else None)"
    if "length (out @ [a, b, c]) \<le> cap" for v' using 4 that by blast
  then show ?case
    by (simp add: Let_def decode_group del: b64_decode_loop.simps drop_bit_or)
qed

section \<open>The URL-safe alphabet and the padding\<close>

lemma enc_chars: "set (enc s) \<subseteq> set b64_table"
  by (induction s rule: enc.induct) (auto simp: Let_def b64_char_in_table simp del: drop_bit_or)

lemma unsubst_subst:
  assumes "set s \<subseteq> set b64_table"
  shows "url_unsubst (url_subst (s @ replicate n (CHR ''=''))) = s"
  using assms
proof (induction s)
  case Nil
  show ?case by (cases n) (simp_all add: url_unsubst_def)
next
  case (Cons c s)
  have "c \<noteq> CHR ''=''" "c \<noteq> CHR ''-''" "c \<noteq> CHR ''_''" using Cons.prems table_no_marks by auto
  then show ?case using Cons by (auto simp: url_unsubst_def)
qed

lemma encode_eq: "csilk_base64_encode data = enc data @ pad_for data"
  by (simp add: csilk_base64_encode_def encode_loop_enc)

lemma length_enc_pad: "length (enc s @ pad_for s) = 4 * ((length s + 2) div 3)"
proof (induction s rule: enc.induct)
  case (4 a b c rest)
  have "(length (a # b # c # rest) + 2) div 3 = Suc ((length rest + 2) div 3)" by simp
  then show ?case using 4 by (simp add: pad_for_def Let_def)
qed (simp_all add: pad_for_def Let_def)

lemma url_subst_length: "length (url_subst s) \<le> length s"
  by (induction s rule: url_subst.induct) auto

lemma rev_table_valid:
  "map fst (filter (\<lambda>p. 0 \<le> snd p) (enumerate 0 b64_rev_table)) = [43, 47] @ [48..<58] @ [65..<91] @ [97..<123]"
  by code_simp

lemma table_bytes: "map byte b64_table = [65..<91] @ [97..<123] @ [48..<58] @ [43, 47]"
  by code_simp

lemma rev_table_length: "length b64_rev_table = 256"
  by (simp add: b64_rev_table_def)

lemma rev_table_iff: "0 \<le> b64_rev_table ! byte c \<longleftrightarrow> c \<in> set b64_table"
proof -
  have "0 \<le> b64_rev_table ! byte c \<longleftrightarrow>
      byte c \<in> set (map fst (filter (\<lambda>p. 0 \<le> snd p) (enumerate 0 b64_rev_table)))"
    using byte_less[of c] by (auto simp: in_set_enumerate_eq rev_table_length image_iff)
  also have "\<dots> \<longleftrightarrow> byte c \<in> set (map byte b64_table)"
    unfolding rev_table_valid table_bytes by (simp only: set_append Un_ac)
  finally show ?thesis by (simp add: image_iff)
qed

abbreviation data_part :: "string \<Rightarrow> string" where
  "data_part s \<equiv> takeWhile (\<lambda>c. c \<noteq> CHR ''='') s"

lemma data_part_pad: "data_part (s @ replicate n (CHR ''='')) = data_part s"
  by (induction s) (cases n, auto)

lemma decode_loop_outcome:
  assumes "bits < 8" "length out \<le> cap"
  shows "(b64_decode_loop s cap v bits out = None \<longleftrightarrow>
      (\<not> set (data_part s) \<subseteq> set b64_table \<or> cap < length out + (bits + 6 * length (data_part s)) div 8))
    \<and> (\<forall>r. b64_decode_loop s cap v bits out = Some r \<longrightarrow>
         length r = length out + (bits + 6 * length (data_part s)) div 8)"
  using assms
proof (induction s arbitrary: v bits out)
  case (Cons c s)
  show ?case
  proof (cases "c = CHR ''='' \<or> c \<notin> set b64_table")
    case True
    then show ?thesis using Cons.prems rev_table_iff[of c] by (auto simp: Let_def)
  next
    case False
    let ?v = "push_bit 6 v OR of_int (b64_rev_table ! byte c)"
    let ?out = "out @ [char_of (unat (drop_bit (bits - 2) ?v AND 0xFF))]"
    have loop: "b64_decode_loop (c # s) cap v bits out =
      (if bits \<ge> 2 then if cap \<le> length out then None else b64_decode_loop s cap ?v (bits - 2) ?out
       else b64_decode_loop s cap ?v (bits + 6) out)"
      using False rev_table_iff[of c] by (simp add: Let_def)
    have body: "data_part (c # s) = c # data_part s" using False by simp
    show ?thesis
    proof (cases "bits \<ge> 2")
      case True
      have "(bits + 6 * Suc n) div 8 = Suc ((bits - 2 + 6 * n) div 8)" for n
      proof -
        have "bits + 6 * Suc n = (bits - 2 + 6 * n) + 8" using True by simp
        then show ?thesis by simp
      qed
      note count = this
      show ?thesis
      proof (cases "cap \<le> length out")
        case full: True
        then have "b64_decode_loop (c # s) cap v bits out = None" using loop True by simp
        moreover have "cap < length out + (bits + 6 * length (data_part (c # s))) div 8"
          using full count[of "length (data_part s)"] body by simp
        ultimately show ?thesis by (simp del: b64_decode_loop.simps takeWhile.simps)
      next
        case room: False
        have "b64_decode_loop (c # s) cap v bits out = b64_decode_loop s cap ?v (bits - 2) ?out"
          using loop True room by simp
        moreover have "length ?out = Suc (length out)" "length ?out \<le> cap" "bits - 2 < 8"
          using room Cons.prems by simp_all
        moreover have "set (data_part (c # s)) \<subseteq> set b64_table \<longleftrightarrow> set (data_part s) \<subseteq> set b64_table"
          using False by simp
        moreover have "length out + (bits + 6 * length (data_part (c # s))) div 8
            = Suc (length out) + (bits - 2 + 6 * length (data_part s)) div 8"
          using count[of "length (data_part s)"] body by simp
        ultimately show ?thesis using Cons.IH[of "bits - 2" ?out ?v] by presburger
      qed
    next
      case below: False
      have "b64_decode_loop (c # s) cap v bits out = b64_decode_loop s cap ?v (bits + 6) out"
        using loop below by simp
      moreover have "bits + 6 < 8" using below by simp
      moreover have "set (data_part (c # s)) \<subseteq> set b64_table \<longleftrightarrow> set (data_part s) \<subseteq> set b64_table"
        using False by simp
      moreover have "bits + 6 * length (data_part (c # s)) = bits + 6 + 6 * length (data_part s)"
        using body by simp
      ultimately show ?thesis using Cons.IH[of "bits + 6" out ?v] Cons.prems(2) by presburger
    qed
  qed
qed simp

section \<open>Properties\<close>

text \<open>
  C23. Round trip: decoding the Base64URL encoding of any bytes gives the bytes back, for every output
  buffer that can hold them, and -1 for every smaller one (when the scratch copy can be allocated).
\<close>
theorem base64url_roundtrip:
  "csilk_base64url_decode [] (csilk_base64url_encode data) out_cap =
     (if length data \<le> out_cap then Some data else None, [])"
proof -
  have "url_unsubst (csilk_base64url_encode data) = enc data"
    unfolding csilk_base64url_encode_def encode_eq pad_for_def
    by (rule unsubst_subst[OF enc_chars])
  then show ?thesis
    using decode_enc[of "[]" out_cap data _ 0]
    by (simp add: csilk_base64url_decode_def b64_pad_def del: b64_decode_loop.simps)
qed

text \<open>
  Sizes and errors: the encoders write at most \<open>((len + 2) / 3) * 4\<close> characters before the
  terminator (the documented buffer size); the decoder fails exactly when a character before the
  first padding character is outside the two alphabets or the decoded bytes exceed the capacity, and
  otherwise returns six bits per character, never more than the capacity.
\<close>
theorem base64_sizes_and_errors:
  fixes src :: string and cap :: nat
  defines "body \<equiv> data_part (url_unsubst src)"
  shows "length (csilk_base64_encode data) = (length data + 2) div 3 * 4
    \<and> length (csilk_base64url_encode data) \<le> (length data + 2) div 3 * 4
    \<and> (fst (csilk_base64url_decode [] src cap) = None \<longleftrightarrow>
         (\<not> set body \<subseteq> set b64_table \<or> cap < 6 * length body div 8))
    \<and> (\<forall>r. fst (csilk_base64url_decode [] src cap) = Some r \<longrightarrow>
         length r = 6 * length body div 8 \<and> length r \<le> cap)"
proof -
  have len: "length (csilk_base64_encode data) = (length data + 2) div 3 * 4"
    unfolding encode_eq length_enc_pad by simp
  have body: "data_part (b64_pad (url_unsubst src)) = body"
    unfolding b64_pad_def body_def by (rule data_part_pad)
  have "length (csilk_base64url_encode data) \<le> (length data + 2) div 3 * 4"
    using url_subst_length[of "csilk_base64_encode data"] len by (simp add: csilk_base64url_encode_def)
  then show ?thesis
    using len decode_loop_outcome[of 0 "[]" cap "b64_pad (url_unsubst src)" 0]
    unfolding csilk_base64url_decode_def body malloc_simps 
    by (simp del: b64_decode_loop.simps) (metis (no_types, lifting) not_less option.distinct(1))
qed

theorem base64_sizes_and_errors_witness:
  "fst (csilk_base64url_decode [] ''QU*D'' 3) = None \<and> (\<exists>r. fst (csilk_base64url_decode [] ''QUJD'' 3) = Some r \<and> length r = 3)
   \<and> length (csilk_base64_encode ''ABCD'') = 8"
  using base64_sizes_and_errors[of "''ABCD''" "''QU*D''" 3] base64_sizes_and_errors[of "''ABC''" "''QUJD''" 3]
  by (auto simp: url_unsubst_def b64_table_def)

end
