(* ===== verification/Csv.thy ===== *)
theory Csv
  imports Csilk_Prelude
begin

text \<open>
  Model of src/util/csv.c: escaping a field into a bounded buffer, parsing one field and parsing a
  row. An output buffer of size \<open>out_sz\<close> is represented by the characters written so far; a write at
  or behind \<open>out_sz\<close> is undefined behaviour (\<open>None\<close>). Sizes are 64-bit: the subtraction \<open>out_sz - 2\<close>
  of the code wraps.
\<close>

section \<open>Escaping\<close>

definition sz_sub :: "nat \<Rightarrow> nat \<Rightarrow> nat" where
  "sz_sub a b = (a + 2 ^ 64 - b) mod 2 ^ 64"

definition csv_special :: "char \<Rightarrow> bool" where
  "csv_special c = (c = CHR '','' \<or> c = DQUOTE \<or> c = LF \<or> c = CR)"

definition put_char :: "nat \<Rightarrow> string \<Rightarrow> char \<Rightarrow> string option" where
  "put_char out_sz out c = (if length out < out_sz then Some (out @ [c]) else None)"

fun csv_escape_loop :: "nat \<Rightarrow> string \<Rightarrow> string \<Rightarrow> string option" where
  "csv_escape_loop out_sz [] out = Some out"
| "csv_escape_loop out_sz (c # cs) out =
     (if length out < sz_sub out_sz 2 then
        if c = DQUOTE then
          (case put_char out_sz out DQUOTE of
             None \<Rightarrow> None
           | Some out \<Rightarrow>
               if length out < sz_sub out_sz 2 then
                 (case put_char out_sz out DQUOTE of None \<Rightarrow> None | Some out \<Rightarrow> csv_escape_loop out_sz cs out)
               else csv_escape_loop out_sz cs out)
        else (case put_char out_sz out c of None \<Rightarrow> None | Some out \<Rightarrow> csv_escape_loop out_sz cs out)
      else Some out)"

text \<open>The result is the return value and the contents of the buffer.\<close>

definition csilk_csv_escape :: "nat \<Rightarrow> string option \<Rightarrow> (int \<times> string) option" where
  "csilk_csv_escape out_sz inp =
     (if out_sz = 0 then Some (- 1, [])
      else (case inp of
        None \<Rightarrow> Some (0, [NUL])
      | Some s \<Rightarrow>
          if \<not> list_ex csv_special s then Some (int (length s), take (out_sz - 1) s @ [NUL])
          else
            (case csv_escape_loop out_sz s [DQUOTE] of
               None \<Rightarrow> None
             | Some out \<Rightarrow>
                 (case (if length out < sz_sub out_sz 1 then put_char out_sz out DQUOTE else Some out) of
                    None \<Rightarrow> None
                  | Some out \<Rightarrow> map_option (\<lambda>b. (int (length out), b)) (put_char out_sz out NUL)))))"

section \<open>Parsing\<close>

definition put_bounded :: "nat \<Rightarrow> string \<Rightarrow> char \<Rightarrow> string" where
  "put_bounded out_sz out c = (if length out < out_sz - 1 then out @ [c] else out)"

fun csv_quoted_loop :: "string \<Rightarrow> nat \<Rightarrow> nat \<Rightarrow> string \<Rightarrow> string \<times> nat" where
  "csv_quoted_loop [] pos out_sz out = (out, pos)"
| "csv_quoted_loop [c] pos out_sz out =
     (if c = DQUOTE then (out, pos + 1) else (put_bounded out_sz out c, pos + 1))"
| "csv_quoted_loop (c # d # cs) pos out_sz out =
     (if c = DQUOTE \<and> d = DQUOTE then csv_quoted_loop cs (pos + 2) out_sz (put_bounded out_sz out DQUOTE)
      else if c = DQUOTE then (out, pos + 1)
      else csv_quoted_loop (d # cs) (pos + 1) out_sz (put_bounded out_sz out c))"

text \<open>The field and the number of characters consumed, or nothing for the return value -1.\<close>

definition csilk_csv_parse_field :: "string option \<Rightarrow> nat \<Rightarrow> (string \<times> nat) option" where
  "csilk_csv_parse_field ln out_sz = (case ln of
     None \<Rightarrow> None
   | Some line \<Rightarrow>
       if out_sz = 0 then None
       else if line = [] \<or> hd line \<noteq> DQUOTE then
         let pos = length (takeWhile (\<lambda>c. c \<noteq> CHR '','' \<and> c \<noteq> LF \<and> c \<noteq> CR) line);
             n = (if pos < out_sz - 1 then pos else out_sz - 1)
         in Some (take n line, pos)
       else Some (csv_quoted_loop (tl line) 1 out_sz []))"

text \<open>The row loop; a failed field (zero capacity) leaves the output slot as it was and consumes nothing.\<close>

function csv_row_loop :: "string \<Rightarrow> nat \<Rightarrow> nat \<Rightarrow> nat \<Rightarrow> string list \<Rightarrow> string list" where
  "csv_row_loop line pos field_cap max_fields fields =
     (if pos < length line \<and> length fields < max_fields then
        (case (case csilk_csv_parse_field (Some (drop pos line)) field_cap of None \<Rightarrow> ([], 0) | Some r \<Rightarrow> r) of
           (field, consumed) \<Rightarrow>
             let pos = pos + consumed; fields = fields @ [field] in
             if pos \<ge> length line \<or> line ! pos = LF \<or> line ! pos = CR then fields
             else if line ! pos = CHR '','' then csv_row_loop line (pos + 1) field_cap max_fields fields
             else csv_row_loop line pos field_cap max_fields fields)
      else fields)"
  by auto
termination
  by (relation "measure (\<lambda>(line, pos, field_cap, max_fields, fields). max_fields - length fields)") auto

declare csv_row_loop.simps [simp del]

definition csilk_csv_parse_row_ext :: "string option \<Rightarrow> nat \<Rightarrow> nat \<Rightarrow> (int \<times> string list) option" where
  "csilk_csv_parse_row_ext ln field_cap max_fields = (case ln of
     None \<Rightarrow> None
   | Some line \<Rightarrow>
       if max_fields = 0 then None
       else let fields = csv_row_loop line 0 field_cap max_fields [] in Some (int (length fields), fields))"

definition csilk_csv_parse_row :: "string option \<Rightarrow> (int \<times> string list) option" where
  "csilk_csv_parse_row ln = csilk_csv_parse_row_ext ln 512 12"

section \<open>Escaping with enough room\<close>

definition csv_quote :: "string \<Rightarrow> string" where
  "csv_quote s = concat (map (\<lambda>c. if c = DQUOTE then [DQUOTE, DQUOTE] else [c]) s)"

definition csv_field :: "string \<Rightarrow> string" where
  "csv_field s = (if list_ex csv_special s then DQUOTE # csv_quote s @ [DQUOTE] else s)"

lemma csv_quote_simps [simp]: "csv_quote [] = []"
  "csv_quote (c # cs) = (if c = DQUOTE then [DQUOTE, DQUOTE] else [c]) @ csv_quote cs"
  by (simp_all add: csv_quote_def)

lemma sz_sub_eq: "b \<le> a \<Longrightarrow> a < 2 ^ 64 \<Longrightarrow> sz_sub a b = a - b"
  by (simp add: sz_sub_def mod_if)

lemma escape_loop_room:
  assumes "length out + length (csv_quote s) + 2 \<le> out_sz" "out_sz < 2 ^ 64"
  shows "csv_escape_loop out_sz s out = Some (out @ csv_quote s)"
  using assms
proof (induction s arbitrary: out)
  case (Cons c cs)
  have "sz_sub out_sz 2 = out_sz - 2" using Cons.prems by (intro sz_sub_eq) auto
  then show ?case using Cons by (auto simp: put_char_def)
qed simp

lemma escape_loop_bounds:
  assumes "2 \<le> out_sz" "out_sz < 2 ^ 64" "length out < out_sz"
  shows "\<exists>r. csv_escape_loop out_sz s out = Some r \<and> length r < out_sz"
  using assms
proof (induction s arbitrary: out)
  case (Cons c cs)
  have "sz_sub out_sz 2 = out_sz - 2" using Cons.prems by (intro sz_sub_eq) auto
  then show ?case using Cons.prems Cons.IH by (auto simp: put_char_def)
qed simp

section \<open>Parsing what escaping wrote\<close>

lemma quoted_loop_quote:
  assumes "length out + length s < out_sz" "rest = [] \<or> hd rest \<noteq> DQUOTE"
  shows "csv_quoted_loop (csv_quote s @ DQUOTE # rest) pos out_sz out = (out @ s, pos + length (csv_quote s) + 1)"
  using assms
proof (induction s arbitrary: out pos)
  case Nil
  then show ?case by (cases rest) auto
next
  case (Cons c cs)
  obtain d ds where d: "csv_quote cs @ DQUOTE # rest = d # ds" by (cases "csv_quote cs") auto
  have b: "put_bounded out_sz out c = out @ [c]" for c using Cons.prems by (simp add: put_bounded_def)
  show ?case
  proof (cases "c = DQUOTE")
    case True
    then show ?thesis using Cons.IH[of "out @ [c]" "pos + 2"] Cons.prems b by simp
  next
    case False
    then have "csv_quoted_loop (csv_quote (c # cs) @ DQUOTE # rest) pos out_sz out
        = csv_quoted_loop (csv_quote cs @ DQUOTE # rest) (pos + 1) out_sz (out @ [c])"
      using b by (simp add: d)
    then show ?thesis using Cons.IH[of "out @ [c]" "pos + 1"] Cons.prems False by simp
  qed
qed

definition field_end :: "string \<Rightarrow> bool" where
  "field_end rest = (rest = [] \<or> hd rest = CHR '','')"

lemma parse_escaped_field:
  assumes "length f < out_sz" "field_end rest"
  shows "csilk_csv_parse_field (Some (csv_field f @ rest)) out_sz = Some (f, length (csv_field f))"
proof (cases "list_ex csv_special f")
  case True
  have "csv_quoted_loop (csv_quote f @ DQUOTE # rest) 1 out_sz [] = (f, length (csv_quote f) + 2)"
    using quoted_loop_quote[of "[]" f out_sz rest 1] assms by (auto simp: field_end_def)
  then show ?thesis using True assms(1) by (simp add: csilk_csv_parse_field_def csv_field_def)
next
  case False
  then have ns: "\<forall>c\<in>set f. \<not> csv_special c" by (simp add: list_ex_iff)
  have "takeWhile (\<lambda>c. c \<noteq> CHR '','' \<and> c \<noteq> LF \<and> c \<noteq> CR) (f @ rest) = f"
    using ns assms(2) by (cases rest) (auto simp: takeWhile_append takeWhile_eq_all_conv csv_special_def field_end_def)
  moreover have "f @ rest = [] \<or> hd (f @ rest) \<noteq> DQUOTE"
    using ns assms(2) by (cases f) (auto simp: csv_special_def field_end_def)
  ultimately show ?thesis using False assms(1) by (auto simp: csilk_csv_parse_field_def csv_field_def Let_def)
qed

fun csv_line :: "string list \<Rightarrow> string" where
  "csv_line [] = []"
| "csv_line [e] = e"
| "csv_line (e # es) = e @ CHR '','' # csv_line es"

text \<open>A final empty field leaves nothing behind the last comma, and is not reported.\<close>

definition reported :: "string list \<Rightarrow> string list" where
  "reported fs = (if fs \<noteq> [] \<and> last fs = [] then butlast fs else fs)"

lemma csv_field_nonempty: "f \<noteq> [] \<Longrightarrow> csv_field f \<noteq> []"
  by (simp add: csv_field_def)

lemma csv_field_Nil [simp]: "csv_field [] = []"
  by (simp add: csv_field_def)

lemma row_loop_line:
  assumes "\<forall>f\<in>set fs. length f < cap" "length got + length fs \<le> max_fields"
  shows "csv_row_loop (pre @ csv_line (map csv_field fs)) (length pre) cap max_fields got = got @ reported fs"
  using assms
proof (induction fs arbitrary: pre got rule: csv_line.induct)
  case 1
  then show ?case by (simp add: csv_row_loop.simps reported_def)
next
  case (2 f)
  show ?case
  proof (cases "f = []")
    case True
    then show ?thesis by (simp add: csv_row_loop.simps reported_def)
  next
    case False
    have "csilk_csv_parse_field (Some (csv_field f)) cap = Some (f, length (csv_field f))"
      using parse_escaped_field[of f cap "[]"] 2 by (simp add: field_end_def)
    then show ?thesis
      using 2 False csv_field_nonempty[OF False]
      by (subst csv_row_loop.simps) (simp add: reported_def)
  qed
next
  case (3 f g fs)
  let ?rest = "csv_line (map csv_field (g # fs))"
  let ?line = "pre @ csv_field f @ CHR '','' # ?rest"
  have parse: "csilk_csv_parse_field (Some (csv_field f @ CHR '','' # ?rest)) cap = Some (f, length (csv_field f))"
    using 3 by (intro parse_escaped_field) (auto simp: field_end_def)
  have "csv_row_loop ?line (length pre) cap max_fields got
      = csv_row_loop ?line (length (pre @ csv_field f @ [CHR '','' ])) cap max_fields (got @ [f])"
    using 3 parse by (subst csv_row_loop.simps) (simp add: nth_append del: csv_line.simps)
  also have "\<dots> = (got @ [f]) @ reported (g # fs)"
    using 3(1)[of "got @ [f]" "pre @ csv_field f @ [CHR '','' ]"] 3(2,3) by simp
  finally show ?case by (simp add: reported_def)
qed

lemma escape_with_room:
  assumes "2 * length f + 3 \<le> n" "n < 2 ^ 64"
  shows "csilk_csv_escape n (Some f) = Some (int (length (csv_field f)), csv_field f @ [NUL])"
proof -
  have q: "length (csv_quote f) \<le> 2 * length f" by (induction f) auto
  show ?thesis
  proof (cases "list_ex csv_special f")
    case True
    have loop: "csv_escape_loop n f [DQUOTE] = Some ([DQUOTE] @ csv_quote f)"
      using q assms by (intro escape_loop_room) auto
    have "sz_sub n 1 = n - 1" using assms by (intro sz_sub_eq) auto
    then show ?thesis
      using True assms q by (simp add: csilk_csv_escape_def loop put_char_def csv_field_def)
  next
    case False
    then show ?thesis using assms by (simp add: csilk_csv_escape_def csv_field_def)
  qed
qed

section \<open>Properties\<close>

text \<open>
  C25. Round trip of a CSV row: when every field is escaped by \<open>csilk_csv_escape\<close> into a buffer of at
  least twice its length plus three, the escaped fields are joined by commas and the line is parsed
  with enough slots of sufficient capacity, \<open>csilk_csv_parse_row_ext\<close> gives the fields back, whatever
  commas, quotes and line breaks they contain, except that a final empty field is dropped.
\<close>
theorem csv_row_roundtrip:
  assumes "list_all2 (\<lambda>f e. \<exists>n. 2 * length f + 3 \<le> n \<and> n < 2 ^ 64
      \<and> csilk_csv_escape n (Some f) = Some (int (length e), e @ [NUL])) fs es"
    and "\<forall>f\<in>set fs. length f < cap" "length fs \<le> max_fields" "0 < max_fields"
  shows "csilk_csv_parse_row_ext (Some (csv_line es)) cap max_fields
    = Some (int (length (reported fs)), reported fs)"
proof -
  have "es = map csv_field fs"
    using assms(1) by (induction fs es rule: list_all2_induct) (auto simp: escape_with_room)
  then show ?thesis
    using row_loop_line[of fs cap "[]" max_fields "[]"] assms(2-4)
    by (simp add: csilk_csv_parse_row_ext_def Let_def)
qed

theorem csv_row_roundtrip_witness:
  "csilk_csv_parse_row_ext (Some (csv_line [''a'', [DQUOTE, CHR '','', DQUOTE]])) 512 12
    = Some (int (length (reported [''a'', '','' ])), reported [''a'', '','' ])"
proof (rule csv_row_roundtrip)
  have "csv_field ''a'' = ''a''" "csv_field '','' = [DQUOTE, CHR '','', DQUOTE]"
    by (simp_all add: csv_field_def csv_special_def)
  then show "list_all2 (\<lambda>f e. \<exists>n. 2 * length f + 3 \<le> n \<and> n < 2 ^ 64
      \<and> csilk_csv_escape n (Some f) = Some (int (length e), e @ [NUL])) [''a'', '','' ] [''a'', [DQUOTE, CHR '','', DQUOTE]]"
    using escape_with_room[of "''a''" 5] escape_with_room[of "'',''" 5] by (auto intro!: exI[of _ 5])
qed simp_all

text \<open>
  \<open>csilk_csv_escape\<close> stays within its buffer for every input when the buffer has at least two
  bytes, and ends what it wrote with NUL; with a buffer of one byte and an input that needs quotes the
  bound \<open>out_sz - 2\<close> wraps around and the function writes behind the buffer.
\<close>
theorem csv_escape_bounds:
  assumes "0 < out_sz" "out_sz < 2 ^ 64"
  shows "if out_sz = 1 \<and> list_ex csv_special s then csilk_csv_escape out_sz (Some s) = None
    else (\<exists>r buf. csilk_csv_escape out_sz (Some s) = Some (r, buf @ [NUL]) \<and> length (buf @ [NUL]) \<le> out_sz)"
proof (cases "list_ex csv_special s")
  case False
  then show ?thesis using assms by (auto simp: csilk_csv_escape_def)
next
  case special: True
  show ?thesis
  proof (cases "out_sz = 1")
    case True
    obtain c cs where "s = c # cs" using special by (cases s) auto
    then have "csv_escape_loop out_sz s [DQUOTE] = None"
      using True by (simp add: put_char_def sz_sub_def)
    then show ?thesis using True special by (simp add: csilk_csv_escape_def)
  next
    case False
    then have two: "2 \<le> out_sz" using assms(1) by simp
    obtain out where out: "csv_escape_loop out_sz s [DQUOTE] = Some out" "length out < out_sz"
      using escape_loop_bounds[OF two assms(2), of "[DQUOTE]" s] two by auto
    have "sz_sub out_sz 1 = out_sz - 1" using assms by (intro sz_sub_eq) auto
    then show ?thesis using special False out assms(1) by (auto simp: csilk_csv_escape_def put_char_def)
  qed
qed

theorem csv_escape_bounds_witness: "csilk_csv_escape 1 (Some '','' ) = None"
  using csv_escape_bounds[of 1 "'',''"] by (simp add: csv_special_def)

end
