(* ===== verification/Circuit_Breaker.thy ===== *)
theory Circuit_Breaker
  imports Csilk_Prelude
begin

text \<open>
  Model of src/middleware/circuit_breaker.c: the breaker record, its four operations, and the
  transition system of requests and recorded outcomes. Every operation runs under the mutex of the
  breaker, so a concurrent execution is a sequence of the steps below; each takes the value of the
  clock \<open>csilk_io_hrtime\<close> (nanoseconds, 64 bits) at that moment. A signed overflow of the failure
  counter is undefined behaviour (\<open>None\<close>).
\<close>

section \<open>The operations\<close>

record csilk_circuit_breaker =
  cb_state :: int
  consecutive_failures :: int
  failure_threshold :: int
  recovery_timeout_ms :: int
  last_state_change_us :: u64

abbreviation CLOSED :: int where "CLOSED \<equiv> 0"
abbreviation OPEN :: int where "OPEN \<equiv> 1"
abbreviation HALF_OPEN :: int where "HALF_OPEN \<equiv> 2"

record cb_config =
  cfg_threshold :: int
  cfg_timeout :: int

definition csilk_circuit_breaker_new :: "heap \<Rightarrow> u64 \<Rightarrow> cb_config option \<Rightarrow> csilk_circuit_breaker option \<times> heap" where
  "csilk_circuit_breaker_new al hrtime config = (case malloc al of (ok, al) \<Rightarrow>
     if \<not> ok then (None, al)
     else (Some \<lparr>cb_state = CLOSED, consecutive_failures = 0,
             failure_threshold = (case config of Some g \<Rightarrow> if cfg_threshold g > 0 then cfg_threshold g else 5 | None \<Rightarrow> 5),
             recovery_timeout_ms = (case config of Some g \<Rightarrow> if cfg_timeout g > 0 then cfg_timeout g else 5000 | None \<Rightarrow> 5000),
             last_state_change_us = hrtime div 1000\<rparr>, al))"

text \<open>What the middleware does with the request: pass it on, or answer it and abort the chain.\<close>

datatype verdict = Next | Answer nat

definition csilk_circuit_breaker_middleware ::
  "u64 \<Rightarrow> csilk_circuit_breaker \<Rightarrow> csilk_circuit_breaker \<times> verdict" where
  "csilk_circuit_breaker_middleware hrtime cb =
     (let now_us = hrtime div 1000 in
      if cb_state cb = OPEN then
        if (now_us - last_state_change_us cb) div 1000 \<ge> of_int (recovery_timeout_ms cb)
        then (cb\<lparr>cb_state := HALF_OPEN, last_state_change_us := now_us\<rparr>, Next)
        else (cb, Answer 503)
      else (cb, Next))"

definition csilk_circuit_breaker_record_success :: "u64 \<Rightarrow> csilk_circuit_breaker \<Rightarrow> csilk_circuit_breaker" where
  "csilk_circuit_breaker_record_success hrtime cb =
     (let cb = cb\<lparr>consecutive_failures := 0\<rparr> in
      if cb_state cb = HALF_OPEN
      then cb\<lparr>cb_state := CLOSED, last_state_change_us := hrtime div 1000\<rparr> else cb)"

definition csilk_circuit_breaker_record_failure ::
  "u64 \<Rightarrow> csilk_circuit_breaker \<Rightarrow> csilk_circuit_breaker option" where
  "csilk_circuit_breaker_record_failure hrtime cb =
     (if consecutive_failures cb = 2 ^ 31 - 1 then None
      else let cb = cb\<lparr>consecutive_failures := consecutive_failures cb + 1\<rparr> in
        Some (if consecutive_failures cb \<ge> failure_threshold cb
              then cb\<lparr>cb_state := OPEN, last_state_change_us := hrtime div 1000\<rparr> else cb))"

definition csilk_circuit_breaker_get_state :: "csilk_circuit_breaker option \<Rightarrow> int" where
  "csilk_circuit_breaker_get_state cb = (case cb of None \<Rightarrow> 0 | Some cb \<Rightarrow> cb_state cb)"

section \<open>Runs\<close>

datatype cb_event = Request u64 | Success u64 | Failure u64

fun cb_time :: "cb_event \<Rightarrow> u64" where
  "cb_time (Request t) = t" | "cb_time (Success t) = t" | "cb_time (Failure t) = t"

inductive cb_step :: "csilk_circuit_breaker \<Rightarrow> cb_event \<Rightarrow> verdict option \<Rightarrow> csilk_circuit_breaker \<Rightarrow> bool" where
  request: "csilk_circuit_breaker_middleware t cb = (cb', v) \<Longrightarrow> cb_step cb (Request t) (Some v) cb'"
| success: "cb_step cb (Success t) None (csilk_circuit_breaker_record_success t cb)"
| failure: "csilk_circuit_breaker_record_failure t cb = Some cb' \<Longrightarrow> cb_step cb (Failure t) None cb'"

inductive_simps cb_step_simps [simp]:
  "cb_step cb (Request t) out cb'" "cb_step cb (Success t) out cb'" "cb_step cb (Failure t) out cb'"

inductive cb_run :: "csilk_circuit_breaker \<Rightarrow> (cb_event \<times> verdict option) list \<Rightarrow> csilk_circuit_breaker \<Rightarrow> bool" where
  stop: "cb_run cb [] cb"
| step: "cb_step cb e out cb1 \<Longrightarrow> cb_run cb1 tr cb2 \<Longrightarrow> cb_run cb ((e, out) # tr) cb2"

inductive_simps cb_run_Nil [simp]: "cb_run cb [] cb'"
inductive_simps cb_run_Cons: "cb_run cb ((e, out) # tr) cb'"

lemmas cb_ops = csilk_circuit_breaker_middleware_def csilk_circuit_breaker_record_success_def
  csilk_circuit_breaker_record_failure_def

section \<open>The invariant\<close>

text \<open>A closed breaker has seen fewer failures in a row than its threshold.\<close>

definition cb_wf :: "csilk_circuit_breaker \<Rightarrow> bool" where
  "cb_wf cb = (cb_state cb \<in> {CLOSED, OPEN, HALF_OPEN} \<and> 0 < failure_threshold cb \<and> 0 < recovery_timeout_ms cb
     \<and> recovery_timeout_ms cb < 2 ^ 31 \<and> 0 \<le> consecutive_failures cb \<and> consecutive_failures cb < 2 ^ 31
     \<and> (cb_state cb = CLOSED \<longrightarrow> consecutive_failures cb < failure_threshold cb))"

lemma cb_step_wf [wf_rules]: "cb_step cb e out cb' \<Longrightarrow> cb_wf cb \<Longrightarrow> cb_wf cb'"
  by (cases e) (auto simp: cb_wf_def cb_ops Let_def split: if_splits)

lemma cb_step_config: "cb_step cb e out cb' \<Longrightarrow>
    failure_threshold cb' = failure_threshold cb \<and> recovery_timeout_ms cb' = recovery_timeout_ms cb"
  by (cases e) (auto simp: cb_ops Let_def split: if_splits)

lemma cb_run_wf: "cb_run cb tr cb' \<Longrightarrow> cb_wf cb \<Longrightarrow> cb_wf cb'"
  by (induction rule: cb_run.induct) (auto intro: wf_rules)

lemma cb_run_config: "cb_run cb tr cb' \<Longrightarrow>
    failure_threshold cb' = failure_threshold cb \<and> recovery_timeout_ms cb' = recovery_timeout_ms cb"
  by (induction rule: cb_run.induct) (auto dest: cb_step_config)

lemma cb_new_wf:
  assumes "csilk_circuit_breaker_new al t config = (Some cb, al')"
    and "\<forall>g. config = Some g \<longrightarrow> cfg_timeout g < 2 ^ 31"
  shows "cb_wf cb" "consecutive_failures cb = 0" "cb_state cb = CLOSED"
  using assms by (auto simp: csilk_circuit_breaker_new_def cb_wf_def split: prod.splits if_splits option.splits)

text \<open>The number of failures recorded since the last success.\<close>

fun failures_in_row :: "int \<Rightarrow> cb_event list \<Rightarrow> int" where
  "failures_in_row n [] = n"
| "failures_in_row n (Request t # es) = failures_in_row n es"
| "failures_in_row n (Success t # es) = failures_in_row 0 es"
| "failures_in_row n (Failure t # es) = failures_in_row (n + 1) es"

lemma cb_run_counts:
  "cb_run cb tr cb' \<Longrightarrow> consecutive_failures cb' = failures_in_row (consecutive_failures cb) (map fst tr)"
proof (induction rule: cb_run.induct)
  case (step cb e out cb1 tr cb2)
  then show ?case by (cases e) (auto simp: cb_ops Let_def split: if_splits)
qed simp

text \<open>While the failures in a row stay below the threshold, a closed breaker stays closed.\<close>

lemma cb_run_closed:
  assumes "cb_run cb tr cb'" "cb_state cb = CLOSED"
    and "\<forall>n \<le> length tr. failures_in_row (consecutive_failures cb) (map fst (take n tr)) < failure_threshold cb"
  shows "cb_state cb' = CLOSED \<and> (\<forall>x\<in>set tr. snd x \<in> {None, Some Next})"
  using assms
proof (induction rule: cb_run.induct)
  case (step cb e out cb1 tr cb2)
  have below: "failures_in_row (consecutive_failures cb) (e # map fst (take n tr)) < failure_threshold cb"
    if "n \<le> length tr" for n
    using step.prems(2)[rule_format, of "Suc n"] that by simp
  have cf: "consecutive_failures cb1 = failures_in_row (consecutive_failures cb) [e]"
    using cb_run_counts[of cb "[(e, out)]" cb1] step.hyps(1) by (simp add: cb_run_Cons)
  have closed: "cb_state cb1 = CLOSED \<and> out \<in> {None, Some Next}"
    using step.hyps(1) step.prems(1) below[of 0] by (cases e) (auto simp: cb_ops Let_def split: if_splits)
  have "failures_in_row (consecutive_failures cb1) es = failures_in_row (consecutive_failures cb) (e # es)" for es
    using cf by (cases e) simp_all
  then show ?case
    using step.IH closed below cb_step_config[OF step.hyps(1)] by auto
qed simp

section \<open>Time\<close>

definition us :: "u64 \<Rightarrow> nat" where
  "us t = unat (t div 1000)"

lemma elapsed_iff:
  assumes "unat prev \<le> us t" "0 < timeout" "timeout < 2 ^ 31"
  shows "(t div 1000 - prev) div 1000 \<ge> (of_int timeout :: u64) \<longleftrightarrow> unat prev + 1000 * nat timeout \<le> us t"
proof -
  have tm: "unat (of_int timeout :: u64) = nat timeout"
  proof -
    have "nat timeout < 2 ^ 64" using assms(3) by simp
    then have "unat (of_nat (nat timeout) :: u64) = nat timeout" by (simp add: unat_of_nat take_bit_nat_eq_self)
    then show ?thesis using assms(2) by simp
  qed
  have "unat (t div 1000 - prev) = us t - unat prev"
    using assms(1) by (simp add: us_def unat_sub word_le_nat_alt)
  then have "unat ((t div 1000 - prev) div 1000) = (us t - unat prev) div 1000"
    by (simp add: unat_div)
  then have "(t div 1000 - prev) div 1000 \<ge> (of_int timeout :: u64) \<longleftrightarrow> nat timeout \<le> (us t - unat prev) div 1000"
    by (simp add: word_le_nat_alt tm)
  also have "\<dots> \<longleftrightarrow> 1000 * nat timeout \<le> us t - unat prev" by (simp add: less_eq_div_iff_mult_less_eq mult.commute)
  finally show ?thesis using assms(1) by auto
qed

text \<open>An open breaker whose last change is at or after \<open>since\<close> stays open until the timeout has passed.\<close>

lemma cb_run_open:
  assumes "cb_run cb tr cb'" "cb_state cb = OPEN" "0 < recovery_timeout_ms cb" "recovery_timeout_ms cb < 2 ^ 31"
    and "since \<le> unat (last_state_change_us cb)"
    and "sorted (unat (last_state_change_us cb) # map (\<lambda>x. us (cb_time (fst x))) tr)"
    and "\<forall>x\<in>set tr. us (cb_time (fst x)) < since + 1000 * nat (recovery_timeout_ms cb)"
  shows "cb_state cb' = OPEN \<and> (\<forall>x\<in>set tr. snd x \<in> {None, Some (Answer 503)})"
  using assms
proof (induction rule: cb_run.induct)
  case (step cb e out cb1 tr cb2)
  have late: "unat (last_state_change_us cb) \<le> us (cb_time e)" using step.prems by simp
  have no: "\<not> (cb_time e div 1000 - last_state_change_us cb) div 1000 \<ge> (of_int (recovery_timeout_ms cb) :: u64)"
    using elapsed_iff[OF late step.prems(2,3)] step.prems(4,6) by simp
  have same: "cb_state cb1 = OPEN \<and> out \<in> {None, Some (Answer 503)} \<and>
      last_state_change_us cb1 \<in> {last_state_change_us cb, cb_time e div 1000}"
    using step.hyps(1) step.prems(1) no by (cases e) (auto simp: cb_ops Let_def split: if_splits)
  then have "since \<le> unat (last_state_change_us cb1)" "unat (last_state_change_us cb1) \<le> us (cb_time e)"
    using step.prems(4) late by (auto simp: us_def)
  moreover have "sorted (us (cb_time e) # map (\<lambda>x. us (cb_time (fst x))) tr)" using step.prems(5) by simp
  ultimately have "sorted (unat (last_state_change_us cb1) # map (\<lambda>x. us (cb_time (fst x))) tr)" by auto
  then show ?case
    using step.IH same step.prems \<open>since \<le> unat (last_state_change_us cb1)\<close> cb_step_config[OF step.hyps(1)] by auto
qed simp

section \<open>Properties\<close>

text \<open>
  Counting: after any sequence of requests, successes and failures on a new breaker, the state is
  one of the three documented ones, the counter is the number of failures since the last success, and
  a closed breaker has fewer of them than its threshold; while that number stays below the threshold
  the breaker is closed and every request passes.
\<close>
theorem breaker_counts_failures:
  assumes "csilk_circuit_breaker_new al t config = (Some cb, al')" "\<forall>g. config = Some g \<longrightarrow> cfg_timeout g < 2 ^ 31"
    and "cb_run cb tr cb'"
  shows "csilk_circuit_breaker_get_state (Some cb') \<in> {0, 1, 2}
    \<and> consecutive_failures cb' = failures_in_row 0 (map fst tr)
    \<and> (csilk_circuit_breaker_get_state (Some cb') = CLOSED \<longrightarrow> failures_in_row 0 (map fst tr) < failure_threshold cb')
    \<and> ((\<forall>n \<le> length tr. failures_in_row 0 (map fst (take n tr)) < failure_threshold cb) \<longrightarrow>
         cb_state cb' = CLOSED \<and> (\<forall>x\<in>set tr. snd x \<in> {None, Some Next}))"
proof -
  note new = cb_new_wf[OF assms(1,2)]
  have "cb_wf cb'" using cb_run_wf[OF assms(3) new(1)] .
  then show ?thesis
    using cb_run_counts[OF assms(3)] cb_run_closed[OF assms(3) new(3)] new(2)
    by (auto simp: cb_wf_def csilk_circuit_breaker_get_state_def)
qed

abbreviation fresh_cb :: csilk_circuit_breaker where
  "fresh_cb \<equiv> \<lparr>cb_state = CLOSED, consecutive_failures = 0, failure_threshold = 2, recovery_timeout_ms = 1,
     last_state_change_us = 0\<rparr>"

lemma fresh_cb_new:
  "csilk_circuit_breaker_new [] 0 (Some \<lparr>cfg_threshold = 2, cfg_timeout = 1\<rparr>) = (Some fresh_cb, [])"
  by (simp add: csilk_circuit_breaker_new_def)

lemma fresh_cb_run: "cb_run fresh_cb [(Failure 0, None), (Request 0, Some Next)] (fresh_cb\<lparr>consecutive_failures := 1\<rparr>)"
  by (simp add: cb_run_Cons cb_ops Let_def)

theorem breaker_counts_failures_witness:
  "csilk_circuit_breaker_get_state (Some (fresh_cb\<lparr>consecutive_failures := 1\<rparr>)) \<in> {0, 1, 2}"
  using breaker_counts_failures[OF fresh_cb_new _ fresh_cb_run] by simp

text \<open>
  C26. Open means rejected: while the events of a run (in the order of the clock) lie less than the
  recovery timeout after the last state change of an open breaker, the breaker stays open and every
  request is answered with 503, whatever outcomes are recorded meanwhile.
\<close>
theorem open_breaker_rejects:
  assumes "cb_run cb tr cb'" "cb_wf cb" "cb_state cb = OPEN"
    and "sorted (unat (last_state_change_us cb) # map (\<lambda>x. us (cb_time (fst x))) tr)"
    and "\<forall>x\<in>set tr. us (cb_time (fst x)) < unat (last_state_change_us cb) + 1000 * nat (recovery_timeout_ms cb)"
  shows "cb_state cb' = OPEN \<and> (\<forall>x\<in>set tr. snd x \<in> {None, Some (Answer 503)})"
  using assms(2) by (intro cb_run_open[OF assms(1,3) _ _ order.refl assms(4,5)]) (auto simp: cb_wf_def)

theorem open_breaker_rejects_witness:
  "\<exists>cb'. cb_run (fresh_cb\<lparr>cb_state := OPEN\<rparr>) [(Success 5, None), (Request 7, Some (Answer 503))] cb' \<and> cb_state cb' = OPEN"
proof -
  let ?cb = "fresh_cb\<lparr>cb_state := OPEN\<rparr>"
  have run: "cb_run ?cb [(Success 5, None), (Request 7, Some (Answer 503))] ?cb"
    by (simp add: cb_run_Cons cb_ops Let_def)
  have "cb_wf ?cb" by (simp add: cb_wf_def)
  from open_breaker_rejects[OF run this] run show ?thesis by (auto simp: us_def)
qed



text \<open>
  A failed probe need not open the breaker again: a success recorded while the breaker is open resets
  the counter, so after the timeout the first failure in the half-open state only counts as one, and
  the breaker keeps passing requests.
\<close>
lemma failed_probe_keeps_passing:
  "\<exists>cb'. cb_run fresh_cb [(Failure 0, None), (Failure 0, None), (Success 0, None), (Request 1000000, Some Next),
      (Failure 1000000, None), (Request 1000000, Some Next)] cb' \<and> cb_state cb' = HALF_OPEN"
  by (simp add: cb_run_Cons cb_ops Let_def word_le_nat_alt unat_div)

end
