(* ===== verification/Rate_Limit.thy ===== *)
theory Rate_Limit
  imports Csilk_Prelude
begin

text \<open>
  Model of src/middleware/ratelimit.c: the open-addressing table of per-address counters and the two
  decision paths of the middleware. A request is one step on the table: the compare-exchange
  operations, which only fail when another worker interferes between the load and the exchange,
  succeed. Times are the seconds of \<open>time\<close>; the counter is a 32-bit word and is compared as a signed
  int, as in the code. The distributed counter of a storage driver is a parameter.
\<close>

section \<open>The table\<close>

definition MAX_IP_ENTRIES :: nat where
  "MAX_IP_ENTRIES = 65536"

definition WINDOW_SIZE :: int where
  "WINDOW_SIZE = 60"

record atomic_ip_entry =
  e_ip :: string
  e_count :: u32
  e_last_reset :: int
  e_last_seen :: int
  e_in_use :: int

type_synonym ip_table = "atomic_ip_entry list"

fun ip_hash_loop :: "string \<Rightarrow> u32 \<Rightarrow> u32" where
  "ip_hash_loop [] hash = hash"
| "ip_hash_loop (c # cs) hash =
     (if c = NUL then hash else ip_hash_loop cs ((push_bit 5 hash + hash) + of_nat (byte c)))"

definition ip_hash :: "string \<Rightarrow> nat" where
  "ip_hash ip = unat (ip_hash_loop ip 5381) mod MAX_IP_ENTRIES"

text \<open>\<open>snprintf(slot->ip, 46, "%s", ip)\<close> keeps at most 45 characters.\<close>

definition claim_slot :: "ip_table \<Rightarrow> nat \<Rightarrow> string \<Rightarrow> int \<Rightarrow> ip_table" where
  "claim_slot tbl idx ip now = tbl[idx := (tbl ! idx)\<lparr>e_ip := take 45 ip, e_count := 0, e_last_reset := now,
     e_last_seen := now, e_in_use := 2\<rparr>]"

function probe :: "ip_table \<Rightarrow> string \<Rightarrow> int \<Rightarrow> nat \<Rightarrow> nat \<Rightarrow> ip_table \<times> nat option" where
  "probe tbl ip now start_idx i =
     (if i < MAX_IP_ENTRIES then
        let idx = (start_idx + i) mod MAX_IP_ENTRIES; slot = tbl ! idx in
        if e_in_use slot = 0 then (claim_slot tbl idx ip now, Some idx)
        else if e_in_use slot = 2 \<and> strcmp (e_ip slot) ip = 0
          then (tbl[idx := slot\<lparr>e_last_seen := now\<rparr>], Some idx)
        else probe tbl ip now start_idx (i + 1)
      else (tbl, None))"
  by auto
termination by (relation "measure (\<lambda>(tbl, ip, now, start_idx, i). MAX_IP_ENTRIES - i)") auto

declare probe.simps [simp del]

definition get_or_create_ip_entry :: "ip_table \<Rightarrow> string \<Rightarrow> int \<Rightarrow> ip_table \<times> nat option" where
  "get_or_create_ip_entry tbl ip now = probe tbl ip now (ip_hash ip) 0"

section \<open>The decision\<close>

datatype rl_verdict = Pass | Blocked int

definition rate_limit_local :: "ip_table \<Rightarrow> string \<Rightarrow> int \<Rightarrow> int \<Rightarrow> ip_table \<times> rl_verdict" where
  "rate_limit_local tbl ip now limit =
     (case get_or_create_ip_entry tbl ip now of
        (tbl, None) \<Rightarrow> (tbl, Pass)
      | (tbl, Some idx) \<Rightarrow>
          let entry = tbl ! idx;
              entry = (if now - e_last_reset entry > WINDOW_SIZE
                       then entry\<lparr>e_last_reset := now, e_count := 1\<rparr>
                       else entry\<lparr>e_count := e_count entry + 1\<rparr>);
              current_count = e_count entry;
              tbl = tbl[idx := entry]
          in if sint current_count > limit
             then (tbl, Blocked (let retry = WINDOW_SIZE - (now - e_last_reset entry) in if retry < 1 then 1 else retry))
             else (tbl, Pass))"

text \<open>
  The middleware: without a client address the request passes; with a storage driver its counter
  decides unless it reports an error (a negative value); otherwise the local table decides.
\<close>

definition csilk_rate_limit_middleware ::
  "(string \<Rightarrow> int \<Rightarrow> int) option \<Rightarrow> ip_table \<Rightarrow> string option \<Rightarrow> int \<Rightarrow> int \<Rightarrow> ip_table \<times> rl_verdict" where
  "csilk_rate_limit_middleware storage_incr tbl client_ip now limit = (case client_ip of
     None \<Rightarrow> (tbl, Pass)
   | Some ip \<Rightarrow>
       (case storage_incr of
          Some incr \<Rightarrow>
            let current_count = incr (take 127 (''ratelimit:'' @ ip)) WINDOW_SIZE in
            if current_count \<ge> 0 then
              if current_count > limit then (tbl, Blocked WINDOW_SIZE) else (tbl, Pass)
            else rate_limit_local tbl ip now limit
        | None \<Rightarrow> rate_limit_local tbl ip now limit))"

definition empty_ip_table :: ip_table where
  "empty_ip_table = replicate MAX_IP_ENTRIES
     \<lparr>e_ip = [], e_count = 0, e_last_reset = 0, e_last_seen = 0, e_in_use = 0\<rparr>"

section \<open>The table as a map of addresses\<close>

definition used_by :: "ip_table \<Rightarrow> string \<Rightarrow> nat \<Rightarrow> bool" where
  "used_by tbl ip i = (e_in_use (tbl ! i) = 2 \<and> e_ip (tbl ! i) = ip)"

text \<open>The slot at distance \<open>d\<close> in the probe sequence of an address.\<close>

definition probe_slot :: "string \<Rightarrow> nat \<Rightarrow> nat" where
  "probe_slot ip d = (ip_hash ip + d) mod MAX_IP_ENTRIES"

text \<open>All slots in front of distance \<open>d\<close> are in use by other addresses.\<close>

definition passed :: "ip_table \<Rightarrow> string \<Rightarrow> nat \<Rightarrow> bool" where
  "passed tbl ip d = (\<forall>j < d. e_in_use (tbl ! probe_slot ip j) = 2 \<and> e_ip (tbl ! probe_slot ip j) \<noteq> ip)"

definition wf_table :: "ip_table \<Rightarrow> bool" where
  "wf_table tbl = (length tbl = MAX_IP_ENTRIES \<and>
     (\<forall>i < MAX_IP_ENTRIES. e_in_use (tbl ! i) = 0 \<or>
        (e_in_use (tbl ! i) = 2 \<and> (\<exists>d < MAX_IP_ENTRIES. i = probe_slot (e_ip (tbl ! i)) d \<and> passed tbl (e_ip (tbl ! i)) d))))"

definition rl_index :: "ip_table \<Rightarrow> string \<Rightarrow> nat option" where
  "rl_index tbl ip = List.find (used_by tbl ip) [0..<MAX_IP_ENTRIES]"

definition rl_abs :: "ip_table \<Rightarrow> string \<Rightarrow> (u32 \<times> int) option" where
  "rl_abs tbl ip = map_option (\<lambda>i. (e_count (tbl ! i), e_last_reset (tbl ! i))) (rl_index tbl ip)"

lemma probe_slot_less [simp]: "probe_slot ip d < MAX_IP_ENTRIES"
  by (simp add: probe_slot_def MAX_IP_ENTRIES_def)

lemma probe_slot_onto: "i < MAX_IP_ENTRIES \<Longrightarrow> \<exists>d < MAX_IP_ENTRIES. i = probe_slot ip d"
proof -
  assume i: "i < MAX_IP_ENTRIES"
  have h: "ip_hash ip < MAX_IP_ENTRIES" by (simp add: ip_hash_def MAX_IP_ENTRIES_def)
  show ?thesis
  proof (cases "ip_hash ip \<le> i")
    case True
    then show ?thesis using i by (intro exI[of _ "i - ip_hash ip"]) (simp add: probe_slot_def)
  next
    case False
    then show ?thesis
      using i h by (intro exI[of _ "i + MAX_IP_ENTRIES - ip_hash ip"]) (simp add: probe_slot_def)
  qed
qed

lemma wf_in_use: "wf_table tbl \<Longrightarrow> i < MAX_IP_ENTRIES \<Longrightarrow> e_in_use (tbl ! i) = 0 \<or> e_in_use (tbl ! i) = 2"
  unfolding wf_table_def by blast

lemma used_unique:
  assumes "wf_table tbl" "i < MAX_IP_ENTRIES" "j < MAX_IP_ENTRIES" "used_by tbl ip i" "used_by tbl ip j"
  shows "i = j"
proof -
  obtain d where d: "i = probe_slot ip d" "passed tbl ip d"
    using assms(1,2,4) by (force simp: wf_table_def used_by_def)
  obtain e where e: "j = probe_slot ip e" "passed tbl ip e"
    using assms(1,3,5) by (force simp: wf_table_def used_by_def)
  have "\<not> d < e" using assms(4) d(1) e(2) by (auto simp: passed_def used_by_def)
  moreover have "\<not> e < d" using assms(5) e(1) d(2) by (auto simp: passed_def used_by_def)
  ultimately show ?thesis using d(1) e(1) by simp
qed

lemma rl_index_eq:
  assumes "wf_table tbl" "i < MAX_IP_ENTRIES" "used_by tbl ip i"
  shows "rl_index tbl ip = Some i"
proof -
  have "rl_index tbl ip \<noteq> None" using assms(2,3) by (auto simp: rl_index_def find_None_iff)
  then obtain j where j: "rl_index tbl ip = Some j" by auto
  then have "used_by tbl ip j" "j < MAX_IP_ENTRIES" by (auto simp: rl_index_def find_Some_iff)
  then show ?thesis using j used_unique[OF assms(1,2) _ assms(3)] by simp
qed

lemma rl_index_None: "rl_index tbl ip = None \<longleftrightarrow> (\<forall>i < MAX_IP_ENTRIES. \<not> used_by tbl ip i)"
  by (auto simp: rl_index_def find_None_iff)

section \<open>Probing\<close>

lemma probe_pass:
  "passed tbl ip d \<Longrightarrow> d \<le> MAX_IP_ENTRIES \<Longrightarrow> get_or_create_ip_entry tbl ip now = probe tbl ip now (ip_hash ip) d"
proof (induction d)
  case (Suc d)
  then have IH: "get_or_create_ip_entry tbl ip now = probe tbl ip now (ip_hash ip) d"
    by (auto simp: passed_def)
  have "e_in_use (tbl ! probe_slot ip d) = 2 \<and> e_ip (tbl ! probe_slot ip d) \<noteq> ip"
    using Suc.prems by (simp add: passed_def)
  then show ?case
    unfolding IH using Suc.prems by (subst probe.simps) (simp add: Let_def probe_slot_def)
qed (simp add: get_or_create_ip_entry_def)

lemma probe_found:
  assumes "wf_table tbl" "i < MAX_IP_ENTRIES" "used_by tbl ip i"
  shows "get_or_create_ip_entry tbl ip now = (tbl[i := (tbl ! i)\<lparr>e_last_seen := now\<rparr>], Some i)"
proof -
  obtain d where d: "d < MAX_IP_ENTRIES" "i = probe_slot ip d" "passed tbl ip d"
    using assms by (force simp: wf_table_def used_by_def)
  then have "get_or_create_ip_entry tbl ip now = probe tbl ip now (ip_hash ip) d" by (intro probe_pass) auto
  then show ?thesis
    using d assms(3) by (subst (asm) probe.simps) (simp add: Let_def used_by_def probe_slot_def)
qed

lemma probe_free:
  assumes "wf_table tbl" "rl_index tbl ip = None" "i < MAX_IP_ENTRIES" "e_in_use (tbl ! i) = 0"
  obtains d where "d < MAX_IP_ENTRIES" "passed tbl ip d" "e_in_use (tbl ! probe_slot ip d) = 0"
    "get_or_create_ip_entry tbl ip now = (claim_slot tbl (probe_slot ip d) ip now, Some (probe_slot ip d))"
proof -
  obtain d0 where d0: "d0 < MAX_IP_ENTRIES" "i = probe_slot ip d0" using probe_slot_onto[OF assms(3)] by blast
  define d where "d = (LEAST d. e_in_use (tbl ! probe_slot ip d) = 0)"
  have free: "e_in_use (tbl ! probe_slot ip d) = 0" and le: "d \<le> d0"
    unfolding d_def using d0(2) assms(4) by (auto intro: LeastI Least_le)
  have "passed tbl ip d"
    unfolding passed_def
  proof (intro allI impI)
    fix j assume "j < d"
    then have "e_in_use (tbl ! probe_slot ip j) \<noteq> 0" unfolding d_def by (rule not_less_Least)
    moreover have "\<not> used_by tbl ip (probe_slot ip j)" using assms(2) by (simp add: rl_index_None)
    ultimately show "e_in_use (tbl ! probe_slot ip j) = 2 \<and> e_ip (tbl ! probe_slot ip j) \<noteq> ip"
      using wf_in_use[OF assms(1) probe_slot_less[of ip j]] by (auto simp: used_by_def)
  qed
  moreover have "d < MAX_IP_ENTRIES" using le d0(1) by simp
  moreover have "get_or_create_ip_entry tbl ip now = (claim_slot tbl (probe_slot ip d) ip now, Some (probe_slot ip d))"
    using probe_pass[OF \<open>passed tbl ip d\<close> less_imp_le, of now] \<open>d < MAX_IP_ENTRIES\<close> free
    by (simp add: probe.simps[of tbl ip now "ip_hash ip" d] Let_def flip: probe_slot_def)
  ultimately show thesis using free that by blast
qed

lemma probe_full:
  assumes "wf_table tbl" "rl_index tbl ip = None" "\<forall>i < MAX_IP_ENTRIES. e_in_use (tbl ! i) \<noteq> 0"
  shows "get_or_create_ip_entry tbl ip now = (tbl, None)"
proof -
  have "passed tbl ip MAX_IP_ENTRIES"
    unfolding passed_def using assms(2,3) wf_in_use[OF assms(1) probe_slot_less[of ip]] probe_slot_less[of ip]
    by (fastforce simp: used_by_def rl_index_None)
  then have "get_or_create_ip_entry tbl ip now = probe tbl ip now (ip_hash ip) MAX_IP_ENTRIES" by (rule probe_pass) simp
  then show ?thesis by (simp add: probe.simps)
qed

section \<open>Updates\<close>

lemma wf_length: "wf_table tbl \<Longrightarrow> length tbl = MAX_IP_ENTRIES"
  by (simp add: wf_table_def)

lemma update_entry:
  assumes "wf_table tbl" "i < MAX_IP_ENTRIES" "used_by tbl ip i" "e_ip e = ip" "e_in_use e = 2"
  shows "wf_table (tbl[i := e])" "rl_abs (tbl[i := e]) = (rl_abs tbl)(ip \<mapsto> (e_count e, e_last_reset e))"
    "used_by (tbl[i := e]) ip i"
proof -
  have same: "e_in_use (tbl[i := e] ! j) = e_in_use (tbl ! j)" "e_ip (tbl[i := e] ! j) = e_ip (tbl ! j)" for j
    using assms by (auto simp: used_by_def nth_list_update wf_length)
  have used: "used_by (tbl[i := e]) a = used_by tbl a" for a by (rule ext) (simp add: used_by_def same)
  show wf: "wf_table (tbl[i := e])"
    using assms(1) by (simp add: wf_table_def passed_def same)
  show u: "used_by (tbl[i := e]) ip i" using assms(3) used by simp
  have "rl_index (tbl[i := e]) a = rl_index tbl a" for a
    by (simp add: rl_index_def used)
  moreover have "j \<noteq> i" if "rl_index tbl a = Some j" "a \<noteq> ip" for a j
    using that assms(3) by (auto simp: rl_index_def find_Some_iff used_by_def)
  ultimately show "rl_abs (tbl[i := e]) = (rl_abs tbl)(ip \<mapsto> (e_count e, e_last_reset e))"
    using rl_index_eq[OF assms(1-3)] assms(2) wf_length[OF assms(1)]
    by (intro ext) (fastforce simp: rl_abs_def nth_list_update intro!: option.map_cong)
qed

lemma claim_entry:
  assumes "wf_table tbl" "rl_index tbl ip = None" "length ip \<le> 45" "d < MAX_IP_ENTRIES"
    and "passed tbl ip d" "e_in_use (tbl ! probe_slot ip d) = 0"
  shows "wf_table (claim_slot tbl (probe_slot ip d) ip now)"
    "rl_abs (claim_slot tbl (probe_slot ip d) ip now) = (rl_abs tbl)(ip \<mapsto> (0, now))"
    "used_by (claim_slot tbl (probe_slot ip d) ip now) ip (probe_slot ip d)"
proof -
  let ?i = "probe_slot ip d" and ?t = "claim_slot tbl (probe_slot ip d) ip now"
  have at: "?t ! j = (if j = ?i then (tbl ! ?i)\<lparr>e_ip := ip, e_count := 0, e_last_reset := now,
      e_last_seen := now, e_in_use := 2\<rparr> else tbl ! j)" for j
    using assms(3) wf_length[OF assms(1)] by (simp add: claim_slot_def nth_list_update)
  have keep: "passed ?t a n" if "passed tbl a n" for a n
    using that assms(6) unfolding passed_def at by auto
  show wf: "wf_table ?t"
    unfolding wf_table_def
  proof (intro conjI allI impI)
    show "length ?t = MAX_IP_ENTRIES" using wf_length[OF assms(1)] by (simp add: claim_slot_def)
    fix j assume j: "j < MAX_IP_ENTRIES"
    show "e_in_use (?t ! j) = 0 \<or> (e_in_use (?t ! j) = 2 \<and>
        (\<exists>d < MAX_IP_ENTRIES. j = probe_slot (e_ip (?t ! j)) d \<and> passed ?t (e_ip (?t ! j)) d))"
    proof (cases "j = ?i")
      case True
      then show ?thesis using assms(4) keep[OF assms(5)] by (auto simp: at)
    next
      case False
      then show ?thesis
        using assms(1)[unfolded wf_table_def, THEN conjunct2, rule_format, OF j] keep by (simp add: at) blast
    qed
  qed
  show u: "used_by ?t ip ?i" by (simp add: used_by_def at)
  have other: "rl_index ?t a = rl_index tbl a" if "a \<noteq> ip" for a
  proof -
    have "used_by ?t a = used_by tbl a" using that assms(6) by (intro ext) (auto simp: used_by_def at)
    then show ?thesis by (simp add: rl_index_def)
  qed
  have "j \<noteq> ?i" if "rl_index tbl a = Some j" for a j
    using that assms(6) by (auto simp: rl_index_def find_Some_iff used_by_def)
  then show "rl_abs ?t = (rl_abs tbl)(ip \<mapsto> (0, now))"
    using rl_index_eq[OF wf _ u] other
    by (intro ext) (auto simp: rl_abs_def at intro!: option.map_cong)
qed

section \<open>Refinement of per-address windows\<close>

text \<open>The window of an address after one more request, and the verdict.\<close>

definition window_step :: "(u32 \<times> int) option \<Rightarrow> int \<Rightarrow> u32 \<times> int" where
  "window_step st now = (case st of None \<Rightarrow> (1, now)
     | Some (n, start) \<Rightarrow> if now - start > WINDOW_SIZE then (1, now) else (n + 1, start))"

definition window_verdict :: "u32 \<times> int \<Rightarrow> int \<Rightarrow> int \<Rightarrow> rl_verdict" where
  "window_verdict st now limit =
     (if sint (fst st) > limit then Blocked (max 1 (WINDOW_SIZE - (now - snd st))) else Pass)"

definition has_room :: "ip_table \<Rightarrow> string \<Rightarrow> bool" where
  "has_room tbl ip = (rl_abs tbl ip \<noteq> None \<or> (\<exists>i < MAX_IP_ENTRIES. e_in_use (tbl ! i) = 0))"

lemma local_on_entry:
  assumes "get_or_create_ip_entry tbl ip now = (tbl1, Some i)" "wf_table tbl1" "i < MAX_IP_ENTRIES" "used_by tbl1 ip i"
    and "rl_abs tbl1 ip = Some st1" "window_step (Some st1) now = st"
  shows "\<exists>tbl'. rate_limit_local tbl ip now limit = (tbl', window_verdict st now limit)
    \<and> wf_table tbl' \<and> rl_abs tbl' = (rl_abs tbl1)(ip \<mapsto> st)"
proof -
  let ?e = "if now - e_last_reset (tbl1 ! i) > WINDOW_SIZE then (tbl1 ! i)\<lparr>e_last_reset := now, e_count := 1\<rparr>
    else (tbl1 ! i)\<lparr>e_count := e_count (tbl1 ! i) + 1\<rparr>"
  have e: "e_ip ?e = ip" "e_in_use ?e = 2" using assms(4) by (auto simp: used_by_def)
  have "st1 = (e_count (tbl1 ! i), e_last_reset (tbl1 ! i))"
    using assms(5) rl_index_eq[OF assms(2-4)] by (simp add: rl_abs_def)
  then have st: "st = (e_count ?e, e_last_reset ?e)" using assms(6) by (auto simp: window_step_def)
  have "rate_limit_local tbl ip now limit = (tbl1[i := ?e], window_verdict st now limit)"
    unfolding rate_limit_local_def assms(1) window_verdict_def st by (simp add: Let_def max_def)
  then show ?thesis using update_entry(1,2)[OF assms(2-4) e] st by auto
qed

lemma rate_limit_local_refines:
  assumes "wf_table tbl" "length ip \<le> 45" "has_room tbl ip"
  shows "\<exists>tbl'. rate_limit_local tbl ip now limit =
      (tbl', window_verdict (window_step (rl_abs tbl ip) now) now limit)
    \<and> wf_table tbl' \<and> rl_abs tbl' = (rl_abs tbl)(ip \<mapsto> window_step (rl_abs tbl ip) now)"
proof (cases "rl_index tbl ip")
  case (Some i)
  then have i: "i < MAX_IP_ENTRIES" "used_by tbl ip i" by (auto simp: rl_index_def find_Some_iff)
  let ?e = "(tbl ! i)\<lparr>e_last_seen := now\<rparr>"
  have e: "e_ip ?e = ip" "e_in_use ?e = 2" using i(2) by (auto simp: used_by_def)
  note up = update_entry[OF assms(1) i e]
  have abs: "rl_abs tbl ip = Some (e_count (tbl ! i), e_last_reset (tbl ! i))" using Some by (simp add: rl_abs_def)
  then have "rl_abs (tbl[i := ?e]) = rl_abs tbl" using up(2) by (auto simp: fun_upd_idem_iff)
  then show ?thesis
    using local_on_entry[OF probe_found[OF assms(1) i] up(1) i(1) up(3) _ refl] abs by simp
next
  case None
  then have "rl_abs tbl ip = None" by (simp add: rl_abs_def)
  then obtain i where i: "i < MAX_IP_ENTRIES" "e_in_use (tbl ! i) = 0" using assms(3) by (auto simp: has_room_def)
  obtain d where d: "d < MAX_IP_ENTRIES" "passed tbl ip d" "e_in_use (tbl ! probe_slot ip d) = 0"
    "get_or_create_ip_entry tbl ip now = (claim_slot tbl (probe_slot ip d) ip now, Some (probe_slot ip d))"
    using probe_free[OF assms(1) None i] .
  note cl = claim_entry[OF assms(1) None assms(2) d(1-3), of now]
  have "window_step (Some (0, now)) now = window_step (rl_abs tbl ip) now"
    using \<open>rl_abs tbl ip = None\<close> by (simp add: window_step_def WINDOW_SIZE_def)
  then show ?thesis
    using local_on_entry[OF d(4) cl(1) probe_slot_less cl(3) _ refl, of "(0, now)"] cl(2) by simp
qed

lemma rate_limit_local_full:
  assumes "wf_table tbl" "\<not> has_room tbl ip"
  shows "rate_limit_local tbl ip now limit = (tbl, Pass)"
proof -
  have "rl_index tbl ip = None" using assms(2) by (auto simp: has_room_def rl_abs_def)
  then show ?thesis
    using probe_full[OF assms(1)] assms(2) by (auto simp: has_room_def rate_limit_local_def)
qed

section \<open>Runs\<close>

fun rl_run :: "ip_table \<Rightarrow> int \<Rightarrow> (string \<times> int) list \<Rightarrow> ip_table \<times> rl_verdict list" where
  "rl_run tbl limit [] = (tbl, [])"
| "rl_run tbl limit ((ip, now) # rs) =
     (case rate_limit_local tbl ip now limit of (tbl', v) \<Rightarrow>
        (case rl_run tbl' limit rs of (tbl'', vs) \<Rightarrow> (tbl'', v # vs)))"

definition passes :: "string \<Rightarrow> (string \<times> int) list \<Rightarrow> rl_verdict list \<Rightarrow> nat" where
  "passes ip rs vs = length (filter (\<lambda>(r, v). fst r = ip \<and> v = Pass) (zip rs vs))"

definition requests_of :: "string \<Rightarrow> (string \<times> int) list \<Rightarrow> nat" where
  "requests_of ip rs = length (filter (\<lambda>r. fst r = ip) rs)"

lemma sint_small: "n < 2 ^ 31 \<Longrightarrow> sint (of_nat n :: u32) = int n"
  by (simp add: signed_of_nat signed_take_bit_int_eq_self)

text \<open>A request of another address leaves the window of an address alone.\<close>

lemma other_address:
  assumes "wf_table tbl" "length a \<le> 45" "a \<noteq> ip" "rate_limit_local tbl a now limit = (tbl', v)"
  shows "wf_table tbl'" "rl_abs tbl' ip = rl_abs tbl ip"
proof -
  have "wf_table tbl' \<and> rl_abs tbl' ip = rl_abs tbl ip"
  proof (cases "has_room tbl a")
    case True
    then show ?thesis using rate_limit_local_refines[OF assms(1,2) True, of now limit] assms(3,4) by auto
  next
    case False
    then show ?thesis using rate_limit_local_full[OF assms(1) False] assms(1,4) by simp
  qed
  then show "wf_table tbl'" "rl_abs tbl' ip = rl_abs tbl ip" by simp_all
qed

lemma window_passes:
  assumes "wf_table tbl" "rl_abs tbl ip = Some (of_nat n, start)" "\<forall>r\<in>set rs. length (fst r) \<le> 45"
    and "\<forall>r\<in>set rs. fst r = ip \<longrightarrow> snd r - start \<le> WINDOW_SIZE" "n + requests_of ip rs < 2 ^ 31" "0 \<le> limit"
  shows "passes ip rs (snd (rl_run tbl limit rs)) + min (nat limit) n = min (nat limit) (n + requests_of ip rs)"
  using assms
proof (induction rs arbitrary: tbl n)
  case (Cons r rs)
  obtain a now where r: "r = (a, now)" by fastforce
  obtain tbl' v where step: "rate_limit_local tbl a now limit = (tbl', v)" by fastforce
  obtain tbl'' vs where rest: "rl_run tbl' limit rs = (tbl'', vs)" by fastforce
  show ?case
  proof (cases "a = ip")
    case False
    have "passes ip rs vs + min (nat limit) n = min (nat limit) (n + requests_of ip rs)"
      using Cons.IH[of tbl' n] Cons.prems r False rest other_address[OF Cons.prems(1) _ False step]
      by (simp add: requests_of_def)
    then show ?thesis using r False step rest by (simp add: passes_def requests_of_def)
  next
    case True
    have "has_room tbl ip" using Cons.prems(2) by (simp add: has_room_def)
    moreover have w: "window_step (rl_abs tbl ip) now = (of_nat (n + 1), start)"
      using Cons.prems(2,4) r True by (simp add: window_step_def)
    ultimately have st: "v = window_verdict (of_nat (n + 1), start) now limit" "wf_table tbl'"
        "rl_abs tbl' ip = Some (of_nat (n + 1), start)"
      using rate_limit_local_refines[OF Cons.prems(1) _, of ip now limit] Cons.prems(3) r True step by auto
    have count: "requests_of ip (r # rs) = Suc (requests_of ip rs)" using r True by (simp add: requests_of_def)
    have "n + 1 < 2 ^ 31" using Cons.prems(5) count by simp
    then have v: "v = Pass \<longleftrightarrow> n + 1 \<le> nat limit"
      using st(1) sint_small[of "n + 1"] Cons.prems(6) by (auto simp: window_verdict_def simp del: of_nat_Suc)
    have "passes ip rs vs + min (nat limit) (n + 1) = min (nat limit) (n + 1 + requests_of ip rs)"
      using Cons.IH[OF st(2,3)] Cons.prems count rest by simp
    moreover have "passes ip (r # rs) (v # vs) = (if v = Pass then 1 else 0) + passes ip rs vs"
      using r True by (simp add: passes_def)
    ultimately show ?thesis using r True step rest count v by (auto simp: min_def split: if_splits)
  qed
qed (simp add: passes_def requests_of_def)

lemma wf_empty_ip_table: "wf_table empty_ip_table"
  by (simp add: wf_table_def empty_ip_table_def)

lemma rl_abs_empty: "rl_abs empty_ip_table ip = None"
proof -
  have "rl_index empty_ip_table ip = None"
    by (simp add: rl_index_None used_by_def empty_ip_table_def)
  then show ?thesis by (simp add: rl_abs_def)
qed

lemma empty_has_room: "has_room empty_ip_table ip"
  by (auto simp: has_room_def empty_ip_table_def MAX_IP_ENTRIES_def intro!: exI[of _ 0])

section \<open>Properties\<close>



text \<open>
  The limit holds: once a window has been opened by a request of an address, in any further
  sequence of requests of any addresses whose requests of that address fall into the window, exactly
  the first \<open>limit\<close> requests of the address pass, and all its other requests are blocked.
\<close>
theorem rate_limit_per_window:
  assumes "wf_table tbl" "has_room tbl ip" "rl_abs tbl ip = None" "0 \<le> limit"
    and "rs = (ip, start) # rs'" "\<forall>r\<in>set rs. length (fst r) \<le> 45"
    and "\<forall>r\<in>set rs. fst r = ip \<longrightarrow> snd r - start \<le> WINDOW_SIZE" "requests_of ip rs < 2 ^ 31"
  shows "passes ip rs (snd (rl_run tbl limit rs)) = min (nat limit) (requests_of ip rs)"
proof -
  have len: "length ip \<le> 45" using assms(5,6) by simp
  have w: "window_step (rl_abs tbl ip) start = (of_nat 1, start)" using assms(3) by (simp add: window_step_def)
  obtain tbl' where st: "rate_limit_local tbl ip start limit = (tbl', window_verdict (of_nat 1, start) start limit)"
    "wf_table tbl'" "rl_abs tbl' ip = Some (of_nat 1, start)"
    using rate_limit_local_refines[OF assms(1) len assms(2), of start limit] w by auto
  obtain tbl'' vs where rest: "rl_run tbl' limit rs' = (tbl'', vs)" by fastforce
  have count: "requests_of ip rs = Suc (requests_of ip rs')" using assms(5) by (simp add: requests_of_def)
  have "passes ip rs' vs + min (nat limit) 1 = min (nat limit) (1 + requests_of ip rs')"
    using window_passes[OF st(2,3), of rs' limit] assms(4-8) count rest by simp
  moreover have "window_verdict (of_nat 1, start) start limit = Pass \<longleftrightarrow> 1 \<le> nat limit"
    using sint_small[of 1] assms(4) by (auto simp: window_verdict_def)
  ultimately show ?thesis using assms(5) st(1) rest count by (auto simp: passes_def min_def split: if_splits)
qed

theorem rate_limit_per_window_witness:
  "passes ''a'' [(''a'', 0), (''b'', 5), (''a'', 60)] (snd (rl_run empty_ip_table 1 [(''a'', 0), (''b'', 5), (''a'', 60)]))
    = min (nat 1) (requests_of ''a'' [(''a'', 0), (''b'', 5), (''a'', 60)])"
  by (rule rate_limit_per_window[OF wf_empty_ip_table empty_has_room rl_abs_empty,
        where start = 0 and rs' = "[(''b'', 5), (''a'', 60)]"])
    (simp_all add: requests_of_def WINDOW_SIZE_def)

end
