(* ===== verification/Decimal.thy ===== *)
theory Decimal
  imports Csilk_Prelude
begin

text \<open>
  Decimal texts of integers: what the conversions \<open>%d\<close> and \<open>%zu\<close> of \<open>snprintf\<close> print (\<open>nat_str\<close>,
  \<open>int_str\<close>), when a text is such a number (\<open>decimal\<close>), and its value (\<open>dec_value\<close>).
\<close>

definition dec_value :: "string \<Rightarrow> nat" where
  "dec_value s = foldl (\<lambda>n c. 10 * n + (byte c - 48)) 0 s"

definition decimal :: "string \<Rightarrow> bool" where
  "decimal s = (s \<noteq> [] \<and> (\<forall>c\<in>set s. 48 \<le> byte c \<and> byte c \<le> 57) \<and> (hd s = CHR ''0'' \<longrightarrow> s = ''0''))"

lemma byte_digit: "d < 10 \<Longrightarrow> byte (char_of (48 + d)) = 48 + d"
  by (simp add: byte_def)

fun nat_str :: "nat \<Rightarrow> string" where
  "nat_str n = (if n < 10 then [char_of (48 + n)] else nat_str (n div 10) @ [char_of (48 + n mod 10)])"

declare nat_str.simps [simp del]

definition int_str :: "int \<Rightarrow> string" where
  "int_str n = (if n < 0 then CHR ''-'' # nat_str (nat (- n)) else nat_str (nat n))"

lemma dec_value_snoc: "dec_value (s @ [c]) = 10 * dec_value s + (byte c - 48)"
  by (simp add: dec_value_def)

lemma hd_char_0: "d < 10 \<Longrightarrow> char_of (48 + d) = CHR ''0'' \<longleftrightarrow> d = 0" for d :: nat
proof -
  assume d: "d < 10"
  have "char_of (48 + d) = CHR ''0'' \<longleftrightarrow> byte (char_of (48 + d)) = byte (CHR ''0'')" by (simp only: byte_eq_iff)
  also have "byte (CHR ''0'') = 48" by (simp add: byte_def)
  finally show ?thesis using byte_digit[OF d] by simp
qed

text \<open>The texts are decimal numbers without leading zeros, and read back as the number.\<close>

lemma nat_str_decimal: "decimal (nat_str n) \<and> dec_value (nat_str n) = n \<and> (hd (nat_str n) = CHR ''0'' \<longleftrightarrow> n = 0)"
proof (induction n rule: nat_str.induct)
  case (1 n)
  show ?case
  proof (cases "n < 10")
    case True
    then show ?thesis
      using byte_digit[OF True] hd_char_0[OF True]
      by (auto simp: nat_str.simps[of n] decimal_def dec_value_def)
  next
    case False
    have d: "n mod 10 < 10" by simp
    have "n div 10 \<noteq> 0" using False by auto
    then show ?thesis
      using 1[OF False] False byte_digit[OF d]
      by (auto simp: nat_str.simps[of n] decimal_def dec_value_snoc)
  qed
qed

lemma nat_str_NUL: "NUL \<notin> set (nat_str n)"
proof
  assume "NUL \<in> set (nat_str n)"
  then have "48 \<le> byte NUL" using nat_str_decimal[of n] unfolding decimal_def by blast
  then show False by (simp add: byte_def)
qed

lemma int_str_NUL: "NUL \<notin> set (int_str n)"
  by (simp add: int_str_def nat_str_NUL)

end
