(* ===== verification/Bounded_Buf.thy ===== *)
theory Bounded_Buf
  imports Decimal
begin

text \<open>
  Model of src/core/primitives/bounded_buf.c: the fixed-capacity string builder and the JSON builder
  on top of it. The backing array is the list of its \<open>capacity\<close> bytes. The text of a double is what
  \<open>snprintf\<close> produces, a parameter. The digits of an integer are written backwards into a local array
  of 25 bytes; running out of it is undefined behaviour (\<open>None\<close>). The lemmas show that the builder
  holds a prefix of the text an unbounded writer would produce, and what that text is.
\<close>

section \<open>The string builder\<close>

record csilk_bounded_buf =
  bb_buf :: string
  bb_capacity :: nat
  bb_len :: nat
  bb_overflow :: bool

definition csilk_bounded_buf_init :: "string \<Rightarrow> nat \<Rightarrow> csilk_bounded_buf" where
  "csilk_bounded_buf_init buf capacity =
     \<lparr>bb_buf = (if capacity > 0 then buf[0 := NUL] else buf), bb_capacity = capacity, bb_len = 0, bb_overflow = False\<rparr>"

definition csilk_bounded_buf_reset :: "csilk_bounded_buf \<Rightarrow> csilk_bounded_buf" where
  "csilk_bounded_buf_reset b = b\<lparr>bb_len := 0, bb_overflow := False,
     bb_buf := (if bb_capacity b > 0 then (bb_buf b)[0 := NUL] else bb_buf b)\<rparr>"

definition csilk_bounded_buf_str :: "csilk_bounded_buf \<Rightarrow> string" where
  "csilk_bounded_buf_str b = takeWhile (\<lambda>c. c \<noteq> NUL) (bb_buf b)"

definition csilk_bounded_buf_putc :: "csilk_bounded_buf \<Rightarrow> char \<Rightarrow> csilk_bounded_buf" where
  "csilk_bounded_buf_putc b c =
     (if bb_len b + 1 < bb_capacity b
      then b\<lparr>bb_buf := (bb_buf b)[bb_len b := c, bb_len b + 1 := NUL], bb_len := bb_len b + 1\<rparr>
      else b\<lparr>bb_overflow := True\<rparr>)"

primrec puts_loop :: "csilk_bounded_buf \<Rightarrow> string \<Rightarrow> csilk_bounded_buf" where
  "puts_loop b [] = b"
| "puts_loop b (c # s) = puts_loop (csilk_bounded_buf_putc b c) s"

definition csilk_bounded_buf_puts :: "csilk_bounded_buf \<Rightarrow> string option \<Rightarrow> csilk_bounded_buf" where
  "csilk_bounded_buf_puts b s = (case s of None \<Rightarrow> b | Some t \<Rightarrow> puts_loop b t)"

text \<open>The digits are stored below the index \<open>stop\<close>; \<open>acc\<close> are those already there.\<close>

function u64_digits :: "nat \<Rightarrow> u64 \<Rightarrow> string \<Rightarrow> string option" where
  "u64_digits stop n acc =
     (if n = 0 then Some acc
      else if stop = 0 then None
      else u64_digits (stop - 1) (n div 10) (char_of (48 + unat (n mod 10)) # acc))"
  by auto
termination
  by (relation "measure (\<lambda>(stop, n, acc). unat n)") (auto simp: unat_div unat_gt_0)

declare u64_digits.simps [simp del]

definition uint64_to_str :: "nat \<Rightarrow> u64 \<Rightarrow> string option" where
  "uint64_to_str sz n =
     (if sz = 0 then None
      else if n = 0 then (if sz = 1 then None else Some ''0'')
      else u64_digits (sz - 1) n [])"

definition csilk_bounded_buf_puti :: "csilk_bounded_buf \<Rightarrow> int \<Rightarrow> csilk_bounded_buf option" where
  "csilk_bounded_buf_puti b n =
     (if n < 0
      then map_option (\<lambda>t. csilk_bounded_buf_puts (csilk_bounded_buf_putc b (CHR ''-'')) (Some t))
             (uint64_to_str 25 (of_int (- (n + 1)) + 1))
      else map_option (\<lambda>t. csilk_bounded_buf_puts b (Some t)) (uint64_to_str 25 (of_int n)))"

definition csilk_bounded_buf_putu :: "csilk_bounded_buf \<Rightarrow> u64 \<Rightarrow> csilk_bounded_buf option" where
  "csilk_bounded_buf_putu b n = map_option (\<lambda>t. csilk_bounded_buf_puts b (Some t)) (uint64_to_str 25 n)"

text \<open>\<open>fmt\<close> is the text of \<open>"%.*f"\<close>; the local array keeps 63 characters of it.\<close>

definition csilk_bounded_buf_putf :: "csilk_bounded_buf \<Rightarrow> string \<Rightarrow> csilk_bounded_buf" where
  "csilk_bounded_buf_putf b fmt =
     (if length fmt > 0 then csilk_bounded_buf_puts b (Some (take 63 fmt)) else b)"

section \<open>The JSON builder\<close>

record csilk_bounded_json =
  bj_buf :: csilk_bounded_buf
  bj_comma :: bool

definition csilk_bounded_json_init :: "string \<Rightarrow> nat \<Rightarrow> csilk_bounded_json" where
  "csilk_bounded_json_init buf capacity = \<lparr>bj_buf = csilk_bounded_buf_init buf capacity, bj_comma = False\<rparr>"

definition csilk_bounded_json_overflow :: "csilk_bounded_json \<Rightarrow> bool" where
  "csilk_bounded_json_overflow j = bb_overflow (bj_buf j)"

definition csilk_bounded_json_str :: "csilk_bounded_json \<Rightarrow> string" where
  "csilk_bounded_json_str j = csilk_bounded_buf_str (bj_buf j)"

definition bj_putc :: "csilk_bounded_json \<Rightarrow> char \<Rightarrow> csilk_bounded_json" where
  "bj_putc j c = j\<lparr>bj_buf := csilk_bounded_buf_putc (bj_buf j) c\<rparr>"

definition bj_puts :: "csilk_bounded_json \<Rightarrow> string \<Rightarrow> csilk_bounded_json" where
  "bj_puts j s = j\<lparr>bj_buf := csilk_bounded_buf_puts (bj_buf j) (Some s)\<rparr>"

text \<open>\<open>"\\u%04x"\<close> of a byte below 32.\<close>

definition hex_digit :: "nat \<Rightarrow> char" where
  "hex_digit n = (if n < 10 then char_of (48 + n) else char_of (87 + n))"

definition escape_control :: "char \<Rightarrow> string" where
  "escape_control c = [BACKSLASH, CHR ''u'', CHR ''0'', CHR ''0'', hex_digit (byte c div 16), hex_digit (byte c mod 16)]"

definition json_escape_char :: "csilk_bounded_json \<Rightarrow> char \<Rightarrow> csilk_bounded_json" where
  "json_escape_char j c =
     (if c = DQUOTE then bj_puts j [BACKSLASH, DQUOTE]
      else if c = BACKSLASH then bj_puts j [BACKSLASH, BACKSLASH]
      else if c = LF then bj_puts j [BACKSLASH, CHR ''n'']
      else if c = CR then bj_puts j [BACKSLASH, CHR ''r'']
      else if c = TAB then bj_puts j [BACKSLASH, CHR ''t'']
      else if byte c < 32 then bj_puts j (escape_control c)
      else bj_putc j c)"

primrec json_escape_loop :: "csilk_bounded_json \<Rightarrow> string \<Rightarrow> csilk_bounded_json" where
  "json_escape_loop j [] = j"
| "json_escape_loop j (c # s) = json_escape_loop (json_escape_char j c) s"

definition json_write_escaped :: "csilk_bounded_json \<Rightarrow> string option \<Rightarrow> csilk_bounded_json" where
  "json_write_escaped j s = (case s of
     None \<Rightarrow> bj_puts j ''null''
   | Some t \<Rightarrow> bj_putc (json_escape_loop (bj_putc j DQUOTE) t) DQUOTE)"

definition json_write_comma :: "csilk_bounded_json \<Rightarrow> csilk_bounded_json" where
  "json_write_comma j = (if bj_comma j then bj_putc j (CHR '','') else j)\<lparr>bj_comma := True\<rparr>"

definition csilk_bounded_json_object_open :: "csilk_bounded_json \<Rightarrow> csilk_bounded_json" where
  "csilk_bounded_json_object_open j =
     (bj_putc (if bj_comma j then bj_putc j (CHR '','') else j) (CHR ''{''))\<lparr>bj_comma := False\<rparr>"

definition csilk_bounded_json_object_close :: "csilk_bounded_json \<Rightarrow> csilk_bounded_json" where
  "csilk_bounded_json_object_close j = (bj_putc j (CHR ''}''))\<lparr>bj_comma := True\<rparr>"

definition csilk_bounded_json_array_open :: "csilk_bounded_json \<Rightarrow> csilk_bounded_json" where
  "csilk_bounded_json_array_open j =
     (bj_putc (if bj_comma j then bj_putc j (CHR '','') else j) (CHR ''[''))\<lparr>bj_comma := False\<rparr>"

definition csilk_bounded_json_array_close :: "csilk_bounded_json \<Rightarrow> csilk_bounded_json" where
  "csilk_bounded_json_array_close j = (bj_putc j (CHR '']''))\<lparr>bj_comma := True\<rparr>"

definition csilk_bounded_json_key :: "csilk_bounded_json \<Rightarrow> string option \<Rightarrow> csilk_bounded_json" where
  "csilk_bounded_json_key j key =
     (bj_putc (json_write_escaped (json_write_comma j) key) (CHR '':''))\<lparr>bj_comma := False\<rparr>"

definition csilk_bounded_json_string :: "csilk_bounded_json \<Rightarrow> string option \<Rightarrow> csilk_bounded_json" where
  "csilk_bounded_json_string j s = json_write_escaped (json_write_comma j) s"

definition csilk_bounded_json_int :: "csilk_bounded_json \<Rightarrow> int \<Rightarrow> csilk_bounded_json option" where
  "csilk_bounded_json_int j n = (let j = json_write_comma j in
     map_option (\<lambda>b. j\<lparr>bj_buf := b\<rparr>) (csilk_bounded_buf_puti (bj_buf j) n))"

definition csilk_bounded_json_uint :: "csilk_bounded_json \<Rightarrow> u64 \<Rightarrow> csilk_bounded_json option" where
  "csilk_bounded_json_uint j n = (let j = json_write_comma j in
     map_option (\<lambda>b. j\<lparr>bj_buf := b\<rparr>) (csilk_bounded_buf_putu (bj_buf j) n))"

definition csilk_bounded_json_double :: "csilk_bounded_json \<Rightarrow> string \<Rightarrow> csilk_bounded_json" where
  "csilk_bounded_json_double j fmt = (let j = json_write_comma j in
     j\<lparr>bj_buf := csilk_bounded_buf_putf (bj_buf j) fmt\<rparr>)"

definition csilk_bounded_json_bool :: "csilk_bounded_json \<Rightarrow> bool \<Rightarrow> csilk_bounded_json" where
  "csilk_bounded_json_bool j v = bj_puts (json_write_comma j) (if v then ''true'' else ''false'')"

definition csilk_bounded_json_null :: "csilk_bounded_json \<Rightarrow> csilk_bounded_json" where
  "csilk_bounded_json_null j = bj_puts (json_write_comma j) ''null''"

definition csilk_bounded_json_status :: "string \<Rightarrow> nat \<Rightarrow> string option \<Rightarrow> csilk_bounded_json" where
  "csilk_bounded_json_status buf capacity status =
     csilk_bounded_json_object_close (csilk_bounded_json_string (csilk_bounded_json_key
       (csilk_bounded_json_object_open (csilk_bounded_json_init buf capacity)) (Some ''status'')) status)"

definition csilk_bounded_json_error :: "string \<Rightarrow> nat \<Rightarrow> string option \<Rightarrow> csilk_bounded_json" where
  "csilk_bounded_json_error buf capacity message =
     csilk_bounded_json_object_close (csilk_bounded_json_string (csilk_bounded_json_key
       (csilk_bounded_json_object_open (csilk_bounded_json_init buf capacity)) (Some ''error'')) message)"

section \<open>A builder holds a prefix of its text\<close>

text \<open>
  \<open>bb_holds cap b t\<close>: after writing the text \<open>t\<close> (without NUL) the array holds as much of it as fits with
  the terminator, and the overflow flag says whether something was dropped.
\<close>

definition bb_holds :: "nat \<Rightarrow> csilk_bounded_buf \<Rightarrow> string \<Rightarrow> bool" where
  "bb_holds cap b t = (0 < cap \<and> bb_capacity b = cap \<and> length (bb_buf b) = cap \<and> NUL \<notin> set t
     \<and> bb_len b = min (length t) (cap - 1)
     \<and> take (bb_len b + 1) (bb_buf b) = take (bb_len b) t @ [NUL]
     \<and> (bb_overflow b \<longleftrightarrow> cap \<le> length t))"

lemma bb_holds_init: "0 < length buf \<Longrightarrow> bb_holds (length buf) (csilk_bounded_buf_init buf (length buf)) []"
  by (cases buf) (simp_all add: bb_holds_def csilk_bounded_buf_init_def)

lemma bb_holds_reset: "bb_holds cap b t \<Longrightarrow> bb_holds cap (csilk_bounded_buf_reset b) []"
  by (cases "bb_buf b") (auto simp: bb_holds_def csilk_bounded_buf_reset_def)

lemma bb_holds_str: "bb_holds cap b t \<Longrightarrow> csilk_bounded_buf_str b = take (cap - 1) t"
proof -
  assume h: "bb_holds cap b t"
  let ?p = "take (bb_len b) t"
  have "bb_buf b = ?p @ NUL # drop (bb_len b + 1) (bb_buf b)"
  proof -
    have "take (bb_len b + 1) (bb_buf b) = ?p @ [NUL]" using h unfolding bb_holds_def by blast
    then show ?thesis by (metis append_take_drop_id append.assoc append_Cons append_Nil)
  qed
  moreover have "NUL \<notin> set ?p" using h by (auto simp: bb_holds_def dest: in_set_takeD)
  ultimately have "csilk_bounded_buf_str b = ?p"
    unfolding csilk_bounded_buf_str_def using takeWhile_upto[of NUL ?p] by metis
  then show ?thesis using h by (simp add: bb_holds_def min_def)
qed

lemma take_two_updates:
  "Suc n < length xs \<Longrightarrow> take (Suc (Suc n)) (xs[n := a, Suc n := b]) = take n xs @ [a, b]"
proof (induction xs arbitrary: n)
  case (Cons x xs)
  show ?case
  proof (cases n)
    case 0
    with Cons.prems show ?thesis by (cases xs) simp_all
  next
    case (Suc m)
    with Cons show ?thesis by simp
  qed
qed simp

lemma bb_holds_putc:
  assumes "bb_holds cap b t" "c \<noteq> NUL"
  shows "bb_holds cap (csilk_bounded_buf_putc b c) (t @ [c])"
proof (cases "bb_len b + 1 < bb_capacity b")
  case True
  then have len: "bb_len b = length t" using assms(1) by (auto simp: bb_holds_def min_def split: if_splits)
  have "take (length t) (take (Suc (length t)) (bb_buf b)) = take (length t) (t @ [NUL])"
    using assms(1) len by (simp add: bb_holds_def)
  then have "take (length t) (bb_buf b) = t" by (simp add: min_def)
  then have "take (Suc (Suc (length t))) ((bb_buf b)[length t := c, Suc (length t) := NUL]) = t @ [c, NUL]"
    using True len assms(1) by (subst take_two_updates) (auto simp: bb_holds_def)
  then show ?thesis
    using assms True len by (simp add: bb_holds_def csilk_bounded_buf_putc_def min_def)
next
  case False
  then show ?thesis
    using assms by (auto simp: bb_holds_def csilk_bounded_buf_putc_def min_def split: if_splits)
qed

lemma bb_holds_puts: "bb_holds cap b t \<Longrightarrow> NUL \<notin> set s \<Longrightarrow> bb_holds cap (csilk_bounded_buf_puts b (Some s)) (t @ s)"
proof -
  have "bb_holds cap b t \<Longrightarrow> NUL \<notin> set s \<Longrightarrow> bb_holds cap (puts_loop b s) (t @ s)" for b t
  proof (induction s arbitrary: b t)
    case (Cons c s)
    then show ?case using Cons.IH[OF bb_holds_putc[OF Cons.prems(1)], of c] by auto
  qed simp
  then show "bb_holds cap b t \<Longrightarrow> NUL \<notin> set s \<Longrightarrow> bb_holds cap (csilk_bounded_buf_puts b (Some s)) (t @ s)"
    by (simp add: csilk_bounded_buf_puts_def)
qed

text \<open>The loop stores one digit per power of ten.\<close>

lemma u64_digits_nat_str:
  assumes "n \<noteq> 0" "unat n < 10 ^ stop"
  shows "u64_digits stop n acc = Some (nat_str (unat n) @ acc)"
  using assms
proof (induction "unat n" arbitrary: n stop acc rule: less_induct)
  case less
  then have pos: "0 < unat n" by (simp add: unat_gt_0)
  obtain m where stop: "stop = Suc m" using less.prems(2) pos by (cases stop) auto
  have q: "unat (n div 10) = unat n div 10" "unat (n mod 10) = unat n mod 10" by (simp_all add: unat_div unat_mod)
  have step: "u64_digits stop n acc = u64_digits m (n div 10) (char_of (48 + unat n mod 10) # acc)"
    using less.prems(1) stop by (simp add: u64_digits.simps[of "Suc m" n acc] q)
  show ?case
  proof (cases "n div 10 = 0")
    case True
    then have "unat n div 10 = 0" using q(1) by simp
    then have "unat n < 10" by simp
    then show ?thesis using step True by (simp add: u64_digits.simps[of m 0] nat_str.simps[of "unat n"])
  next
    case False
    have "unat n div 10 \<noteq> 0" using False q(1) by (metis unat_eq_zero)
    then have "\<not> unat n < 10" by auto
    moreover have "u64_digits m (n div 10) (char_of (48 + unat n mod 10) # acc)
        = Some (nat_str (unat (n div 10)) @ char_of (48 + unat n mod 10) # acc)"
      using less.hyps[OF _ False, of m] less.prems(2) stop pos unfolding q by auto
    ultimately show ?thesis using step by (simp add: q nat_str.simps[of "unat n"])
  qed
qed

lemma uint64_to_str_nat_str: "uint64_to_str 25 n = Some (nat_str (unat n))"
proof (cases "n = 0")
  case True
  then show ?thesis using hd_char_0[of 0] by (simp add: uint64_to_str_def nat_str.simps)
next
  case False
  have "unat n < 2 ^ LENGTH(64)" by (rule unsigned_less)
  then have "unat n < 10 ^ 24" by simp
  then show ?thesis using u64_digits_nat_str[OF False, of 24 "[]"] False by (simp add: uint64_to_str_def)
qed

lemma negated_word:
  assumes "- (2 ^ 63) \<le> n" "n < 0"
  shows "unat (of_int (- (n + 1)) + 1 :: u64) = nat (- n)"
proof -
  have "of_int (- (n + 1)) + 1 = (of_int (- n) :: u64)" by simp
  moreover have "0 \<le> - n" "- n < 2 ^ 64" using assms by auto
  then have "uint (of_int (- n) :: u64) = - n" by (simp only: uint_word_of_int_eq) (simp add: take_bit_int_eq_self)
  ultimately show ?thesis by (metis nat_uint_eq)
qed

lemma puti_text:
  assumes "- (2 ^ 63) \<le> n" "n < 2 ^ 63"
  shows "csilk_bounded_buf_puti b n = Some (csilk_bounded_buf_puts b (Some (int_str n)))"
proof (cases "n < 0")
  case True
  then show ?thesis
    using negated_word[OF assms(1) True]
    by (simp add: csilk_bounded_buf_puti_def uint64_to_str_nat_str int_str_def csilk_bounded_buf_puts_def)
next
  case False
  then have "uint (of_int n :: u64) = n"
    using assms by (simp only: uint_word_of_int_eq) (simp add: take_bit_int_eq_self)
  then have "unat (of_int n :: u64) = nat n" by (metis nat_uint_eq)
  then show ?thesis using False by (simp add: csilk_bounded_buf_puti_def uint64_to_str_nat_str int_str_def)
qed

section \<open>JSON texts\<close>

definition esc_char :: "char \<Rightarrow> string" where
  "esc_char c =
     (if c = DQUOTE then [BACKSLASH, DQUOTE] else if c = BACKSLASH then [BACKSLASH, BACKSLASH]
      else if c = LF then [BACKSLASH, CHR ''n''] else if c = CR then [BACKSLASH, CHR ''r'']
      else if c = TAB then [BACKSLASH, CHR ''t''] else if byte c < 32 then escape_control c else [c])"

definition esc_text :: "string \<Rightarrow> string" where
  "esc_text s = concat (map esc_char s)"

definition json_str :: "string \<Rightarrow> string" where
  "json_str s = DQUOTE # esc_text s @ [DQUOTE]"

lemma esc_text_simps [simp]: "esc_text [] = []" "esc_text (c # s) = esc_char c @ esc_text s"
  by (simp_all add: esc_text_def)

lemma hex_digit_NUL: "n < 16 \<Longrightarrow> hex_digit n \<noteq> NUL"
proof -
  assume "n < 16"
  then have "byte (hex_digit n) \<noteq> 0" by (simp add: hex_digit_def byte_def)
  then show ?thesis by simp
qed

lemma escape_control_NUL: "NUL \<notin> set (escape_control c)"
proof -
  have "byte c div 16 < 16" using byte_less[of c] by (simp add: less_mult_imp_div_less)
  then show ?thesis
    using hex_digit_NUL[of "byte c div 16"] hex_digit_NUL[of "byte c mod 16"]
    by (simp add: escape_control_def eq_commute[of NUL])
qed

abbreviation bj_holds :: "nat \<Rightarrow> csilk_bounded_json \<Rightarrow> string \<Rightarrow> bool" where
  "bj_holds cap j t \<equiv> bb_holds cap (bj_buf j) t"

lemma bj_holds_putc: "bj_holds cap j t \<Longrightarrow> c \<noteq> NUL \<Longrightarrow> bj_holds cap (bj_putc j c) (t @ [c])"
  by (simp add: bj_putc_def bb_holds_putc)

lemma bj_holds_puts: "bj_holds cap j t \<Longrightarrow> NUL \<notin> set s \<Longrightarrow> bj_holds cap (bj_puts j s) (t @ s)"
  by (simp add: bj_puts_def bb_holds_puts)

lemma bj_comma_puts [simp]: "bj_comma (bj_putc j c) = bj_comma j" "bj_comma (bj_puts j s) = bj_comma j"
  by (simp_all add: bj_putc_def bj_puts_def)

lemma escape_char_holds:
  assumes "bj_holds cap j t" "c \<noteq> NUL"
  shows "bj_holds cap (json_escape_char j c) (t @ esc_char c)"
  unfolding json_escape_char_def esc_char_def using assms
  by (simp add: bj_holds_puts bj_holds_putc escape_control_NUL)

lemma escape_char_comma: "bj_comma (json_escape_char j c) = bj_comma j"
  by (simp add: json_escape_char_def)

lemma bj_holds_escape: "bj_holds cap j t \<Longrightarrow> NUL \<notin> set s \<Longrightarrow> bj_holds cap (json_escape_loop j s) (t @ esc_text s)"
proof (induction s arbitrary: j t)
  case (Cons c s)
  then have "c \<noteq> NUL" "NUL \<notin> set s" by auto
  then show ?case
    using Cons.IH[OF escape_char_holds[OF Cons.prems(1)], of c] by simp
qed simp

lemma escape_loop_comma: "bj_comma (json_escape_loop j s) = bj_comma j"
  by (induction s arbitrary: j) (simp_all add: escape_char_comma)

lemma write_escaped:
  "bj_holds cap j t \<Longrightarrow> NUL \<notin> set s \<Longrightarrow> bj_holds cap (json_write_escaped j (Some s)) (t @ json_str s)"
  using bj_holds_putc[OF bj_holds_escape[OF bj_holds_putc[of cap j t DQUOTE]], of s DQUOTE]
  by (simp add: json_write_escaped_def json_str_def)

lemma write_escaped_comma [simp]: "bj_comma (json_write_escaped j s) = bj_comma j"
  by (simp add: json_write_escaped_def escape_loop_comma split: option.splits)

definition sep :: "csilk_bounded_json \<Rightarrow> string" where
  "sep j = (if bj_comma j then '','' else [])"

lemma write_comma:
  "bj_holds cap j t \<Longrightarrow> bj_holds cap (json_write_comma j) (t @ sep j) \<and> bj_comma (json_write_comma j)"
  using bj_holds_putc[of cap j t "CHR '',''"] by (simp add: json_write_comma_def sep_def)

text \<open>A JSON value, the calls a client makes to write it, and its compact text.\<close>

datatype json = JNull | JBool bool | JInt int | JUint u64 | JDouble string | JStr string
  | JArr jlist | JObj jmembers
and jlist = JNil | JCons json jlist
and jmembers = MNil | MCons string json jmembers

primrec build :: "csilk_bounded_json \<Rightarrow> json \<Rightarrow> csilk_bounded_json option"
  and build_list :: "csilk_bounded_json \<Rightarrow> jlist \<Rightarrow> csilk_bounded_json option"
  and build_members :: "csilk_bounded_json \<Rightarrow> jmembers \<Rightarrow> csilk_bounded_json option" where
  "build j JNull = Some (csilk_bounded_json_null j)"
| "build j (JBool v) = Some (csilk_bounded_json_bool j v)"
| "build j (JInt n) = csilk_bounded_json_int j n"
| "build j (JUint n) = csilk_bounded_json_uint j n"
| "build j (JDouble fmt) = Some (csilk_bounded_json_double j fmt)"
| "build j (JStr s) = Some (csilk_bounded_json_string j (Some s))"
| "build j (JArr vs) = map_option csilk_bounded_json_array_close (build_list (csilk_bounded_json_array_open j) vs)"
| "build j (JObj ms) = map_option csilk_bounded_json_object_close (build_members (csilk_bounded_json_object_open j) ms)"
| "build_list j JNil = Some j"
| "build_list j (JCons v vs) = (case build j v of None \<Rightarrow> None | Some j \<Rightarrow> build_list j vs)"
| "build_members j MNil = Some j"
| "build_members j (MCons k v ms) =
     (case build (csilk_bounded_json_key j (Some k)) v of None \<Rightarrow> None | Some j \<Rightarrow> build_members j ms)"

primrec json_text :: "json \<Rightarrow> string"
  and list_text :: "bool \<Rightarrow> jlist \<Rightarrow> string"
  and members_text :: "bool \<Rightarrow> jmembers \<Rightarrow> string" where
  "json_text JNull = ''null''"
| "json_text (JBool v) = (if v then ''true'' else ''false'')"
| "json_text (JInt n) = int_str n"
| "json_text (JUint n) = nat_str (unat n)"
| "json_text (JDouble fmt) = take 63 fmt"
| "json_text (JStr s) = json_str s"
| "json_text (JArr vs) = ''['' @ list_text False vs @ '']''"
| "json_text (JObj ms) = ''{'' @ members_text False ms @ ''}''"
| "list_text comma JNil = []"
| "list_text comma (JCons v vs) = (if comma then '','' else []) @ json_text v @ list_text True vs"
| "members_text comma MNil = []"
| "members_text comma (MCons k v ms) = (if comma then '','' else []) @ json_str k @ '':'' @ json_text v @ members_text True ms"

primrec json_ok :: "json \<Rightarrow> bool" and list_ok :: "jlist \<Rightarrow> bool" and members_ok :: "jmembers \<Rightarrow> bool" where
  "json_ok JNull = True"
| "json_ok (JBool v) = True"
| "json_ok (JInt n) = (- (2 ^ 63) \<le> n \<and> n < 2 ^ 63)"
| "json_ok (JUint n) = True"
| "json_ok (JDouble fmt) = (NUL \<notin> set fmt)"
| "json_ok (JStr s) = (NUL \<notin> set s)"
| "json_ok (JArr vs) = list_ok vs"
| "json_ok (JObj ms) = members_ok ms"
| "list_ok JNil = True"
| "list_ok (JCons v vs) = (json_ok v \<and> list_ok vs)"
| "members_ok MNil = True"
| "members_ok (MCons k v ms) = (NUL \<notin> set k \<and> json_ok v \<and> members_ok ms)"

lemma array_open:
  "bj_holds cap j t \<Longrightarrow> bj_holds cap (csilk_bounded_json_array_open j) (t @ sep j @ ''['')
    \<and> \<not> bj_comma (csilk_bounded_json_array_open j)"
  using bj_holds_putc[OF bj_holds_putc[of cap j t "CHR '',''"], of "CHR ''[''"] bj_holds_putc[of cap j t "CHR ''[''"]
  by (auto simp: csilk_bounded_json_array_open_def sep_def)

lemma object_open:
  "bj_holds cap j t \<Longrightarrow> bj_holds cap (csilk_bounded_json_object_open j) (t @ sep j @ ''{'')
    \<and> \<not> bj_comma (csilk_bounded_json_object_open j)"
  using bj_holds_putc[OF bj_holds_putc[of cap j t "CHR '',''"], of "CHR ''{''"] bj_holds_putc[of cap j t "CHR ''{''"]
  by (auto simp: csilk_bounded_json_object_open_def sep_def)

lemma close_holds:
  "bj_holds cap j t \<Longrightarrow> bj_holds cap (csilk_bounded_json_array_close j) (t @ '']'') \<and> bj_comma (csilk_bounded_json_array_close j)"
  "bj_holds cap j t \<Longrightarrow> bj_holds cap (csilk_bounded_json_object_close j) (t @ ''}'') \<and> bj_comma (csilk_bounded_json_object_close j)"
  using bj_holds_putc[of cap j t "CHR '']''"] bj_holds_putc[of cap j t "CHR ''}''"]
  by (simp_all add: csilk_bounded_json_array_close_def csilk_bounded_json_object_close_def)

lemma key_holds:
  assumes "bj_holds cap j t" "NUL \<notin> set k"
  shows "bj_holds cap (csilk_bounded_json_key j (Some k)) (t @ sep j @ json_str k @ '':'')
    \<and> \<not> bj_comma (csilk_bounded_json_key j (Some k))"
  using bj_holds_putc[OF write_escaped[OF conjunct1[OF write_comma[OF assms(1)]] assms(2)], of "CHR '':''"]
  by (simp add: csilk_bounded_json_key_def)

lemma scalar_holds:
  assumes "bj_holds cap j t" "json_ok v" "\<forall>vs. v \<noteq> JArr vs" "\<forall>ms. v \<noteq> JObj ms"
  shows "\<exists>j'. build j v = Some j' \<and> bj_holds cap j' (t @ sep j @ json_text v) \<and> bj_comma j'"
proof -
  note comma = write_comma[OF assms(1)]
  note wr = bj_holds_puts[OF conjunct1[OF comma]]
  have buf: "bj_holds cap (j1\<lparr>bj_buf := csilk_bounded_buf_puts (bj_buf j1) (Some s)\<rparr>) (u @ s)"
    if "bj_holds cap j1 u" "NUL \<notin> set s" for j1 s u
    using bj_holds_puts[OF that] by (simp add: bj_puts_def)
  show ?thesis
  proof (cases v)
    case (JInt n)
    then show ?thesis
      using assms(2) buf[OF conjunct1[OF comma] int_str_NUL, of n] comma
      by (simp add: csilk_bounded_json_int_def puti_text Let_def)
  next
    case (JUint n)
    then show ?thesis
      using buf[OF conjunct1[OF comma] nat_str_NUL, of "unat n"] comma
      by (simp add: csilk_bounded_json_uint_def csilk_bounded_buf_putu_def uint64_to_str_nat_str Let_def)
  next
    case (JDouble fmt)
    then have "NUL \<notin> set (take 63 fmt)" using assms(2) by (auto dest: in_set_takeD)
    then show ?thesis
      using JDouble buf[OF conjunct1[OF comma], of "take 63 fmt"] comma
      by (simp add: csilk_bounded_json_double_def csilk_bounded_buf_putf_def Let_def)
  next
    case (JStr s)
    then show ?thesis
      using write_escaped[OF conjunct1[OF comma], of s] assms(2) comma by (simp add: csilk_bounded_json_string_def)
  qed (use wr[of "''null''"] wr[of "''true''"] wr[of "''false''"] comma assms(3,4) in
      \<open>auto simp: csilk_bounded_json_null_def csilk_bounded_json_bool_def\<close>)
qed

lemma build_holds:
  "bj_holds cap j t \<Longrightarrow> json_ok v \<Longrightarrow>
     \<exists>j'. build j v = Some j' \<and> bj_holds cap j' (t @ sep j @ json_text v) \<and> bj_comma j'"
  "bj_holds cap j t \<Longrightarrow> list_ok vs \<Longrightarrow>
     \<exists>j'. build_list j vs = Some j' \<and> bj_holds cap j' (t @ list_text (bj_comma j) vs)"
  "bj_holds cap j t \<Longrightarrow> members_ok ms \<Longrightarrow>
     \<exists>j'. build_members j ms = Some j' \<and> bj_holds cap j' (t @ members_text (bj_comma j) ms)"
proof (induction v and vs and ms arbitrary: j t and j t and j t)
  case (JArr vs)
  note op = array_open[OF JArr.prems(1)]
  from JArr.IH[OF conjunct1[OF op]] JArr.prems(2) op obtain j' where
    "build_list (csilk_bounded_json_array_open j) vs = Some j'" and
    h: "bj_holds cap j' ((t @ sep j @ ''['') @ list_text False vs)" by auto
  then show ?case using close_holds(1)[OF h] by simp
next
  case (JObj ms)
  note op = object_open[OF JObj.prems(1)]
  from JObj.IH[OF conjunct1[OF op]] JObj.prems(2) op obtain j' where
    "build_members (csilk_bounded_json_object_open j) ms = Some j'" and
    h: "bj_holds cap j' ((t @ sep j @ ''{'') @ members_text False ms)" by auto
  then show ?case using close_holds(2)[OF h] by simp
next
  case (JCons v vs)
  then obtain j1 where j1: "build j v = Some j1" "bj_holds cap j1 (t @ sep j @ json_text v)" "bj_comma j1"
    by fastforce
  from JCons.IH(2)[OF j1(2)] JCons.prems(2) j1 show ?case by (auto simp: sep_def)
next
  case (MCons k v ms)
  have key: "bj_holds cap (csilk_bounded_json_key j (Some k)) (t @ sep j @ json_str k @ '':'')"
    "\<not> bj_comma (csilk_bounded_json_key j (Some k))"
    using key_holds[OF MCons.prems(1)] MCons.prems(2) by simp_all
  then obtain j1 where j1: "build (csilk_bounded_json_key j (Some k)) v = Some j1"
    "bj_holds cap j1 ((t @ sep j @ json_str k @ '':'') @ json_text v)" "bj_comma j1"
    using MCons.IH(1)[OF key(1)] MCons.prems(2) by (auto simp: sep_def)
  from MCons.IH(2)[OF j1(2)] MCons.prems(2) j1 show ?case by (auto simp: sep_def)
qed (use scalar_holds in \<open>auto simp del: build.simps json_text.simps\<close>)

section \<open>Reading a string literal back\<close>

definition hexv :: "char \<Rightarrow> nat" where
  "hexv c = (if 48 \<le> byte c \<and> byte c \<le> 57 then byte c - 48
     else if 97 \<le> byte c \<and> byte c \<le> 102 then byte c - 87 else 16)"

definition cons_read :: "char \<Rightarrow> (string \<times> string) option \<Rightarrow> (string \<times> string) option" where
  "cons_read c r = map_option (\<lambda>(s, rest). (c # s, rest)) r"

text \<open>
  The reader of the JSON grammar behind an opening quote, for the escapes of one byte: the contents and
  the rest behind the closing quote. Control characters must be escaped.
\<close>

fun json_read :: "string \<Rightarrow> (string \<times> string) option" where
  "json_read [] = None"
| "json_read (c # cs) =
     (if c = DQUOTE then Some ([], cs)
      else if c = BACKSLASH then
        (case cs of
           [] \<Rightarrow> None
         | d # ds \<Rightarrow>
             if d = CHR ''u'' then
               (case ds of
                  a # b # e # f # rest \<Rightarrow>
                    if a = CHR ''0'' \<and> b = CHR ''0'' \<and> hexv e < 16 \<and> hexv f < 16
                    then cons_read (char_of (16 * hexv e + hexv f)) (json_read rest) else None
                | _ \<Rightarrow> None)
             else if d = CHR ''n'' then cons_read LF (json_read ds)
             else if d = CHR ''r'' then cons_read CR (json_read ds)
             else if d = CHR ''t'' then cons_read TAB (json_read ds)
             else if d = DQUOTE \<or> d = BACKSLASH then cons_read d (json_read ds)
             else None)
      else if byte c < 32 then None
      else cons_read c (json_read cs))"

lemma hexv_hex_digit: "n < 16 \<Longrightarrow> hexv (hex_digit n) = n"
  by (cases "n < 10") (simp_all add: hexv_def hex_digit_def byte_def)

lemma json_read_esc_char: "json_read (esc_char c @ r) = cons_read c (json_read r)"
proof (cases "byte c < 32 \<and> c \<noteq> LF \<and> c \<noteq> CR \<and> c \<noteq> TAB \<and> c \<noteq> DQUOTE \<and> c \<noteq> BACKSLASH")
  case True
  then have "byte c div 16 < 16" by (simp add: less_mult_imp_div_less)
  then have "hexv (hex_digit (byte c div 16)) = byte c div 16" "hexv (hex_digit (byte c mod 16)) = byte c mod 16"
    by (simp_all add: hexv_hex_digit)
  moreover have "16 * (byte c div 16) + byte c mod 16 = byte c" by simp
  ultimately show ?thesis
    using True \<open>byte c div 16 < 16\<close> by (simp add: esc_char_def escape_control_def)
next
  case False
  have "byte c < 32 \<longrightarrow> c \<noteq> DQUOTE \<and> c \<noteq> BACKSLASH" by (auto simp: byte_def)
  then show ?thesis using False by (auto simp: esc_char_def)
qed

lemma json_read_str: "json_read (esc_text s @ DQUOTE # r) = Some (s, r)"
  by (induction s) (simp_all add: json_read_esc_char cons_read_def del: json_read.simps(2), simp)

definition int_read :: "string \<Rightarrow> int" where
  "int_read t = (if t \<noteq> [] \<and> hd t = CHR ''-'' then - int (dec_value (tl t)) else int (dec_value t))"

lemma int_read_str: "int_read (int_str n) = n"
proof -
  have "hd (nat_str m) \<noteq> CHR ''-''" for m
  proof
    assume h: "hd (nat_str m) = CHR ''-''"
    have "nat_str m \<noteq> []" "\<forall>c\<in>set (nat_str m). 48 \<le> byte c" using nat_str_decimal[of m] by (auto simp: decimal_def)
    then have "48 \<le> byte (CHR ''-'')" using h hd_in_set by metis
    then show False by (simp add: byte_def)
  qed
  moreover have "dec_value (nat_str m) = m" "nat_str m \<noteq> []" for m
    using nat_str_decimal[of m] by (simp_all add: decimal_def)
  ultimately show ?thesis by (simp add: int_read_def int_str_def)
qed

lemma build_from_init:
  assumes "0 < length buf" "json_ok v"
  shows "\<exists>j. build (csilk_bounded_json_init buf (length buf)) v = Some j
    \<and> csilk_bounded_json_str j = take (length buf - 1) (json_text v)
    \<and> (csilk_bounded_json_overflow j \<longleftrightarrow> length buf \<le> length (json_text v))
    \<and> length (bb_buf (bj_buf j)) = length buf"
proof -
  let ?j = "csilk_bounded_json_init buf (length buf)"
  have "bj_holds (length buf) ?j []" "sep ?j = []"
    using bb_holds_init[OF assms(1)] by (simp_all add: csilk_bounded_json_init_def sep_def)
  from build_holds(1)[OF this(1) assms(2)] this(2) obtain j where
    j: "build ?j v = Some j" "bj_holds (length buf) j (json_text v)" by auto
  then show ?thesis
    using bb_holds_str[OF j(2)]
    by (simp add: csilk_bounded_json_str_def csilk_bounded_json_overflow_def bb_holds_def)
qed

section \<open>Properties\<close>



text \<open>
  Strings survive the builder: a string value written by \<open>csilk_bounded_json_string\<close> into a buffer
  with room for it is a JSON string literal that reads back as exactly that string, whatever quotes,
  backslashes and control characters it contains.
\<close>
theorem bounded_json_string_roundtrip:
  assumes "NUL \<notin> set s" "length (json_str s) < length buf"
  shows "\<exists>t. csilk_bounded_json_str (csilk_bounded_json_string (csilk_bounded_json_init buf (length buf)) (Some s)) = DQUOTE # t
    \<and> json_read t = Some (s, [])"
proof -
  have "0 < length buf" "json_ok (JStr s)" using assms by auto
  from build_from_init[OF this] assms(2) show ?thesis by (simp add: json_str_def json_read_str)
qed

theorem bounded_json_string_roundtrip_witness:
  "\<exists>t. csilk_bounded_json_str (csilk_bounded_json_string (csilk_bounded_json_init (replicate 9 NUL) (length (replicate 9 NUL))) (Some [DQUOTE, LF])) = DQUOTE # t
    \<and> json_read t = Some ([DQUOTE, LF], [])"
  by (rule bounded_json_string_roundtrip) (simp_all add: json_str_def esc_char_def)

text \<open>
  Integers: for every 64-bit signed value, the minimum included, \<open>csilk_bounded_buf_puti\<close> has no
  overflow and stays within its local array, and appends the decimal text of the value (no leading
  zeros, a sign for negative values), which reads back as the value.
\<close>
theorem bounded_buf_puti_decimal:
  assumes "- (2 ^ 63) \<le> n" "n < 2 ^ 63" "bb_holds cap b t"
  shows "\<exists>b'. csilk_bounded_buf_puti b n = Some b' \<and> bb_holds cap b' (t @ int_str n)
    \<and> csilk_bounded_buf_str b' = take (cap - 1) (t @ int_str n)
    \<and> int_read (int_str n) = n \<and> decimal (if n < 0 then tl (int_str n) else int_str n)"
proof -
  have "bb_holds cap (csilk_bounded_buf_puts b (Some (int_str n))) (t @ int_str n)"
    using assms(3) int_str_NUL by (rule bb_holds_puts)
  moreover have "decimal (if n < 0 then tl (int_str n) else int_str n)"
    using nat_str_decimal by (simp add: int_str_def)
  ultimately show ?thesis
    using puti_text[OF assms(1,2)] bb_holds_str int_read_str by simp
qed

theorem bounded_buf_puti_decimal_witness:
  "\<exists>b'. csilk_bounded_buf_puti (csilk_bounded_buf_init (replicate 30 NUL) (length (replicate 30 NUL))) (- (2 ^ 63)) = Some b'
    \<and> csilk_bounded_buf_str b' = take 29 (int_str (- (2 ^ 63)))"
  using bounded_buf_puti_decimal[OF _ _ bb_holds_init[of "replicate 30 NUL"], of "- (2 ^ 63)"] by auto

end
