(* ===== verification/Lf_Queue.thy ===== *)
theory Lf_Queue
  imports Csilk_Prelude
begin

text \<open>
  Model of src/core/primitives/lfqueue.h, the intrusive multiple-producer single-consumer queue.
  A node is its address, NULL is \<open>None\<close>, and \<open>STUB\<close> is the address of the node embedded in the
  queue, which differs from those of the nodes the callers bring. The first part gives the three functions as they run without interference. The second
  part splits them at their atomic accesses and lets any number of producers and the consumer
  interleave; every atomic access is one step, and the accesses are sequentially consistent. The
  field \<open>lf_free\<close> holds the caller's side of the contract: a node is handed to
  \<open>csilk_lfq_enqueue\<close> only while its caller owns it, and a dequeued node is owned by its receiver.
\<close>

section \<open>The operations\<close>

datatype addr = STUB | Node nat

record csilk_lfqueue =
  lf_next :: "addr \<Rightarrow> addr option"
  lf_head :: addr
  lf_tail :: addr

definition csilk_lfq_init :: "(addr \<Rightarrow> addr option) \<Rightarrow> csilk_lfqueue" where
  "csilk_lfq_init mem = \<lparr>lf_next = mem(STUB := None), lf_head = STUB, lf_tail = STUB\<rparr>"

text \<open>The three atomic accesses of an enqueue.\<close>

definition store_next :: "addr \<Rightarrow> addr option \<Rightarrow> ('a) csilk_lfqueue_scheme \<Rightarrow> 'a csilk_lfqueue_scheme" where
  "store_next a v q = q\<lparr>lf_next := (lf_next q)(a := v)\<rparr>"

definition swap_head :: "addr \<Rightarrow> ('a) csilk_lfqueue_scheme \<Rightarrow> 'a csilk_lfqueue_scheme" where
  "swap_head n q = q\<lparr>lf_head := n\<rparr>"

definition csilk_lfq_enqueue :: "addr \<Rightarrow> csilk_lfqueue \<Rightarrow> csilk_lfqueue" where
  "csilk_lfq_enqueue n q =
     (let q = store_next n None q; prev = lf_head q in store_next prev (Some n) (swap_head n q))"

text \<open>The part of \<open>csilk_lfq_dequeue\<close> after the test of \<open>next\<close>: the candidate \<open>tail\<close> has no successor yet.\<close>

definition lfq_push_stub :: "addr \<Rightarrow> csilk_lfqueue \<Rightarrow> addr option \<times> csilk_lfqueue" where
  "lfq_push_stub tail q =
     (if tail \<noteq> lf_head q then (None, q)
      else let q = csilk_lfq_enqueue STUB q in
        case lf_next q tail of
          Some next \<Rightarrow> (Some tail, q\<lparr>lf_tail := next\<rparr>)
        | None \<Rightarrow> (None, q))"

definition lfq_take :: "addr \<Rightarrow> csilk_lfqueue \<Rightarrow> addr option \<times> csilk_lfqueue" where
  "lfq_take tail q = (case lf_next q tail of
       Some next \<Rightarrow> (Some tail, q\<lparr>lf_tail := next\<rparr>)
     | None \<Rightarrow> lfq_push_stub tail q)"

definition csilk_lfq_dequeue :: "csilk_lfqueue \<Rightarrow> addr option \<times> csilk_lfqueue" where
  "csilk_lfq_dequeue q =
     (let tail = lf_tail q in
      if tail = STUB then (case lf_next q tail of
          None \<Rightarrow> (None, q)
        | Some next \<Rightarrow> lfq_take next (q\<lparr>lf_tail := next\<rparr>))
      else lfq_take tail q)"

section \<open>Interleaved runs\<close>

text \<open>Where a producer stands in \<open>csilk_lfq_enqueue\<close>: it has cleared the node's link, or it has
  exchanged the head and still has to link the previous head to its node.\<close>

datatype producer = P_Idle | P_Cleared addr | P_Swapped (p_node: addr) (p_prev: addr)

text \<open>Where the consumer stands in \<open>csilk_lfq_dequeue\<close>; the argument is its local \<open>tail\<close>.\<close>

datatype consumer = C_Idle
  | C_Skipped addr
  | C_Load_Head addr
  | C_Stub_Clear addr
  | C_Stub_Swap addr
  | C_Stub_Link addr addr
  | C_Reload addr

record 'p lfq_conf = csilk_lfqueue +
  producers :: "'p \<Rightarrow> producer"
  cons :: consumer
  lf_free :: "addr set"

datatype lfq_event = Tau | Enq addr | Deq addr | Deq_Null

abbreviation set_producer :: "'p \<Rightarrow> producer \<Rightarrow> 'p lfq_conf \<Rightarrow> 'p lfq_conf" where
  "set_producer p pc c \<equiv> c\<lparr>producers := (producers c)(p := pc)\<rparr>"

abbreviation deliver :: "addr \<Rightarrow> addr \<Rightarrow> 'p lfq_conf \<Rightarrow> 'p lfq_conf" where
  "deliver t next c \<equiv> c\<lparr>lf_tail := next, cons := C_Idle, lf_free := insert t (lf_free c)\<rparr>"

inductive lfq_step :: "'p lfq_conf \<Rightarrow> lfq_event \<Rightarrow> 'p lfq_conf \<Rightarrow> bool" where
  enq_clear: "producers c p = P_Idle \<Longrightarrow> n \<in> lf_free c \<Longrightarrow> n \<noteq> STUB \<Longrightarrow>
    lfq_step c Tau (set_producer p (P_Cleared n) (store_next n None (c\<lparr>lf_free := lf_free c - {n}\<rparr>)))"
| enq_swap: "producers c p = P_Cleared n \<Longrightarrow>
    lfq_step c (Enq n) (set_producer p (P_Swapped n (lf_head c)) (swap_head n c))"
| enq_link: "producers c p = P_Swapped n prev \<Longrightarrow>
    lfq_step c Tau (set_producer p P_Idle (store_next prev (Some n) c))"
| deq_empty: "cons c = C_Idle \<Longrightarrow> lf_tail c = STUB \<Longrightarrow> lf_next c STUB = None \<Longrightarrow> lfq_step c Deq_Null c"
| deq_skip: "cons c = C_Idle \<Longrightarrow> lf_tail c = STUB \<Longrightarrow> lf_next c STUB = Some next \<Longrightarrow>
    lfq_step c Tau (c\<lparr>lf_tail := next, cons := C_Skipped next\<rparr>)"
| deq_first: "cons c = C_Idle \<Longrightarrow> lf_tail c = t \<Longrightarrow> t \<noteq> STUB \<Longrightarrow> lf_next c t = Some next \<Longrightarrow>
    lfq_step c (Deq t) (deliver t next c)"
| deq_first_null: "cons c = C_Idle \<Longrightarrow> lf_tail c = t \<Longrightarrow> t \<noteq> STUB \<Longrightarrow> lf_next c t = None \<Longrightarrow>
    lfq_step c Tau (c\<lparr>cons := C_Load_Head t\<rparr>)"
| deq_second: "cons c = C_Skipped t \<Longrightarrow> lf_next c t = Some next \<Longrightarrow> lfq_step c (Deq t) (deliver t next c)"
| deq_second_null: "cons c = C_Skipped t \<Longrightarrow> lf_next c t = None \<Longrightarrow>
    lfq_step c Tau (c\<lparr>cons := C_Load_Head t\<rparr>)"
| deq_not_head: "cons c = C_Load_Head t \<Longrightarrow> lf_head c \<noteq> t \<Longrightarrow> lfq_step c Deq_Null (c\<lparr>cons := C_Idle\<rparr>)"
| deq_head: "cons c = C_Load_Head t \<Longrightarrow> lf_head c = t \<Longrightarrow> lfq_step c Tau (c\<lparr>cons := C_Stub_Clear t\<rparr>)"
| stub_clear: "cons c = C_Stub_Clear t \<Longrightarrow>
    lfq_step c Tau ((store_next STUB None c)\<lparr>cons := C_Stub_Swap t\<rparr>)"
| stub_swap: "cons c = C_Stub_Swap t \<Longrightarrow>
    lfq_step c Tau ((swap_head STUB c)\<lparr>cons := C_Stub_Link t (lf_head c)\<rparr>)"
| stub_link: "cons c = C_Stub_Link t prev \<Longrightarrow>
    lfq_step c Tau ((store_next prev (Some STUB) c)\<lparr>cons := C_Reload t\<rparr>)"
| deq_reload: "cons c = C_Reload t \<Longrightarrow> lf_next c t = Some next \<Longrightarrow> lfq_step c (Deq t) (deliver t next c)"
| deq_reload_null: "cons c = C_Reload t \<Longrightarrow> lf_next c t = None \<Longrightarrow> lfq_step c Deq_Null (c\<lparr>cons := C_Idle\<rparr>)"

inductive lfq_run :: "'p lfq_conf \<Rightarrow> lfq_event list \<Rightarrow> 'p lfq_conf \<Rightarrow> bool" where
  run_Nil: "lfq_run c [] c"
| run_snoc: "lfq_run c tr c' \<Longrightarrow> lfq_step c' e c'' \<Longrightarrow> lfq_run c (tr @ [e]) c''"

definition lfq_start :: "(addr \<Rightarrow> addr option) \<Rightarrow> addr set \<Rightarrow> 'p lfq_conf" where
  "lfq_start mem nodes = csilk_lfqueue.extend (csilk_lfq_init mem)
     \<lparr>producers = (\<lambda>_. P_Idle), cons = C_Idle, lf_free = nodes\<rparr>"

text \<open>The nodes of a trace in the order of the exchanges on \<open>head\<close>, and in the order of delivery.\<close>

fun enqueued :: "lfq_event list \<Rightarrow> addr list" where
  "enqueued [] = []" | "enqueued (Enq n # tr) = n # enqueued tr" | "enqueued (_ # tr) = enqueued tr"

fun dequeued :: "lfq_event list \<Rightarrow> addr list" where
  "dequeued [] = []" | "dequeued (Deq n # tr) = n # dequeued tr" | "dequeued (_ # tr) = dequeued tr"

lemma enqueued_snoc [simp]: "enqueued (tr @ [e]) = enqueued tr @ enqueued [e]"
  by (induction tr rule: enqueued.induct) auto

lemma dequeued_snoc [simp]: "dequeued (tr @ [e]) = dequeued tr @ dequeued [e]"
  by (induction tr rule: dequeued.induct) auto

section \<open>The invariant\<close>

text \<open>A thread that has exchanged the head and not yet written the link from \<open>a\<close> to \<open>b\<close>.\<close>

definition unlinked :: "'p lfq_conf \<Rightarrow> addr \<Rightarrow> addr \<Rightarrow> bool" where
  "unlinked c a b \<longleftrightarrow> (\<exists>p. producers c p = P_Swapped b a) \<or> (b = STUB \<and> (\<exists>t. cons c = C_Stub_Link t a))"

definition linked :: "'p lfq_conf \<Rightarrow> addr \<Rightarrow> addr \<Rightarrow> bool" where
  "linked c a b \<longleftrightarrow> lf_next c a = Some b \<or> (lf_next c a = None \<and> unlinked c a b)"

definition adjacent :: "'a list \<Rightarrow> 'a \<Rightarrow> 'a \<Rightarrow> bool" where
  "adjacent xs a b \<longleftrightarrow> (\<exists>us vs. xs = us @ a # b # vs)"

text \<open>The node a producer works on.\<close>

fun in_hand :: "producer \<Rightarrow> addr option" where
  "in_hand P_Idle = None" | "in_hand (P_Cleared n) = Some n" | "in_hand (P_Swapped n _) = Some n"

definition producers_ok :: "'p lfq_conf \<Rightarrow> addr list \<Rightarrow> bool" where
  "producers_ok c chain \<longleftrightarrow>
     (\<forall>p n. producers c p = P_Cleared n \<longrightarrow> n \<noteq> STUB \<and> n \<notin> set chain \<and> lf_next c n = None)
     \<and> (\<forall>p n a. producers c p = P_Swapped n a \<longrightarrow> n \<noteq> STUB)
     \<and> (\<forall>p p' n. in_hand (producers c p) = Some n \<longrightarrow> in_hand (producers c p') = Some n \<longrightarrow> p = p')
     \<and> (\<forall>p n. in_hand (producers c p) = Some n \<longrightarrow> n \<notin> lf_free c)"

fun consumer_ok :: "'p lfq_conf \<Rightarrow> addr list \<Rightarrow> consumer \<Rightarrow> bool" where
  "consumer_ok c chain C_Idle = True"
| "consumer_ok c chain (C_Skipped t) = (lf_tail c = t \<and> t \<noteq> STUB)"
| "consumer_ok c chain (C_Load_Head t) = (lf_tail c = t \<and> t \<noteq> STUB)"
| "consumer_ok c chain (C_Stub_Clear t) = (lf_tail c = t \<and> t \<noteq> STUB \<and> STUB \<notin> set chain)"
| "consumer_ok c chain (C_Stub_Swap t) = (lf_tail c = t \<and> t \<noteq> STUB \<and> STUB \<notin> set chain \<and> lf_next c STUB = None)"
| "consumer_ok c chain (C_Stub_Link t a) = (lf_tail c = t \<and> t \<noteq> STUB)"
| "consumer_ok c chain (C_Reload t) = (lf_tail c = t \<and> t \<noteq> STUB)"

text \<open>\<open>chain\<close> is the queue from \<open>tail\<close> to \<open>head\<close>; each node points to its successor unless the thread
  that appended the successor has yet to write that link.\<close>

definition lfq_inv :: "'p lfq_conf \<Rightarrow> addr list \<Rightarrow> bool" where
  "lfq_inv c chain \<longleftrightarrow> chain \<noteq> [] \<and> hd chain = lf_tail c \<and> last chain = lf_head c \<and> distinct chain
     \<and> lf_next c (lf_head c) = None
     \<and> (\<forall>a b. adjacent chain a b \<longrightarrow> linked c a b)
     \<and> (\<forall>a b. unlinked c a b \<longrightarrow> adjacent chain a b \<and> lf_next c a = None)
     \<and> producers_ok c chain \<and> consumer_ok c chain (cons c)
     \<and> lf_free c \<inter> set chain = {} \<and> STUB \<notin> lf_free c"

text \<open>The queued nodes: the chain without the stub.\<close>

definition contents :: "addr list \<Rightarrow> addr list" where
  "contents chain = filter (\<lambda>a. a \<noteq> STUB) chain"

section \<open>Adjacent elements\<close>

lemma adjacent_Nil [simp]: "\<not> adjacent [] a b"
  by (simp add: adjacent_def)

lemma adjacent_Cons: "adjacent (x # xs) a b \<longleftrightarrow> (xs \<noteq> [] \<and> a = x \<and> b = hd xs) \<or> adjacent xs a b"
  by (cases xs) (auto simp: adjacent_def Cons_eq_append_conv)

lemma adjacent_single [simp]: "\<not> adjacent [x] a b"
  by (simp add: adjacent_Cons)

lemma adjacent_set: "adjacent xs a b \<Longrightarrow> a \<in> set xs \<and> b \<in> set xs"
  by (auto simp: adjacent_def)

lemma adjacent_snoc:
  "xs \<noteq> [] \<Longrightarrow> adjacent (xs @ [z]) a b \<longleftrightarrow> adjacent xs a b \<or> (a = last xs \<and> b = z)"
  by (induction xs) (auto simp: adjacent_Cons)

lemma adjacent_right_unique: "distinct xs \<Longrightarrow> adjacent xs a b \<Longrightarrow> adjacent xs a b' \<Longrightarrow> b = b'"
  by (induction xs) (auto simp: adjacent_Cons dest: adjacent_set)

lemma adjacent_left_unique: "distinct xs \<Longrightarrow> adjacent xs a b \<Longrightarrow> adjacent xs a' b \<Longrightarrow> a = a'"
proof (induction xs)
  case (Cons x xs)
  have "\<not> adjacent xs y (hd xs)" if "xs \<noteq> []" for y
    using Cons.prems(1) that by (cases xs) (auto simp: adjacent_Cons dest: adjacent_set)
  with Cons show ?case by (auto simp: adjacent_Cons)
qed simp

lemma adjacent_last: "distinct xs \<Longrightarrow> \<not> adjacent xs (last xs) b"
  by (induction xs) (auto simp: adjacent_Cons dest: adjacent_set)

lemma adjacent_hd_exists: "xs \<noteq> [] \<Longrightarrow> hd xs \<noteq> last xs \<Longrightarrow> \<exists>b. adjacent xs (hd xs) b"
  by (cases xs) (auto simp: adjacent_Cons)

lemma adjacent_hd: "distinct xs \<Longrightarrow> adjacent xs (hd xs) b \<Longrightarrow> \<exists>ys. xs = hd xs # b # ys"
  by (cases xs; cases "tl xs") (auto simp: adjacent_Cons dest: adjacent_set)

section \<open>Every step keeps the invariant\<close>

lemmas lfq_ops = store_next_def swap_head_def

lemma lfq_invD:
  assumes "lfq_inv c chain"
  shows "chain \<noteq> []" "hd chain = lf_tail c" "last chain = lf_head c" "distinct chain"
    "lf_next c (lf_head c) = None" "adjacent chain a b \<Longrightarrow> linked c a b"
    "unlinked c a b \<Longrightarrow> adjacent chain a b \<and> lf_next c a = None"
    "producers_ok c chain" "consumer_ok c chain (cons c)" "lf_free c \<inter> set chain = {}" "STUB \<notin> lf_free c"
  using assms by (auto simp: lfq_inv_def)

lemma producers_okD:
  assumes "producers_ok c chain"
  shows "producers c p = P_Cleared n \<Longrightarrow> n \<noteq> STUB \<and> n \<notin> set chain \<and> lf_next c n = None"
    "producers c p = P_Swapped n a \<Longrightarrow> n \<noteq> STUB"
    "in_hand (producers c p) = Some n \<Longrightarrow> in_hand (producers c p') = Some n \<Longrightarrow> p = p'"
    "in_hand (producers c p) = Some n \<Longrightarrow> n \<notin> lf_free c"
  using assms unfolding producers_ok_def by blast+

text \<open>The successor of a node that is linked is its successor in the chain.\<close>

lemma lfq_next_adjacent:
  assumes "lfq_inv c chain" "a \<in> set chain" "lf_next c a = Some b"
  shows "adjacent chain a b"
proof -
  have "a \<noteq> last chain" using assms lfq_invD(3,5)[OF assms(1)] by auto
  then obtain b' where b': "adjacent chain a b'"
    using assms(2) split_list[OF assms(2)] unfolding adjacent_def
    by (metis last_snoc neq_Nil_conv)
  have "linked c a b'" using lfq_invD(6)[OF assms(1) b'] .
  then have "b' = b" using assms(3) by (simp add: linked_def)
  with b' show ?thesis by simp
qed

lemma lfq_next_tail:
  assumes "lfq_inv c chain" "lf_next c (lf_tail c) = Some b"
  obtains rest where "chain = lf_tail c # b # rest"
proof -
  have hd: "hd chain = lf_tail c" "chain \<noteq> []" using lfq_invD(1,2)[OF assms(1)] by auto
  then have "adjacent chain (hd chain) b"
    using lfq_next_adjacent[OF assms(1) _ assms(2)] hd_in_set[of chain] by simp
  with that adjacent_hd[OF lfq_invD(4)[OF assms(1)]] hd show thesis by auto
qed

text \<open>Moving \<open>tail\<close> past a linked node.\<close>

lemma lfq_advance:
  assumes inv: "lfq_inv c chain" and ch: "chain = t # n # rest" and nx: "lf_next c t = Some n"
    and c': "lf_next c' = lf_next c" "lf_head c' = lf_head c" "lf_tail c' = n" "producers c' = producers c"
    and cons: "cons c \<in> {C_Idle, C_Skipped t, C_Reload t}"
    and free: "lf_free c' = (if t = STUB then lf_free c else insert t (lf_free c))"
    and cons': "consumer_ok c' (n # rest) (cons c')" "\<nexists>u a. cons c' = C_Stub_Link u a"
  shows "lfq_inv c' (n # rest)"
proof -
  have unl: "unlinked c' a b = unlinked c a b" for a b
    using cons cons'(2) by (auto simp: unlinked_def c')
  have lnk: "linked c' a b = linked c a b" for a b
    by (simp add: linked_def unl c')
  have adj: "adjacent (n # rest) a b" if "unlinked c a b" for a b
    using lfq_invD(7)[OF inv that] nx by (auto simp: ch adjacent_Cons)
  have nt: "in_hand (producers c p) = Some m \<Longrightarrow> m \<noteq> t" for p m
  proof (cases "producers c p")
    case (P_Cleared x)
    then show "in_hand (producers c p) = Some m \<Longrightarrow> m \<noteq> t"
      using producers_okD(1)[OF lfq_invD(8)[OF inv] P_Cleared] by (auto simp: ch)
  next
    case (P_Swapped x a)
    then have "unlinked c a x" by (auto simp: unlinked_def)
    then have "adjacent chain a x" using lfq_invD(7)[OF inv] by blast
    then have "x \<noteq> t" using lfq_invD(4)[OF inv] by (auto simp: ch adjacent_Cons dest: adjacent_set)
    with P_Swapped show "in_hand (producers c p) = Some m \<Longrightarrow> m \<noteq> t" by auto
  qed simp
  have prod: "producers_ok c' (n # rest)"
    using lfq_invD(8)[OF inv] nt unfolding producers_ok_def c' ch free by (auto split: if_splits)
  show ?thesis
    unfolding lfq_inv_def
    using inv lfq_invD[OF inv] adj prod cons' free
    by (auto simp: c' ch unl lnk adjacent_Cons split: if_splits)
qed

text \<open>Changing the state of one producer.\<close>

lemma swapped_upd:
  "(\<exists>p'. (f(p := pc)) p' = P_Swapped b a) \<longleftrightarrow> pc = P_Swapped b a \<or> (\<exists>p'. p' \<noteq> p \<and> f p' = P_Swapped b a)"
  by (metis fun_upd_other fun_upd_same)

lemma swapped_other: "(\<nexists>n x. f p = P_Swapped n x) \<Longrightarrow>
    (\<exists>p'. p' \<noteq> p \<and> f p' = P_Swapped b a) \<longleftrightarrow> (\<exists>p'. f p' = P_Swapped b a)"
  by metis

text \<open>Steps that change no link of the chain.\<close>

lemma lfq_inv_keep:
  assumes inv: "lfq_inv c chain"
    and c': "\<And>a. a \<in> set chain \<Longrightarrow> lf_next c' a = lf_next c a" "lf_head c' = lf_head c" "lf_tail c' = lf_tail c"
    and free: "lf_free c' \<subseteq> lf_free c"
    and unl: "\<And>a b. unlinked c' a b \<longleftrightarrow> unlinked c a b"
    and ok: "producers_ok c' chain" "consumer_ok c' chain (cons c')"
  shows "lfq_inv c' chain"
proof -
  note I = lfq_invD[OF inv]
  have "lf_head c \<in> set chain" using I(1,3) last_in_set[of chain] by simp
  then have hd: "lf_next c' (lf_head c) = None" using c'(1) I(5) by simp
  have lnk: "linked c' a b" if "adjacent chain a b" for a b
    using I(6)[OF that] c'(1)[of a] adjacent_set[OF that] by (simp add: linked_def unl)
  have nxt: "adjacent chain a b \<and> lf_next c' a = None" if "unlinked c a b" for a b
    using I(7)[OF that] c'(1)[of a] adjacent_set[of chain a b] by simp
  show ?thesis
    unfolding lfq_inv_def using I(1-4,10,11) hd lnk nxt ok free by (auto simp: c'(2,3) unl)
qed

lemma lfq_enq_clear:
  assumes inv: "lfq_inv c chain" and p: "producers c p = P_Idle" and n: "n \<in> lf_free c" "n \<noteq> STUB"
  shows "lfq_inv (set_producer p (P_Cleared n) (store_next n None (c\<lparr>lf_free := lf_free c - {n}\<rparr>))) chain"
    (is "lfq_inv ?c chain")
proof (rule lfq_inv_keep[OF inv])
  have nch: "n \<notin> set chain" using lfq_invD(10)[OF inv] n by auto
  show "unlinked ?c a b = unlinked c a b" for a b
    using p by (simp add: unlinked_def store_next_def swapped_upd swapped_other del: fun_upd_apply)
  show "lf_next ?c a = lf_next c a" if "a \<in> set chain" for a
    using that nch by (auto simp: store_next_def)
  show "producers_ok ?c chain"
    using lfq_invD(8)[OF inv] n nch p unfolding producers_ok_def store_next_def
    by (auto split: if_splits)
  show "consumer_ok ?c chain (cons ?c)"
    using lfq_invD(9)[OF inv] n by (cases "cons c") (auto simp: store_next_def)
qed (auto simp: store_next_def)

text \<open>Exchanging the head appends the node to the chain, with the link still to be written.\<close>

lemma lfq_append:
  assumes inv: "lfq_inv c chain" and n: "n \<notin> set chain" "lf_next c n = None" "n \<notin> lf_free c"
    and c': "lf_next c' = lf_next c" "lf_head c' = n" "lf_tail c' = lf_tail c" "lf_free c' = lf_free c"
    and unl: "\<And>a b. unlinked c' a b \<longleftrightarrow> unlinked c a b \<or> (a = lf_head c \<and> b = n)"
    and prod: "producers_ok c' (chain @ [n])" and cons: "consumer_ok c' (chain @ [n]) (cons c')"
  shows "lfq_inv c' (chain @ [n])"
proof -
  note I = lfq_invD[OF inv]
  have hd: "last chain = lf_head c" "lf_next c (lf_head c) = None" using I by auto
  have lnk: "linked c' a b" if "linked c a b" for a b
    using that by (auto simp: linked_def unl c')
  show ?thesis
    unfolding lfq_inv_def
    using I n prod cons hd lnk by (auto simp: c' unl adjacent_snoc linked_def)
qed

lemma lfq_enq_swap:
  assumes inv: "lfq_inv c chain" and p: "producers c p = P_Cleared n"
  shows "lfq_inv (set_producer p (P_Swapped n (lf_head c)) (swap_head n c)) (chain @ [n])"
    (is "lfq_inv ?c _")
proof (rule lfq_append[OF inv])
  note P = producers_okD[OF lfq_invD(8)[OF inv]]
  show "n \<notin> set chain" "lf_next c n = None" using P(1)[OF p] by auto
  show free: "n \<notin> lf_free c" using P(4)[of p n] p by simp
  show "unlinked ?c a b \<longleftrightarrow> unlinked c a b \<or> (a = lf_head c \<and> b = n)" for a b
    using p by (auto simp: unlinked_def swap_head_def swapped_upd swapped_other simp del: fun_upd_apply)
  have "in_hand (producers c p') = Some n \<Longrightarrow> p' = p" for p' using P(3)[of p' n p] p by simp
  then show "producers_ok ?c (chain @ [n])"
    using lfq_invD(8)[OF inv] p P(1)[OF p] free unfolding producers_ok_def swap_head_def
    by (auto split: if_splits)
  show "consumer_ok ?c (chain @ [n]) (cons ?c)"
    using lfq_invD(9)[OF inv] P(1)[OF p] by (cases "cons c") (auto simp: swap_head_def)
qed (simp_all add: swap_head_def)

lemma lfq_stub_swap:
  assumes inv: "lfq_inv c chain" and pc: "cons c = C_Stub_Swap t"
  shows "lfq_inv ((swap_head STUB c)\<lparr>cons := C_Stub_Link t (lf_head c)\<rparr>) (chain @ [STUB])"
    (is "lfq_inv ?c _")
proof (rule lfq_append[OF inv])
  have C: "consumer_ok c chain (C_Stub_Swap t)" using lfq_invD(9)[OF inv] pc by simp
  show "STUB \<notin> set chain" "lf_next c STUB = None" "STUB \<notin> lf_free c"
    using C lfq_invD(11)[OF inv] by simp_all
  show "unlinked ?c a b \<longleftrightarrow> unlinked c a b \<or> (a = lf_head c \<and> b = STUB)" for a b
    using pc by (auto simp: unlinked_def swap_head_def)
  show "producers_ok ?c (chain @ [STUB])"
    using lfq_invD(8)[OF inv] unfolding producers_ok_def swap_head_def by auto
  show "consumer_ok ?c (chain @ [STUB]) (cons ?c)" using C by (simp add: swap_head_def)
qed (simp_all add: swap_head_def)

text \<open>Writing the missing link.\<close>

lemma lfq_write_link:
  assumes inv: "lfq_inv c chain" and ab: "unlinked c a b"
    and c': "lf_next c' = (lf_next c)(a := Some b)" "lf_head c' = lf_head c" "lf_tail c' = lf_tail c"
      "lf_free c' = lf_free c"
    and unl: "\<And>x y. unlinked c' x y \<longleftrightarrow> unlinked c x y \<and> (x, y) \<noteq> (a, b)"
    and prod: "producers_ok c' chain" and cons: "consumer_ok c' chain (cons c')"
  shows "lfq_inv c' chain"
proof -
  note I = lfq_invD[OF inv]
  have adj: "adjacent chain a b" using I(7)[OF ab] by simp
  have hd: "a \<noteq> lf_head c" using adjacent_last[OF I(4)] adj I(3) by metis
  have lnk: "linked c' x y" if "adjacent chain x y" for x y
    using I(6)[OF that] adjacent_right_unique[OF I(4) adj] that by (auto simp: linked_def unl c')
  have nxt: "adjacent chain x y \<and> lf_next c' x = None" if "unlinked c' x y" for x y
  proof -
    have xy: "unlinked c x y" "(x, y) \<noteq> (a, b)" using that unl by auto
    then have "adjacent chain x y" using I(7) by blast
    moreover then have "x \<noteq> a" using adjacent_right_unique[OF I(4) adj] xy(2) by auto
    ultimately show ?thesis using I(7)[OF xy(1)] by (simp add: c')
  qed
  show ?thesis
    unfolding lfq_inv_def using I hd lnk nxt prod cons by (auto simp: c')
qed

lemma lfq_enq_link:
  assumes inv: "lfq_inv c chain" and p: "producers c p = P_Swapped n prev"
  shows "lfq_inv (set_producer p P_Idle (store_next prev (Some n) c)) chain" (is "lfq_inv ?c _")
proof (rule lfq_write_link[OF inv])
  note P = producers_okD[OF lfq_invD(8)[OF inv]]
  show ab: "unlinked c prev n" using p by (auto simp: unlinked_def)
  have uniq: "producers c p' = P_Swapped n x \<Longrightarrow> p' = p" for p' x using P(3)[of p' n p] p by simp
  have "(\<exists>p'. p' \<noteq> p \<and> producers c p' = P_Swapped y x)
      \<longleftrightarrow> (\<exists>p'. producers c p' = P_Swapped y x) \<and> (x, y) \<noteq> (prev, n)" for x y
    using uniq[of _ x] p by (metis Pair_inject producer.inject(2))
  then show "unlinked ?c x y \<longleftrightarrow> unlinked c x y \<and> (x, y) \<noteq> (prev, n)" for x y
    using P(2)[OF p] by (simp add: unlinked_def store_next_def swapped_upd del: fun_upd_apply) blast
  have prev: "prev \<in> set chain" using lfq_invD(7)[OF inv ab] by (auto dest: adjacent_set)
  show "producers_ok ?c chain"
    using lfq_invD(8)[OF inv] prev unfolding producers_ok_def store_next_def by (auto split: if_splits)
  show "consumer_ok ?c chain (cons ?c)"
    using lfq_invD(9)[OF inv] prev by (cases "cons c") (auto simp: store_next_def)
qed (simp_all add: store_next_def)

lemma lfq_stub_link:
  assumes inv: "lfq_inv c chain" and pc: "cons c = C_Stub_Link t prev"
  shows "lfq_inv ((store_next prev (Some STUB) c)\<lparr>cons := C_Reload t\<rparr>) chain" (is "lfq_inv ?c _")
proof (rule lfq_write_link[OF inv])
  show ab: "unlinked c prev STUB" using pc by (auto simp: unlinked_def)
  have "producers c p \<noteq> P_Swapped STUB x" for p x
    using producers_okD(2)[OF lfq_invD(8)[OF inv]] by blast
  then show "unlinked ?c x y \<longleftrightarrow> unlinked c x y \<and> (x, y) \<noteq> (prev, STUB)" for x y
    using pc by (auto simp: unlinked_def store_next_def)
  have prev: "prev \<in> set chain" using lfq_invD(7)[OF inv ab] by (auto dest: adjacent_set)
  show "producers_ok ?c chain"
    using lfq_invD(8)[OF inv] prev unfolding producers_ok_def store_next_def by auto
  show "consumer_ok ?c chain (cons ?c)"
    using lfq_invD(9)[OF inv] pc by (simp add: store_next_def)
qed (simp_all add: store_next_def)

text \<open>Steps that only move the consumer, or clear the stub while it is not in the chain.\<close>

lemma lfq_move_consumer:
  assumes inv: "lfq_inv c chain" and "consumer_ok c chain pc" "\<nexists>t a. cons c = C_Stub_Link t a"
    "\<nexists>t a. pc = C_Stub_Link t a"
  shows "lfq_inv (c\<lparr>cons := pc\<rparr>) chain"
proof (rule lfq_inv_keep[OF inv])
  show "unlinked (c\<lparr>cons := pc\<rparr>) a b = unlinked c a b" for a b
    using assms(3,4) by (auto simp: unlinked_def)
  show "consumer_ok (c\<lparr>cons := pc\<rparr>) chain (cons (c\<lparr>cons := pc\<rparr>))" using assms(2) by (cases pc) auto
  show "producers_ok (c\<lparr>cons := pc\<rparr>) chain" using lfq_invD(8)[OF inv] by (simp add: producers_ok_def)
qed auto

lemma lfq_stub_clear:
  assumes inv: "lfq_inv c chain" and pc: "cons c = C_Stub_Clear t"
  shows "lfq_inv ((store_next STUB None c)\<lparr>cons := C_Stub_Swap t\<rparr>) chain" (is "lfq_inv ?c _")
proof (rule lfq_inv_keep[OF inv])
  have C: "consumer_ok c chain (C_Stub_Clear t)" using lfq_invD(9)[OF inv] pc by simp
  show "unlinked ?c a b = unlinked c a b" for a b
    using pc by (auto simp: unlinked_def store_next_def)
  show "lf_next ?c a = lf_next c a" if "a \<in> set chain" for a
    using that C by (auto simp: store_next_def)
  show "producers_ok ?c chain"
    using lfq_invD(8)[OF inv] unfolding producers_ok_def store_next_def by auto
  show "consumer_ok ?c chain (cons ?c)" using C by (simp add: store_next_def)
qed (auto simp: store_next_def)

section \<open>Refinement of a sequential queue\<close>

text \<open>The abstract queue: an exchange of the head by a producer appends, a delivery takes the front.\<close>

fun fifo :: "lfq_event \<Rightarrow> addr list \<Rightarrow> addr list option" where
  "fifo (Enq n) q = Some (q @ [n])"
| "fifo (Deq n) q = (case q of m # r \<Rightarrow> if m = n then Some r else None | [] \<Rightarrow> None)"
| "fifo _ q = Some q"

lemma contents_simps [simp]:
  "contents [] = []" "contents (a # xs) = (if a = STUB then contents xs else a # contents xs)"
  "contents (xs @ ys) = contents xs @ contents ys"
  by (simp_all add: contents_def)

lemma lfq_deliver:
  assumes inv: "lfq_inv c chain" and t: "lf_tail c = t" "t \<noteq> STUB" "lf_next c t = Some n"
    and pc: "cons c \<in> {C_Idle, C_Skipped t, C_Reload t}"
  shows "\<exists>chain'. lfq_inv (deliver t n c) chain' \<and> fifo (Deq t) (contents chain) = Some (contents chain')"
proof -
  have "lf_next c (lf_tail c) = Some n" using t by simp
  then obtain rest where ch: "chain = t # n # rest" using lfq_next_tail[OF inv] t(1) by metis
  have "lfq_inv (deliver t n c) (n # rest)"
    by (rule lfq_advance[OF inv ch t(3)]) (use pc t in auto)
  with ch t(2) show ?thesis by (intro exI[of _ "n # rest"]) simp
qed

lemma lfq_step_refines:
  assumes "lfq_step c e c'" "lfq_inv c chain"
  shows "\<exists>chain'. lfq_inv c' chain' \<and> fifo e (contents chain) = Some (contents chain')"
  using assms
proof (cases rule: lfq_step.cases)
  case (enq_clear p n)
  then show ?thesis using lfq_enq_clear[OF assms(2) enq_clear(3-5)] by auto
next
  case (enq_swap p n)
  have "n \<noteq> STUB" using producers_okD(1)[OF lfq_invD(8)[OF assms(2)] enq_swap(3)] by simp
  then show ?thesis
    using lfq_enq_swap[OF assms(2) enq_swap(3)] enq_swap(1,2) by (intro exI[of _ "chain @ [n]"]) simp
next
  case (enq_link p n prev)
  then show ?thesis using lfq_enq_link[OF assms(2) enq_link(3)] by auto
next
  case deq_empty
  then show ?thesis using assms(2) by auto
next
  case (deq_skip n)
  have "lf_next c (lf_tail c) = Some n" using deq_skip by simp
  then obtain rest where ch: "chain = STUB # n # rest" using lfq_next_tail[OF assms(2)] deq_skip(4) by metis
  have "n \<noteq> STUB" using lfq_invD(4)[OF assms(2)] ch by auto
  then have "lfq_inv c' (n # rest)"
    unfolding deq_skip(2) by (intro lfq_advance[OF assms(2) ch deq_skip(5)]) (use deq_skip in auto)
  then show ?thesis using deq_skip(1) ch by (intro exI[of _ "n # rest"]) simp
next
  case (deq_first t n)
  then show ?thesis using lfq_deliver[OF assms(2), of t n] by simp
next
  case (deq_first_null t)
  then show ?thesis using lfq_move_consumer[OF assms(2), of "C_Load_Head t"] by auto
next
  case (deq_second t n)
  then show ?thesis using lfq_deliver[OF assms(2), of t n] lfq_invD(9)[OF assms(2)] by simp
next
  case (deq_second_null t)
  then show ?thesis
    using lfq_move_consumer[OF assms(2), of "C_Load_Head t"] lfq_invD(9)[OF assms(2)] by auto
next
  case (deq_not_head t)
  then show ?thesis using lfq_move_consumer[OF assms(2), of C_Idle] by auto
next
  case (deq_head t)
  have C: "lf_tail c = t" "t \<noteq> STUB" using lfq_invD(9)[OF assms(2)] deq_head(3) by simp_all
  have "chain = [t]"
    using lfq_invD(1-4)[OF assms(2)] C deq_head(4)
    by (cases chain; cases "tl chain" rule: rev_cases) auto
  then show ?thesis
    using lfq_move_consumer[OF assms(2), of "C_Stub_Clear t"] deq_head C by auto
next
  case (stub_clear t)
  then show ?thesis using lfq_stub_clear[OF assms(2) stub_clear(3)] by auto
next
  case (stub_swap t)
  then show ?thesis using lfq_stub_swap[OF assms(2) stub_swap(3)] by (intro exI[of _ "chain @ [STUB]"]) simp
next
  case (stub_link t prev)
  then show ?thesis using lfq_stub_link[OF assms(2) stub_link(3)] by auto
next
  case (deq_reload t n)
  then show ?thesis using lfq_deliver[OF assms(2), of t n] lfq_invD(9)[OF assms(2)] by simp
next
  case (deq_reload_null t)
  then show ?thesis using lfq_move_consumer[OF assms(2), of C_Idle] by auto
qed

lemma lfq_start_inv: "STUB \<notin> nodes \<Longrightarrow> lfq_inv (lfq_start mem nodes) [STUB]"
  by (auto simp: lfq_inv_def lfq_start_def csilk_lfq_init_def csilk_lfqueue.defs producers_ok_def unlinked_def)

lemma fifo_order: "fifo e q = Some q' \<Longrightarrow> enqueued [e] = us \<Longrightarrow> dequeued [e] = vs \<Longrightarrow> q @ us = vs @ q'"
  by (cases e) (auto split: list.splits if_splits)

lemma lfq_run_refines:
  assumes "lfq_run c0 tr c" "lfq_inv c0 chain0"
  shows "\<exists>chain. lfq_inv c chain \<and> contents chain0 @ enqueued tr = dequeued tr @ contents chain"
  using assms
proof (induction rule: lfq_run.induct)
  case (run_Nil c)
  then show ?case by (auto intro: exI[of _ chain0])
next
  case (run_snoc c tr c' e c'')
  then obtain chain where ch: "lfq_inv c' chain" "contents chain0 @ enqueued tr = dequeued tr @ contents chain"
    by blast
  obtain chain' where "lfq_inv c'' chain'" "fifo e (contents chain) = Some (contents chain')"
    using lfq_step_refines[OF run_snoc.hyps(2) ch(1)] by blast
  moreover then have "contents chain @ enqueued [e] = dequeued [e] @ contents chain'"
    using fifo_order by blast
  ultimately show ?case
    using ch(2) by (intro exI[of _ chain']) (simp flip: append_assoc, simp)
qed

section \<open>The queue without interference\<close>

text \<open>What a client of a queue relies on: \<open>represents q xs\<close> relates a queue to the sequence it holds.\<close>

locale fifo_queue =
  fixes represents :: "'q \<Rightarrow> 'a list \<Rightarrow> bool" and enq :: "'a \<Rightarrow> 'q \<Rightarrow> 'q" and deq :: "'q \<Rightarrow> 'a option \<times> 'q"
    and node :: "'a \<Rightarrow> bool"
  assumes enq_law: "represents q xs \<Longrightarrow> node x \<Longrightarrow> x \<notin> set xs \<Longrightarrow> represents (enq x q) (xs @ [x])"
    and deq_empty_law: "represents q [] \<Longrightarrow> \<exists>r. deq q = (None, r) \<and> represents r []"
    and deq_front_law: "represents q (x # xs) \<Longrightarrow> \<exists>r. deq q = (Some x, r) \<and> represents r xs"
begin

primrec drain :: "nat \<Rightarrow> 'q \<Rightarrow> 'a list \<times> 'q" where
  "drain 0 q = ([], q)"
| "drain (Suc n) q = (case deq q of (None, q) \<Rightarrow> ([], q)
     | (Some x, q) \<Rightarrow> (case drain n q of (xs, q) \<Rightarrow> (x # xs, q)))"

lemma enq_all: "represents q xs \<Longrightarrow> list_all node ys \<Longrightarrow> distinct (xs @ ys) \<Longrightarrow> represents (fold enq ys q) (xs @ ys)"
proof (induction ys arbitrary: q xs)
  case (Cons y ys)
  have "represents (enq y q) (xs @ [y])" using Cons.prems by (intro enq_law) auto
  then show ?case using Cons.IH[of "enq y q" "xs @ [y]"] Cons.prems by simp
qed simp

lemma drain_all: "represents q xs \<Longrightarrow> length xs \<le> n \<Longrightarrow> \<exists>r. drain n q = (xs, r) \<and> represents r []"
proof (induction n arbitrary: q xs)
  case (Suc n)
  show ?case
  proof (cases xs)
    case Nil
    then show ?thesis using deq_empty_law[of q] Suc.prems by auto
  next
    case (Cons x ys)
    then obtain r where r: "deq q = (Some x, r)" "represents r ys" using deq_front_law Suc.prems by blast
    then obtain r' where "drain n r = (ys, r')" "represents r' []" using Suc.IH[of r ys] Suc.prems Cons by auto
    with r Cons show ?thesis by auto
  qed
qed auto

lemma drain_after_enq:
  assumes "represents q []" "list_all node xs" "distinct xs"
  shows "\<exists>r. drain (length xs) (fold enq xs q) = (xs, r) \<and> represents r []"
  using drain_all[of "fold enq xs q" xs "length xs"] enq_all[of q "[]" xs] assms by simp

end

text \<open>The chain of a queue on which no operation is in progress.\<close>

definition lfq_quiet :: "csilk_lfqueue \<Rightarrow> addr list \<Rightarrow> bool" where
  "lfq_quiet q chain \<longleftrightarrow> chain \<noteq> [] \<and> hd chain = lf_tail q \<and> last chain = lf_head q \<and> distinct chain
     \<and> lf_next q (lf_head q) = None \<and> (\<forall>a b. adjacent chain a b \<longrightarrow> lf_next q a = Some b)"

definition lfq_represents :: "csilk_lfqueue \<Rightarrow> addr list \<Rightarrow> bool" where
  "lfq_represents q xs \<longleftrightarrow> (\<exists>chain. lfq_quiet q chain \<and> contents chain = xs)"

lemma lfq_quiet_Cons2:
  "lfq_quiet q (a # b # rest) \<Longrightarrow> lf_tail q = a \<and> lf_next q a = Some b \<and> a \<noteq> b \<and> lfq_quiet (q\<lparr>lf_tail := b\<rparr>) (b # rest)"
  by (auto simp: lfq_quiet_def adjacent_Cons)

lemma lfq_quiet_single: "lfq_quiet q [a] \<longleftrightarrow> lf_tail q = a \<and> lf_head q = a \<and> lf_next q a = None"
  by (auto simp: lfq_quiet_def)

lemma lfq_quiet_enqueue:
  assumes "lfq_quiet q chain" "n \<notin> set chain"
  shows "lfq_quiet (csilk_lfq_enqueue n q) (chain @ [n])"
proof -
  have "lf_head q \<in> set chain" using assms(1) last_in_set by (fastforce simp: lfq_quiet_def)
  then have "lf_head q \<noteq> n" using assms(2) by auto
  moreover have "\<not> adjacent chain (lf_head q) b" for b
    using adjacent_last[of chain] assms(1) by (auto simp: lfq_quiet_def)
  ultimately show ?thesis
    using assms by (auto simp: lfq_quiet_def csilk_lfq_enqueue_def lfq_ops Let_def adjacent_snoc dest: adjacent_set)
qed

lemma lfq_take_quiet:
  assumes "lfq_quiet q (a # rest)" "a \<noteq> STUB"
  shows "\<exists>q' chain'. lfq_take a q = (Some a, q') \<and> lfq_quiet q' chain' \<and> contents chain' = contents rest"
proof (cases rest)
  case Nil
  then have q: "lf_tail q = a" "lf_head q = a" "lf_next q a = None" using assms lfq_quiet_single by auto
  have "lfq_quiet (csilk_lfq_enqueue STUB q) ([a] @ [STUB])"
    using lfq_quiet_enqueue[OF assms(1)] assms(2) Nil by simp
  then have s: "lfq_quiet (csilk_lfq_enqueue STUB q) [a, STUB]" by simp
  then have "lf_next (csilk_lfq_enqueue STUB q) a = Some STUB"
    "lfq_quiet ((csilk_lfq_enqueue STUB q)\<lparr>lf_tail := STUB\<rparr>) [STUB]"
    using lfq_quiet_Cons2 by auto
  then show ?thesis
    using q Nil by (intro exI[of _ "(csilk_lfq_enqueue STUB q)\<lparr>lf_tail := STUB\<rparr>"] exI[of _ "[STUB]"])
      (simp add: lfq_take_def lfq_push_stub_def)
next
  case (Cons b rest')
  then show ?thesis
    using lfq_quiet_Cons2[of q a b rest'] assms
    by (intro exI[of _ "q\<lparr>lf_tail := b\<rparr>"] exI[of _ rest]) (simp add: lfq_take_def)
qed

lemma lfq_dequeue_represents:
  assumes "lfq_represents q xs"
  shows "\<exists>q'. csilk_lfq_dequeue q = (case xs of [] \<Rightarrow> None | x # _ \<Rightarrow> Some x, q') \<and> lfq_represents q' (tl xs)"
proof -
  obtain chain where ch: "lfq_quiet q chain" "contents chain = xs"
    using assms by (auto simp: lfq_represents_def)
  obtain t rest where t: "chain = t # rest" using ch(1) by (cases chain) (auto simp: lfq_quiet_def)
  have tl: "lf_tail q = t" using ch(1) by (simp add: t lfq_quiet_def)
  show ?thesis
  proof (cases "t = STUB")
    case False
    then obtain q' chain' where "lfq_take t q = (Some t, q')" "lfq_quiet q' chain'" "contents chain' = contents rest"
      using lfq_take_quiet ch(1) t by blast
    then show ?thesis
      using False ch(2) by (auto simp: csilk_lfq_dequeue_def tl t lfq_represents_def)
  next
    case True
    show ?thesis
    proof (cases rest)
      case Nil
      then show ?thesis
        using True ch lfq_quiet_single[of q STUB] by (auto simp: csilk_lfq_dequeue_def t lfq_represents_def)
    next
      case (Cons b rest')
      have b: "lf_next q STUB = Some b" "b \<noteq> STUB" "lfq_quiet (q\<lparr>lf_tail := b\<rparr>) (b # rest')"
        using lfq_quiet_Cons2[of q t b rest'] ch(1) t Cons True by auto
      then obtain q' chain' where "lfq_take b (q\<lparr>lf_tail := b\<rparr>) = (Some b, q')" "lfq_quiet q' chain'"
        "contents chain' = contents rest'"
        using lfq_take_quiet by blast
      then show ?thesis
        using b True Cons ch(2) by (auto simp: csilk_lfq_dequeue_def tl t lfq_represents_def)
    qed
  qed
qed

interpretation lfq: fifo_queue lfq_represents csilk_lfq_enqueue csilk_lfq_dequeue "\<lambda>a. a \<noteq> STUB"
proof unfold_locales
  fix q xs x
  assume "lfq_represents q xs" "x \<noteq> STUB" "x \<notin> set xs"
  then obtain chain where ch: "lfq_quiet q chain" "contents chain = xs" by (auto simp: lfq_represents_def)
  then have "x \<notin> set chain" using \<open>x \<noteq> STUB\<close> \<open>x \<notin> set xs\<close> by (auto simp: contents_def)
  then show "lfq_represents (csilk_lfq_enqueue x q) (xs @ [x])"
    using lfq_quiet_enqueue[OF ch(1)] ch(2) \<open>x \<noteq> STUB\<close>
    by (auto simp: lfq_represents_def intro!: exI[of _ "chain @ [x]"])
qed (use lfq_dequeue_represents in fastforce)+

lemma lfq_init_represents: "lfq_represents (csilk_lfq_init mem) []"
  by (auto simp: lfq_represents_def csilk_lfq_init_def lfq_quiet_single intro!: exI[of _ "[STUB]"])

text \<open>A configuration in which nobody has a link to write is quiet.\<close>

lemma lfq_inv_quiet:
  assumes "lfq_inv c chain" "\<And>a b. \<not> unlinked c a b"
  shows "lfq_quiet (csilk_lfqueue.truncate c) chain"
  using lfq_invD[OF assms(1)] assms(2) by (auto simp: lfq_quiet_def csilk_lfqueue.defs linked_def)

text \<open>A call of \<open>csilk_lfq_dequeue\<close> that meets no interference is one of the interleaved runs.\<close>

lemma lfq_run_Cons: "lfq_run c' tr c'' \<Longrightarrow> lfq_step c e c' \<Longrightarrow> lfq_run c (e # tr) c''"
proof (induction rule: lfq_run.induct)
  case (run_Nil c')
  then show ?case using lfq_run.run_snoc[OF lfq_run.run_Nil run_Nil] by simp
next
  case (run_snoc c' tr d e' d')
  then show ?case using lfq_run.run_snoc[of c "e # tr"] by simp
qed

definition solo_dequeue :: "'p lfq_conf \<Rightarrow> addr option \<times> csilk_lfqueue \<Rightarrow> bool" where
  "solo_dequeue c r \<longleftrightarrow> (\<exists>tr c'. lfq_run c tr c' \<and> cons c' = C_Idle \<and> producers c' = producers c \<and> enqueued tr = []
     \<and> r = (case dequeued tr of [] \<Rightarrow> None | x # _ \<Rightarrow> Some x, csilk_lfqueue.truncate c'))"

lemma solo_dequeue_step:
  assumes "lfq_step c Tau c'" "solo_dequeue c' r" "producers c' = producers c"
  shows "solo_dequeue c r"
proof -
  obtain tr d where d: "lfq_run c' tr d" "cons d = C_Idle" "producers d = producers c'" "enqueued tr = []"
    "r = (case dequeued tr of [] \<Rightarrow> None | x # _ \<Rightarrow> Some x, csilk_lfqueue.truncate d)"
    using assms(2) unfolding solo_dequeue_def by blast
  have "lfq_run c (Tau # tr) d" using lfq_run_Cons[OF d(1) assms(1)] .
  with d assms(3) show ?thesis
    unfolding solo_dequeue_def by (intro exI[of _ "Tau # tr"] exI[of _ d]) simp
qed

lemma solo_dequeue_last:
  assumes "lfq_step c e c'" "cons c' = C_Idle" "producers c' = producers c" "e = Deq t \<or> e = Deq_Null"
  shows "solo_dequeue c (case e of Deq t \<Rightarrow> Some t | _ \<Rightarrow> None, csilk_lfqueue.truncate c')"
  unfolding solo_dequeue_def
  using assms lfq_run_Cons[OF lfq_run.run_Nil assms(1)] by (intro exI[of _ "[e]"] exI[of _ c']) auto

lemma solo_push_stub:
  assumes "cons c = C_Load_Head t" "t \<noteq> STUB"
  shows "solo_dequeue c (lfq_push_stub t (csilk_lfqueue.truncate c))"
proof (cases "lf_head c = t")
  case False
  then show ?thesis
    using solo_dequeue_last[OF lfq_step.deq_not_head[OF assms(1)]]
    by (simp add: lfq_push_stub_def csilk_lfqueue.defs)
next
  case True
  let ?c1 = "c\<lparr>cons := C_Stub_Clear t\<rparr>"
  let ?c2 = "(store_next STUB None ?c1)\<lparr>cons := C_Stub_Swap t\<rparr>"
  let ?c3 = "(swap_head STUB ?c2)\<lparr>cons := C_Stub_Link t (lf_head ?c2)\<rparr>"
  let ?c4 = "(store_next t (Some STUB) ?c3)\<lparr>cons := C_Reload t\<rparr>"
  have "lfq_step ?c4 (Deq t) (deliver t STUB ?c4)"
    by (rule lfq_step.deq_reload) (simp_all add: lfq_ops)
  from solo_dequeue_last[OF this]
  have "solo_dequeue ?c4 (lfq_push_stub t (csilk_lfqueue.truncate c))"
    using True assms(2) by (simp add: lfq_push_stub_def csilk_lfq_enqueue_def lfq_ops Let_def csilk_lfqueue.defs)
  then have "solo_dequeue ?c3 (lfq_push_stub t (csilk_lfqueue.truncate c))"
    by (intro solo_dequeue_step[of ?c3 ?c4] lfq_step.stub_link) (simp_all add: True lfq_ops)
  then have "solo_dequeue ?c2 (lfq_push_stub t (csilk_lfqueue.truncate c))"
    by (intro solo_dequeue_step[of ?c2 ?c3] lfq_step.stub_swap) (simp_all add: lfq_ops)
  then have "solo_dequeue ?c1 (lfq_push_stub t (csilk_lfqueue.truncate c))"
    by (intro solo_dequeue_step[of ?c1 ?c2] lfq_step.stub_clear) (simp_all add: lfq_ops)
  then show ?thesis
    by (intro solo_dequeue_step[of c ?c1] lfq_step.deq_head) (simp_all add: assms(1) True)
qed

lemma solo_dequeue_run:
  assumes "cons c = C_Idle" "\<And>n. lf_next c STUB = Some n \<Longrightarrow> lf_tail c = STUB \<Longrightarrow> n \<noteq> STUB"
  shows "solo_dequeue c (csilk_lfq_dequeue (csilk_lfqueue.truncate c))"
proof (cases "lf_tail c = STUB")
  case True
  show ?thesis
  proof (cases "lf_next c STUB")
    case None
    then show ?thesis
      using solo_dequeue_last[OF lfq_step.deq_empty[OF assms(1) True None] assms(1)]
      by (simp add: csilk_lfq_dequeue_def csilk_lfqueue.defs True)
  next
    case (Some n)
    have n: "n \<noteq> STUB" using assms(2) Some True by blast
    let ?c1 = "c\<lparr>lf_tail := n, cons := C_Skipped n\<rparr>"
    have deq: "csilk_lfq_dequeue (csilk_lfqueue.truncate c) = lfq_take n (csilk_lfqueue.truncate ?c1)"
      by (simp add: csilk_lfq_dequeue_def csilk_lfqueue.defs True Some)
    have "solo_dequeue ?c1 (lfq_take n (csilk_lfqueue.truncate ?c1))"
    proof (cases "lf_next c n")
      case None
      have "solo_dequeue (?c1\<lparr>cons := C_Load_Head n\<rparr>) (lfq_push_stub n (csilk_lfqueue.truncate (?c1\<lparr>cons := C_Load_Head n\<rparr>)))"
        by (rule solo_push_stub) (use n in simp_all)
      then have "solo_dequeue ?c1 (lfq_push_stub n (csilk_lfqueue.truncate (?c1\<lparr>cons := C_Load_Head n\<rparr>)))"
        by (rule solo_dequeue_step[OF lfq_step.deq_second_null, rotated 2]) (simp_all add: None)
      then show ?thesis by (simp add: lfq_take_def csilk_lfqueue.defs None)
    next
      case (Some m)
      then show ?thesis
        using solo_dequeue_last[OF lfq_step.deq_second[of ?c1 n m]]
        by (simp add: lfq_take_def csilk_lfqueue.defs)
    qed
    then show ?thesis
      unfolding deq by (rule solo_dequeue_step[OF lfq_step.deq_skip[OF assms(1) True Some]]) simp
  qed
next
  case False
  have deq: "csilk_lfq_dequeue (csilk_lfqueue.truncate c) = lfq_take (lf_tail c) (csilk_lfqueue.truncate c)"
    using False by (simp add: csilk_lfq_dequeue_def csilk_lfqueue.defs Let_def)
  show ?thesis
  proof (cases "lf_next c (lf_tail c)")
    case None
    let ?c1 = "c\<lparr>cons := C_Load_Head (lf_tail c)\<rparr>"
    have "solo_dequeue ?c1 (lfq_push_stub (lf_tail c) (csilk_lfqueue.truncate ?c1))"
      by (rule solo_push_stub) (use False in simp_all)
    then have "solo_dequeue c (lfq_push_stub (lf_tail c) (csilk_lfqueue.truncate ?c1))"
      by (rule solo_dequeue_step[OF lfq_step.deq_first_null[OF assms(1) refl False None]]) simp
    then show ?thesis unfolding deq by (simp add: lfq_take_def csilk_lfqueue.defs None)
  next
    case (Some m)
    then show ?thesis
      using solo_dequeue_last[OF lfq_step.deq_first[OF assms(1) refl False Some]]
      unfolding deq by (simp add: lfq_take_def csilk_lfqueue.defs)
  qed
qed

section \<open>Properties\<close>

text \<open>
  C4. The lock-free queue is a queue under every interleaving of any number of producers with the
  consumer: whatever steps are taken from the initialised queue, the nodes delivered so far are, in
  order, the first of the nodes enqueued so far (in the order of the exchanges on \<open>head\<close>). No node
  is lost, duplicated or reordered, also when nodes are enqueued again after their delivery.
\<close>
theorem lfq_fifo:
  assumes "STUB \<notin> nodes" and "lfq_run (lfq_start mem nodes :: 'p lfq_conf) tr c"
  shows "\<exists>rest. enqueued tr = dequeued tr @ rest"
  using lfq_run_refines[OF assms(2) lfq_start_inv[OF assms(1)]] by auto

lemma lfq_example_run:
  "\<exists>c. lfq_run (lfq_start (\<lambda>_. None) {Node 1} :: nat lfq_conf)
     [Tau, Enq (Node 1), Tau, Tau, Tau, Tau, Tau, Tau, Tau, Deq (Node 1)] c"
proof -
  let ?c0 = "lfq_start (\<lambda>_. None) {Node 1} :: nat lfq_conf"
  note simps = lfq_start_def csilk_lfq_init_def csilk_lfqueue.defs lfq_ops
  note snoc = lfq_run.run_snoc[rotated]
  let ?c1 = "set_producer 7 (P_Cleared (Node 1)) (store_next (Node 1) None (?c0\<lparr>lf_free := lf_free ?c0 - {Node 1}\<rparr>))"
  have r: "lfq_run ?c0 ([] @ [Tau]) ?c1"
    by (rule snoc[OF lfq_step.enq_clear lfq_run.run_Nil]) (simp_all add: simps)
  let ?c2 = "set_producer 7 (P_Swapped (Node 1) (lf_head ?c1)) (swap_head (Node 1) ?c1)"
  have r: "lfq_run ?c0 (([] @ [Tau]) @ [Enq (Node 1)]) ?c2"
    by (rule snoc[OF lfq_step.enq_swap r]) (simp add: simps)
  let ?c3 = "set_producer 7 P_Idle (store_next STUB (Some (Node 1)) ?c2)"
  have r: "lfq_run ?c0 ((([] @ [Tau]) @ [Enq (Node 1)]) @ [Tau]) ?c3"
    by (rule snoc[OF lfq_step.enq_link r]) (simp add: simps)
  let ?c4 = "?c3\<lparr>lf_tail := Node 1, cons := C_Skipped (Node 1)\<rparr>"
  have r: "lfq_run ?c0 (((([] @ [Tau]) @ [Enq (Node 1)]) @ [Tau]) @ [Tau]) ?c4"
    by (rule snoc[OF lfq_step.deq_skip r]) (simp_all add: simps)
  define c4 where "c4 = ?c4"
  have c4: "lf_next c4 = (\<lambda>_. None)(STUB := Some (Node 1))" "lf_head c4 = Node 1" "cons c4 = C_Skipped (Node 1)"
    by (auto simp: c4_def simps)
  have r: "lfq_run ?c0 [Tau, Enq (Node 1), Tau, Tau] c4" using r unfolding c4_def append.simps .
  let ?c5 = "c4\<lparr>cons := C_Load_Head (Node 1)\<rparr>"
  have r: "lfq_run ?c0 ([Tau, Enq (Node 1), Tau, Tau] @ [Tau]) ?c5"
    by (rule snoc[OF lfq_step.deq_second_null r]) (simp_all add: c4)
  let ?c6 = "?c5\<lparr>cons := C_Stub_Clear (Node 1)\<rparr>"
  have r: "lfq_run ?c0 (([Tau, Enq (Node 1), Tau, Tau] @ [Tau]) @ [Tau]) ?c6"
    by (rule snoc[OF lfq_step.deq_head r]) (simp_all add: c4)
  let ?c7 = "(store_next STUB None ?c6)\<lparr>cons := C_Stub_Swap (Node 1)\<rparr>"
  have r: "lfq_run ?c0 ((([Tau, Enq (Node 1), Tau, Tau] @ [Tau]) @ [Tau]) @ [Tau]) ?c7"
    by (rule snoc[OF lfq_step.stub_clear r]) (simp add: c4)
  define c7 where "c7 = ?c7"
  have c7: "lf_next c7 = (\<lambda>_. None)" "lf_head c7 = Node 1" "cons c7 = C_Stub_Swap (Node 1)"
    by (auto simp: c7_def c4 lfq_ops)
  have r: "lfq_run ?c0 [Tau, Enq (Node 1), Tau, Tau, Tau, Tau, Tau] c7" using r unfolding c7_def append.simps .
  let ?c8 = "(swap_head STUB c7)\<lparr>cons := C_Stub_Link (Node 1) (lf_head c7)\<rparr>"
  have r: "lfq_run ?c0 ([Tau, Enq (Node 1), Tau, Tau, Tau, Tau, Tau] @ [Tau]) ?c8"
    by (rule snoc[OF lfq_step.stub_swap r]) (simp add: c7)
  let ?c9 = "(store_next (Node 1) (Some STUB) ?c8)\<lparr>cons := C_Reload (Node 1)\<rparr>"
  have r: "lfq_run ?c0 (([Tau, Enq (Node 1), Tau, Tau, Tau, Tau, Tau] @ [Tau]) @ [Tau]) ?c9"
    by (rule snoc[OF lfq_step.stub_link r]) (simp add: c7)
  have r: "lfq_run ?c0 ((([Tau, Enq (Node 1), Tau, Tau, Tau, Tau, Tau] @ [Tau]) @ [Tau]) @ [Deq (Node 1)])
      (deliver (Node 1) STUB ?c9)"
    by (rule snoc[OF lfq_step.deq_reload r]) (simp_all add: c7 lfq_ops)
  then show ?thesis unfolding append.simps by (rule exI)
qed

theorem lfq_fifo_witness:
  "\<exists>rest. enqueued [Tau, Enq (Node 1), Tau, Tau, Tau, Tau, Tau, Tau, Tau, Deq (Node 1)]
     = dequeued [Tau, Enq (Node 1), Tau, Tau, Tau, Tau, Tau, Tau, Tau, Deq (Node 1)] @ rest"
proof -
  obtain c where "lfq_run (lfq_start (\<lambda>_. None) {Node 1} :: nat lfq_conf)
     [Tau, Enq (Node 1), Tau, Tau, Tau, Tau, Tau, Tau, Tau, Deq (Node 1)] c"
    using lfq_example_run by blast
  then show ?thesis by (rule lfq_fifo[rotated]) simp
qed

text \<open>
  C33. Progress: in any reachable state in which every producer that exchanged the head has also
  written its link, and the consumer is between calls, \<open>csilk_lfq_dequeue\<close> returns the oldest node
  that was enqueued and not yet delivered, and returns NULL only when there is none; and that is
  what the steps of the consumer do when they run next.
\<close>
theorem lfq_dequeue_progress:
  assumes "STUB \<notin> nodes" and "lfq_run (lfq_start mem nodes :: 'p lfq_conf) tr c"
    and "\<And>p n prev. producers c p \<noteq> P_Swapped n prev" and "cons c = C_Idle"
  shows "\<exists>rest q'. enqueued tr = dequeued tr @ rest
    \<and> csilk_lfq_dequeue (csilk_lfqueue.truncate c) = (case rest of [] \<Rightarrow> None | x # _ \<Rightarrow> Some x, q')
    \<and> solo_dequeue c (case rest of [] \<Rightarrow> None | x # _ \<Rightarrow> Some x, q')"
proof -
  obtain chain where ch: "lfq_inv c chain" "enqueued tr = dequeued tr @ contents chain"
    using lfq_run_refines[OF assms(2) lfq_start_inv[OF assms(1)]] by auto
  have "\<not> unlinked c a b" for a b using assms(3,4) by (simp add: unlinked_def)
  then have "lfq_represents (csilk_lfqueue.truncate c) (contents chain)"
    using lfq_inv_quiet[OF ch(1)] by (auto simp: lfq_represents_def)
  then obtain q' where q': "csilk_lfq_dequeue (csilk_lfqueue.truncate c)
      = (case contents chain of [] \<Rightarrow> None | x # _ \<Rightarrow> Some x, q')"
    using lfq_dequeue_represents by blast
  have "solo_dequeue c (csilk_lfq_dequeue (csilk_lfqueue.truncate c))"
  proof (rule solo_dequeue_run[OF assms(4)])
    fix n assume "lf_next c STUB = Some n" "lf_tail c = STUB"
    then obtain rest where "chain = STUB # n # rest" using lfq_next_tail[OF ch(1), of n] by metis
    then show "n \<noteq> STUB" using lfq_invD(4)[OF ch(1)] by auto
  qed
  with ch(2) q' show ?thesis by metis
qed

theorem lfq_dequeue_progress_witness:
  "\<exists>rest q'. enqueued [] = dequeued [] @ rest
    \<and> csilk_lfq_dequeue (csilk_lfqueue.truncate (lfq_start (\<lambda>_. None) {} :: nat lfq_conf))
       = (case rest of [] \<Rightarrow> None | x # _ \<Rightarrow> Some x, q')
    \<and> solo_dequeue (lfq_start (\<lambda>_. None) {} :: nat lfq_conf) (case rest of [] \<Rightarrow> None | x # _ \<Rightarrow> Some x, q')"
  by (rule lfq_dequeue_progress[of "{}" "\<lambda>_. None" "[]" "lfq_start (\<lambda>_. None) {}"])
    (auto intro: lfq_run.intros simp: lfq_start_def csilk_lfqueue.defs csilk_lfq_init_def)

text \<open>
  Used by one thread, the queue returns what was put in: after enqueuing any distinct nodes
  into an initialised queue, that many calls of \<open>csilk_lfq_dequeue\<close> return them in order and leave
  the queue empty.
\<close>
lemma lfq_drain:
  assumes "STUB \<notin> set xs" and "distinct xs"
  shows "\<exists>q. lfq.drain (length xs) (fold csilk_lfq_enqueue xs (csilk_lfq_init mem)) = (xs, q)
    \<and> fst (csilk_lfq_dequeue q) = None"
proof -
  have "list_all (\<lambda>a. a \<noteq> STUB) xs" using assms(1) by (auto simp: list_all_iff)
  from lfq.drain_after_enq[OF lfq_init_represents this assms(2)] obtain q where q: "lfq.drain (length xs) (fold csilk_lfq_enqueue xs (csilk_lfq_init mem)) = (xs, q)"
    "lfq_represents q []"
    by blast
  have "fst (csilk_lfq_dequeue q) = None" using lfq_dequeue_represents[OF q(2)] by auto
  with q(1) show ?thesis by blast
qed


end
