(* ===== verification/Byte_Order.thy ===== *)
theory Byte_Order
  imports Csilk_Prelude
begin

text \<open>
  The byte images of integers that the wire and file formats of the sources use: little-endian
  stores (the memory image of an integer on the supported machines, inverse to the little-endian
  loads of \<open>Csilk_Prelude\<close>) and the big-endian stores of the network formats.
\<close>

unbundle bit_operations_syntax

lemma byte_char_of [simp]: "byte (char_of n) = n mod 256"
  by (simp add: byte_def)

primrec le_bytes :: "nat \<Rightarrow> nat \<Rightarrow> string" where
  "le_bytes 0 v = []"
| "le_bytes (Suc n) v = char_of (v mod 256) # le_bytes n (v div 256)"

definition be_bytes :: "nat \<Rightarrow> nat \<Rightarrow> string" where
  "be_bytes n v = rev (le_bytes n v)"

definition be_nat :: "string \<Rightarrow> nat" where
  "be_nat cs = le_nat (rev cs)"

lemma length_le_bytes [simp]: "length (le_bytes n v) = n"
  by (induction n arbitrary: v) simp_all

lemma length_be_bytes [simp]: "length (be_bytes n v) = n"
  by (simp add: be_bytes_def)

lemma le_nat_le_bytes: "le_nat (le_bytes n v) = v mod 256 ^ n"
proof (induction n arbitrary: v)
  case (Suc n)
  have "le_nat (le_bytes (Suc n) v) = v mod 256 + 256 * (v div 256 mod 256 ^ n)"
    by (simp add: Suc)
  also have "\<dots> = v mod 256 ^ Suc n" by (simp add: mod_mult2_eq)
  finally show ?case .
qed simp

lemma be_nat_be_bytes: "be_nat (be_bytes n v) = v mod 256 ^ n"
  by (simp add: be_nat_def be_bytes_def le_nat_le_bytes)

lemma be_nat_snoc: "be_nat (cs @ [c]) = be_nat cs * 256 + byte c"
  by (simp add: be_nat_def)

lemma be_nat_less: "be_nat cs < 256 ^ length cs"
  using le_nat_less[of "rev cs"] by (simp add: be_nat_def)

lemma le_load_le_bytes:
  assumes "8 * n = LENGTH('a::len)"
  shows "le_load (le_bytes n (unat w)) = (w :: 'a word)"
proof -
  have "(256 :: nat) ^ n = 2 ^ LENGTH('a)" by (simp add: power_mult flip: assms)
  then have "le_nat (le_bytes n (unat w)) = unat w"
    by (simp add: le_nat_le_bytes unsigned_less)
  then show ?thesis by (simp add: le_load_def)
qed

lemma le_load32 [simp]: "le_load (le_bytes 4 (unat w)) = (w :: u32)"
  by (rule le_load_le_bytes) simp

lemma le_load64 [simp]: "le_load (le_bytes 8 (unat w)) = (w :: u64)"
  by (rule le_load_le_bytes) simp

text \<open>The \<open>i\<close>-th byte from the front of a big-endian store is the value shifted down.\<close>

lemma nth_le_bytes: "i < n \<Longrightarrow> le_bytes n v ! i = char_of (v div 256 ^ i mod 256)"
  by (induction n arbitrary: v i) (auto simp: nth_Cons div_mult2_eq split: nat.split)

lemma nth_be_bytes: "i < n \<Longrightarrow> be_bytes n v ! i = char_of (v div 256 ^ (n - Suc i) mod 256)"
  by (simp add: be_bytes_def rev_nth nth_le_bytes)

section \<open>Masks\<close>

lemma nat_and_masks:
  "n AND 0x7F = n mod 128" "n AND 0x0F = n mod 16" "n AND 0xFF = n mod 256" "n AND 0x01 = n mod 2"
  "n AND 0x3F = n mod 64" "n AND 3 = n mod 4" for n :: nat
  using take_bit_eq_mask [of 7 n] take_bit_eq_mask [of 4 n] take_bit_eq_mask [of 8 n] take_bit_eq_mask [of 1 n]
    take_bit_eq_mask [of 6 n] take_bit_eq_mask [of 2 n]
  by (simp_all add: take_bit_eq_mod mask_eq_exp_minus_1)

lemma or_high_bit:
  fixes m :: nat
  assumes "m < 2 ^ k"
  shows "2 ^ k * v OR m = 2 ^ k * v + m" "m OR 2 ^ k * v = 2 ^ k * v + m"
proof -
  have "\<not> bit m n \<or> \<not> bit (push_bit k v) n" for n
    using assms take_bit_nat_eq_self [OF assms] by (metis bit_push_bit_iff bit_take_bit_iff not_less)
  then have "m OR push_bit k v = m + push_bit k v" by (metis disjunctive_add)
  then show "2 ^ k * v OR m = 2 ^ k * v + m" "m OR 2 ^ k * v = 2 ^ k * v + m"
    by (simp_all add: push_bit_eq_mult ac_simps)
qed

section \<open>Shifting bytes in\<close>

text \<open>The loop \<open>v = (v << 8) | b\<close> over the bytes of a big-endian integer.\<close>

fun shift_in :: "u64 \<Rightarrow> string \<Rightarrow> u64" where
  "shift_in v [] = v"
| "shift_in v (b # bs) = shift_in (push_bit 8 v OR of_nat (byte b)) bs"

lemma shift_in_word: "push_bit 8 v OR of_nat (byte b) = 256 * v + (of_nat (byte b) :: u64)"
proof -
  have t: "take_bit 8 (of_nat (byte b) :: u64) = of_nat (byte b)"
    using byte_less [of b] by (simp add: take_bit_of_nat take_bit_nat_eq_self)
  have "\<not> bit (push_bit 8 v) n \<or> \<not> bit (of_nat (byte b) :: u64) n" for n
    by (metis bit_push_bit_iff bit_take_bit_iff not_less t)
  then have "push_bit 8 v + (of_nat (byte b) :: u64) = push_bit 8 v OR of_nat (byte b)"
    by (metis disjunctive_add)
  then show ?thesis by (simp add: push_bit_eq_mult ac_simps)
qed

lemma be_nat_Cons: "be_nat (b # bs) = byte b * 256 ^ length bs + be_nat bs"
proof -
  have "le_nat (xs @ [b]) = le_nat xs + 256 ^ length xs * byte b" for xs
    by (induction xs) (simp_all add: algebra_simps)
  then show ?thesis by (simp add: be_nat_def)
qed

lemma shift_in_eq: "shift_in v bs = of_nat (256 ^ length bs) * v + of_nat (be_nat bs)"
proof (induction v bs rule: shift_in.induct)
  case (1 v)
  show ?case by (simp add: be_nat_def)
next
  case (2 v b bs)
  then show ?case by (simp add: shift_in_word be_nat_Cons algebra_simps)
qed

lemma unat_shift_in:
  assumes "length bs = 8"
  shows "unat (shift_in 0 bs) = be_nat bs"
  using be_nat_less [of bs] assms by (simp add: shift_in_eq unat_of_nat take_bit_nat_eq_self)

end
