(* ===== verification/Message_Queue.thy ===== *)
theory Message_Queue
  imports Byte_Order
begin

text \<open>
  Model of the in-memory message queue: src/messaging/mq_internal.h, mq_core.c, mq_pubsub.c,
  mq_dispatch.c and mq_context.c. Handlers are function pointers, here elements of a type \<open>'h\<close>; what
  a handler does with the per-message context is a list of actions given by a parameter \<open>body\<close>
  (continue the chain, abort it, publish another message), and a chain runs on an explicit stack of
  the actions still to be taken, as the nested calls of \<open>csilk_mq_next\<close> do. \<open>fnmatch\<close> of the C library
  is a parameter. The functions are those of the build whose event loop calls \<open>on_mq_async\<close>.
\<close>

section \<open>State\<close>

abbreviation SIZE_LIMIT :: nat where "SIZE_LIMIT \<equiv> 2 ^ 64 - 1"

record csilk_mq_msg =
  m_topic :: string
  m_payload :: "string option"
  m_len :: nat

text \<open>A topic whose name could not be copied keeps a NULL name.\<close>

record 'h csilk_mq_topic =
  t_name :: "string option"
  t_handlers :: "'h list"
  t_capacity :: nat

record ('h, 'c) csilk_mq =
  queue :: "csilk_mq_msg list"
  topics :: "'h csilk_mq_topic list"
  global_middlewares :: "'h list"
  global_mw_capacity :: nat
  wal_fd :: int
  published_total :: u64
  delivered_total :: u64
  queue_depth :: u32
  monitors :: "'c list"
  monitor_capacity :: nat

definition csilk_mq_new :: "heap \<Rightarrow> ('h, 'c) csilk_mq option \<times> heap" where
  "csilk_mq_new al = (case malloc al of (ok, al) \<Rightarrow>
     (if ok then Some \<lparr>queue = [], topics = [], global_middlewares = [], global_mw_capacity = 0, wal_fd = - 1,
         published_total = 0, delivered_total = 0, queue_depth = 0, monitors = [], monitor_capacity = 0\<rparr>
      else None, al))"

record csilk_mq_stats =
  st_published :: u64
  st_delivered :: u64
  st_depth :: u32
  st_topics :: u32

definition csilk_mq_get_stats :: "('h, 'c) csilk_mq \<Rightarrow> csilk_mq_stats" where
  "csilk_mq_get_stats mq = \<lparr>st_published = published_total mq, st_delivered = delivered_total mq,
     st_depth = queue_depth mq, st_topics = of_nat (length (topics mq))\<rparr>"

section \<open>Registration\<close>

text \<open>The growth of the pointer arrays: capacity 4, then doubled; \<open>None\<close> when the array cannot grow.\<close>

definition grow_array :: "heap \<Rightarrow> nat \<Rightarrow> nat \<Rightarrow> nat option \<times> heap" where
  "grow_array al count cap =
     (if count < cap then (Some cap, al)
      else if cap \<noteq> 0 \<and> cap > SIZE_LIMIT div 2 then (None, al)
      else let new_cap = if cap = 0 then 4 else cap * 2 in
        if new_cap > SIZE_LIMIT div 8 then (None, al)
        else case malloc al of (ok, al) \<Rightarrow> (if ok then Some new_cap else None, al))"

definition csilk_mq_register_monitor :: "heap \<Rightarrow> 'c \<Rightarrow> ('h, 'c) csilk_mq \<Rightarrow> ('h, 'c) csilk_mq \<times> heap" where
  "csilk_mq_register_monitor al c mq = (case grow_array al (length (monitors mq)) (monitor_capacity mq) of
     (None, al) \<Rightarrow> (mq, al)
   | (Some cap, al) \<Rightarrow> (mq\<lparr>monitor_capacity := cap, monitors := monitors mq @ [c]\<rparr>, al))"

definition csilk_mq_unregister_monitor :: "'c \<Rightarrow> ('h, 'c) csilk_mq \<Rightarrow> ('h, 'c) csilk_mq" where
  "csilk_mq_unregister_monitor c mq = mq\<lparr>monitors := remove1 c (monitors mq)\<rparr>"

text \<open>The search of \<open>get_or_create_topic\<close> and the update of the topic it returns: the handler is
  appended to the first topic with that name. Comparing a NULL name is undefined.\<close>

definition add_topic_handler :: "heap \<Rightarrow> 'h \<Rightarrow> 'h csilk_mq_topic \<Rightarrow> 'h csilk_mq_topic \<times> heap" where
  "add_topic_handler al h t = (case grow_array al (length (t_handlers t)) (t_capacity t) of
     (None, al) \<Rightarrow> (t, al)
   | (Some cap, al) \<Rightarrow> (t\<lparr>t_capacity := cap, t_handlers := t_handlers t @ [h]\<rparr>, al))"

fun update_topic :: "heap \<Rightarrow> string \<Rightarrow> 'h \<Rightarrow> 'h csilk_mq_topic list \<Rightarrow> ('h csilk_mq_topic list option \<times> heap) option" where
  "update_topic al name h [] = Some (None, al)"
| "update_topic al name h (t # ts) = (case t_name t of
     None \<Rightarrow> None
   | Some s \<Rightarrow>
       if s = name then (case add_topic_handler al h t of (t', al) \<Rightarrow> Some (Some (t' # ts), al))
       else map_option (\<lambda>(r, al). (map_option ((#) t) r, al)) (update_topic al name h ts))"

definition create_topic :: "heap \<Rightarrow> string \<Rightarrow> 'h csilk_mq_topic option \<times> heap" where
  "create_topic al name = (case malloc al of (ok, al) \<Rightarrow>
     if \<not> ok then (None, al)
     else case malloc al of (ok, al) \<Rightarrow>
       (Some \<lparr>t_name = (if ok then Some name else None), t_handlers = [], t_capacity = 0\<rparr>, al))"

definition csilk_mq_use :: "heap \<Rightarrow> string option \<Rightarrow> 'h \<Rightarrow> ('h, 'c) csilk_mq \<Rightarrow> (('h, 'c) csilk_mq \<times> heap) option" where
  "csilk_mq_use al topic h mq = (case topic of
     None \<Rightarrow> (case grow_array al (length (global_middlewares mq)) (global_mw_capacity mq) of
         (None, al) \<Rightarrow> Some (mq, al)
       | (Some cap, al) \<Rightarrow>
           Some (mq\<lparr>global_mw_capacity := cap, global_middlewares := global_middlewares mq @ [h]\<rparr>, al))
   | Some name \<Rightarrow> (case update_topic al name h (topics mq) of
         None \<Rightarrow> None
       | Some (Some ts, al) \<Rightarrow> Some (mq\<lparr>topics := ts\<rparr>, al)
       | Some (None, al) \<Rightarrow> (case create_topic al name of
             (None, al) \<Rightarrow> Some (mq, al)
           | (Some t, al) \<Rightarrow> (case add_topic_handler al h t of
                 (t, al) \<Rightarrow> Some (mq\<lparr>topics := t # topics mq\<rparr>, al)))))"

definition csilk_mq_subscribe :: "heap \<Rightarrow> string option \<Rightarrow> 'h \<Rightarrow> ('h, 'c) csilk_mq \<Rightarrow> (('h, 'c) csilk_mq \<times> heap) option" where
  "csilk_mq_subscribe al topic h mq = csilk_mq_use al topic h mq"

section \<open>Publishing and delivery\<close>

text \<open>The monitor events sent by \<open>_mq_broadcast\<close>: monitors that are closed are dropped, the others get
  the event. \<open>closed\<close> is \<open>csilk_ctx_is_closed\<close>.\<close>

datatype mq_notice = Published string nat | Delivered string nat

definition mq_broadcast :: "('c \<Rightarrow> bool) \<Rightarrow> mq_notice \<Rightarrow> ('h, 'c) csilk_mq \<Rightarrow> ('h, 'c) csilk_mq \<times> ('c \<times> mq_notice) list" where
  "mq_broadcast closed e mq =
     (let ms = filter (\<lambda>c. \<not> closed c) (monitors mq) in (mq\<lparr>monitors := ms\<rparr>, map (\<lambda>c. (c, e)) ms))"

text \<open>The deep copy made by \<open>_mq_enqueue\<close>.\<close>

definition copy_msg :: "heap \<Rightarrow> string \<Rightarrow> string option \<Rightarrow> nat \<Rightarrow> csilk_mq_msg option \<times> heap" where
  "copy_msg al topic payload len = (case malloc al of (ok, al) \<Rightarrow>
     if \<not> ok then (None, al)
     else case malloc al of (ok, al) \<Rightarrow>
       if \<not> ok then (None, al)
       else case payload of
         Some p \<Rightarrow> if len > 0 then (case malloc al of (ok, al) \<Rightarrow>
             (if ok then Some \<lparr>m_topic = topic, m_payload = Some (take len p), m_len = len\<rparr> else None, al))
           else (Some \<lparr>m_topic = topic, m_payload = None, m_len = 0\<rparr>, al)
       | None \<Rightarrow> (Some \<lparr>m_topic = topic, m_payload = None, m_len = 0\<rparr>, al))"

definition mq_enqueue :: "('c \<Rightarrow> bool) \<Rightarrow> heap \<Rightarrow> string \<Rightarrow> string option \<Rightarrow> nat \<Rightarrow> ('h, 'c) csilk_mq \<Rightarrow>
    int \<times> ('h, 'c) csilk_mq \<times> ('c \<times> mq_notice) list \<times> heap" where
  "mq_enqueue closed al topic payload len mq = (case copy_msg al topic payload len of
     (None, al) \<Rightarrow> (- 1, mq, [], al)
   | (Some msg, al) \<Rightarrow>
       let mq = mq\<lparr>queue := queue mq @ [msg], published_total := published_total mq + 1, queue_depth := queue_depth mq + 1\<rparr>;
           (mq, out) = mq_broadcast closed (Published topic len) mq
       in (0, mq, out, al))"

text \<open>What a handler does with its context.\<close>

datatype action = Call_Next | Call_Abort | Call_Publish string "string option" nat

text \<open>The run of one message through its chain. \<open>next\<close> is \<open>handler_index + 1\<close>; the stack holds the
  actions the handlers being executed still have to take, innermost first; \<open>log\<close> collects the
  handlers that were invoked.\<close>

record ('h, 'c) mq_exec =
  e_next :: nat
  e_aborted :: bool
  e_mq :: "('h, 'c) csilk_mq"
  e_al :: heap
  e_log :: "'h list"

definition exec_publish :: "('c \<Rightarrow> bool) \<Rightarrow> string \<Rightarrow> string option \<Rightarrow> nat \<Rightarrow> ('h, 'c) mq_exec \<Rightarrow> ('h, 'c) mq_exec" where
  "exec_publish closed t p n s = (case mq_enqueue closed (e_al s) t p n (e_mq s) of
     (_, mq, _, al) \<Rightarrow> s\<lparr>e_mq := mq, e_al := al\<rparr>)"

lemma exec_publish_fields [simp]:
  "e_next (exec_publish closed t p n s) = e_next s" "e_aborted (exec_publish closed t p n s) = e_aborted s"
  "e_log (exec_publish closed t p n s) = e_log s"
  by (simp_all add: exec_publish_def split: prod.splits)

function run_chain :: "('c \<Rightarrow> bool) \<Rightarrow> ('h \<Rightarrow> action list) \<Rightarrow> 'h list \<Rightarrow> action list list \<Rightarrow> ('h, 'c) mq_exec \<Rightarrow> ('h, 'c) mq_exec" where
  "run_chain closed body hs [] s = s"
| "run_chain closed body hs ([] # k) s = run_chain closed body hs k s"
| "run_chain closed body hs ((Call_Abort # as) # k) s = run_chain closed body hs (as # k) (s\<lparr>e_aborted := True\<rparr>)"
| "run_chain closed body hs ((Call_Publish t p n # as) # k) s = run_chain closed body hs (as # k) (exec_publish closed t p n s)"
| "run_chain closed body hs ((Call_Next # as) # k) s =
     (if e_aborted s then run_chain closed body hs (as # k) s
      else if e_next s < length hs then
        run_chain closed body hs (body (hs ! e_next s) # as # k)
          (s\<lparr>e_next := e_next s + 1, e_log := e_log s @ [hs ! e_next s]\<rparr>)
      else run_chain closed body hs (as # k) (s\<lparr>e_next := e_next s + 1\<rparr>))"
  by pat_completeness auto
termination
  by (relation "measures [\<lambda>(closed, body, hs, k, s). length hs - e_next s,
      \<lambda>(closed, body, hs, k, s). sum_list (map (\<lambda>as. length as + 1) k)]") auto

text \<open>The chain of a message: the global middlewares, then the handlers of every topic whose name
  matches. Matching against a NULL name is undefined.\<close>

fun topic_chain :: "(string \<Rightarrow> string \<Rightarrow> bool) \<Rightarrow> string \<Rightarrow> 'h csilk_mq_topic list \<Rightarrow> 'h list option" where
  "topic_chain fnmatch topic [] = Some []"
| "topic_chain fnmatch topic (t # ts) = (case t_name t of
     None \<Rightarrow> None
   | Some s \<Rightarrow> map_option (\<lambda>hs. (if fnmatch s topic then t_handlers t else []) @ hs) (topic_chain fnmatch topic ts))"

definition deliver_msg :: "('c \<Rightarrow> bool) \<Rightarrow> ('h \<Rightarrow> action list) \<Rightarrow> (string \<Rightarrow> string \<Rightarrow> bool) \<Rightarrow> csilk_mq_msg \<Rightarrow>
    heap \<Rightarrow> ('h, 'c) csilk_mq \<Rightarrow> (('h, 'c) csilk_mq \<times> heap \<times> 'h list) option" where
  "deliver_msg closed body fnmatch msg al mq =
     (let mq = fst (mq_broadcast closed (Delivered (m_topic msg) (m_len msg)) mq);
          mq = mq\<lparr>delivered_total := delivered_total mq + 1\<rparr> in
      case topic_chain fnmatch (m_topic msg) (topics mq) of
        None \<Rightarrow> None
      | Some hs \<Rightarrow>
          let chain = global_middlewares mq @ hs in
          if chain = [] then Some (mq, al, [])
          else case malloc al of (ok, al) \<Rightarrow>
            if \<not> ok then Some (mq, al, [])
            else let s = run_chain closed body chain [[Call_Next]]
                   \<lparr>e_next = 0, e_aborted = False, e_mq = mq, e_al = al, e_log = []\<rparr>
              in Some (e_mq s, e_al s, e_log s))"



section \<open>Chains\<close>

text \<open>Whatever the handlers do, the handlers invoked are the first ones of the chain, in order.\<close>

lemma run_chain_log:
  "e_log s = take (e_next s) hs \<Longrightarrow>
     e_log (run_chain closed body hs k s) = take (e_next (run_chain closed body hs k s)) hs"
proof (induction closed body hs k s rule: run_chain.induct)
  case (5 closed body hs as k s)
  show ?case
  proof (cases "e_aborted s")
    case True
    then show ?thesis using "5.IH"(1) "5.prems" by simp
  next
    case False
    show ?thesis
    proof (cases "e_next s < length hs")
      case True
      then show ?thesis using "5.IH"(2)[OF False] "5.prems" False by (simp add: take_Suc_conv_app_nth)
    next
      case nlt: False
      then show ?thesis using "5.IH"(3)[OF False] "5.prems" False by simp
    qed
  qed
qed simp_all

text \<open>When every handler continues the chain and none aborts it, the whole chain runs.\<close>

definition continues :: "('h \<Rightarrow> action list) \<Rightarrow> 'h list \<Rightarrow> bool" where
  "continues body hs = list_all (\<lambda>h. Call_Next \<in> set (body h) \<and> Call_Abort \<notin> set (body h)) hs"

lemma run_chain_complete:
  assumes "continues body hs" "\<not> e_aborted s" "\<forall>as\<in>set k. Call_Abort \<notin> set as"
    and "length hs \<le> e_next s \<or> (\<exists>as\<in>set k. Call_Next \<in> set as)"
  shows "length hs \<le> e_next (run_chain closed body hs k s)"
  using assms
proof (induction closed body hs k s rule: run_chain.induct)
  case (5 closed body hs as k s)
  show ?case
  proof (cases "e_next s < length hs")
    case True
    have "Call_Next \<in> set (body (hs ! e_next s))" "Call_Abort \<notin> set (body (hs ! e_next s))"
      using "5.prems"(1) True by (auto simp: continues_def list_all_length)
    then show ?thesis using "5.IH"(2)[OF "5.prems"(2) True] "5.prems" True by simp
  next
    case False
    then show ?thesis using "5.IH"(3)[OF "5.prems"(2) False] "5.prems" by simp
  qed
qed auto

lemma mq_enqueue_fields:
  assumes "mq_enqueue closed al t p n mq = (r, mq', out, al')"
  shows "topics mq' = topics mq" "global_middlewares mq' = global_middlewares mq"
    "delivered_total mq' = delivered_total mq" "wal_fd mq' = wal_fd mq"
    "queue_depth mq = of_nat (length (queue mq)) \<Longrightarrow> queue_depth mq' = of_nat (length (queue mq'))"
  using assms by (auto simp: mq_enqueue_def mq_broadcast_def Let_def split: prod.splits option.splits)

lemma exec_publish_mq [simp]:
  "topics (e_mq (exec_publish closed t p n s)) = topics (e_mq s)"
  "global_middlewares (e_mq (exec_publish closed t p n s)) = global_middlewares (e_mq s)"
  "delivered_total (e_mq (exec_publish closed t p n s)) = delivered_total (e_mq s)"
  "queue_depth (e_mq s) = of_nat (length (queue (e_mq s))) \<Longrightarrow>
     queue_depth (e_mq (exec_publish closed t p n s)) = of_nat (length (queue (e_mq (exec_publish closed t p n s))))"
  by (auto simp: exec_publish_def dest: mq_enqueue_fields split: prod.splits)

lemma run_chain_mq:
  "topics (e_mq (run_chain closed body hs k s)) = topics (e_mq s)
   \<and> global_middlewares (e_mq (run_chain closed body hs k s)) = global_middlewares (e_mq s)
   \<and> delivered_total (e_mq (run_chain closed body hs k s)) = delivered_total (e_mq s)
   \<and> (queue_depth (e_mq s) = of_nat (length (queue (e_mq s))) \<longrightarrow>
        queue_depth (e_mq (run_chain closed body hs k s)) = of_nat (length (queue (e_mq (run_chain closed body hs k s)))))"
  by (induction closed body hs k s rule: run_chain.induct) simp_all

section \<open>Delivery\<close>

text \<open>The handlers a message must go through.\<close>

definition chain_for :: "(string \<Rightarrow> string \<Rightarrow> bool) \<Rightarrow> ('h, 'c) csilk_mq \<Rightarrow> string \<Rightarrow> 'h list" where
  "chain_for fnmatch mq topic = global_middlewares mq
     @ concat (map t_handlers (filter (\<lambda>t. fnmatch (the (t_name t)) topic) (topics mq)))"

definition names_ok :: "('h, 'c) csilk_mq \<Rightarrow> bool" where
  "names_ok mq = (list_all (\<lambda>t. t_name t \<noteq> None) (topics mq) \<and> distinct (map t_name (topics mq)))"

lemma topic_chain_eq:
  "list_all (\<lambda>t. t_name t \<noteq> None) ts \<Longrightarrow>
     topic_chain fnmatch topic ts = Some (concat (map t_handlers (filter (\<lambda>t. fnmatch (the (t_name t)) topic) ts)))"
  by (induction ts) auto

lemma deliver_msg_spec:
  assumes "names_ok mq"
  shows "\<exists>mq' al' log. deliver_msg closed body fnmatch m al mq = Some (mq', al', log)
    \<and> topics mq' = topics mq \<and> global_middlewares mq' = global_middlewares mq
    \<and> delivered_total mq' = delivered_total mq + 1
    \<and> (queue_depth mq = of_nat (length (queue mq)) \<longrightarrow> queue_depth mq' = of_nat (length (queue mq')))
    \<and> (\<exists>k. log = take k (chain_for fnmatch mq (m_topic m)))
    \<and> (al = [] \<longrightarrow> continues body (chain_for fnmatch mq (m_topic m)) \<longrightarrow> log = chain_for fnmatch mq (m_topic m))"
proof -
  let ?mq = "(fst (mq_broadcast closed (Delivered (m_topic m) (m_len m)) mq))\<lparr>delivered_total := delivered_total mq + 1\<rparr>"
  let ?chain = "chain_for fnmatch mq (m_topic m)"
  have mq: "topics ?mq = topics mq" "global_middlewares ?mq = global_middlewares mq" "queue ?mq = queue mq"
    "queue_depth ?mq = queue_depth mq" "delivered_total ?mq = delivered_total mq + 1"
    by (simp_all add: mq_broadcast_def Let_def)
  have tc: "topic_chain fnmatch (m_topic m) (topics mq) = Some (concat (map t_handlers (filter (\<lambda>t. fnmatch (the (t_name t)) (m_topic m)) (topics mq))))"
    using assms by (intro topic_chain_eq) (simp add: names_ok_def)
  obtain ok al1 where al1: "malloc al = (ok, al1)" by (cases "malloc al")
  let ?s = "run_chain closed body ?chain [[Call_Next]] \<lparr>e_next = 0, e_aborted = False, e_mq = ?mq, e_al = al1, e_log = []\<rparr>"
  have del: "deliver_msg closed body fnmatch m al mq
      = (if ?chain = [] then Some (?mq, al, []) else if \<not> ok then Some (?mq, al1, []) else Some (e_mq ?s, e_al ?s, e_log ?s))"
    using tc al1 by (simp add: deliver_msg_def mq_broadcast_def Let_def del: run_chain.simps append_is_Nil_conv flip: chain_for_def)
  show ?thesis
  proof (cases "?chain = [] \<or> \<not> ok")
    case True
    let ?al = "if ?chain = [] then al else al1"
    have "deliver_msg closed body fnmatch m al mq = Some (?mq, ?al, [])"
      using del True by (auto simp del: run_chain.simps)
    moreover have "al = [] \<longrightarrow> ?chain = []" using True al1 by auto
    ultimately show ?thesis using mq by (intro exI[of _ ?mq] exI[of _ ?al] exI[of _ "[]"]) auto
  next
    case False
    then have d: "deliver_msg closed body fnmatch m al mq = Some (e_mq ?s, e_al ?s, e_log ?s)" using del by auto
    have log: "e_log ?s = take (e_next ?s) ?chain" by (rule run_chain_log) simp
    have "length ?chain \<le> e_next ?s" if "continues body ?chain"
      by (rule run_chain_complete[OF that]) simp_all
    then have full: "continues body ?chain \<longrightarrow> e_log ?s = ?chain" using log by (simp del: run_chain.simps)
    show ?thesis
      using run_chain_mq[of closed body ?chain "[[Call_Next]]" "\<lparr>e_next = 0, e_aborted = False, e_mq = ?mq, e_al = al1, e_log = []\<rparr>"]
        d log full mq
      by (intro exI[of _ "e_mq ?s"] exI[of _ "e_al ?s"] exI[of _ "e_log ?s"]) (auto simp del: run_chain.simps)
  qed
qed




text \<open>Registration: with memory available the handler goes to the end of the global middlewares, or to
  the end of the handlers of its topic.\<close>

definition handlers_of :: "('h, 'c) csilk_mq \<Rightarrow> string \<Rightarrow> 'h list" where
  "handlers_of mq name = concat (map t_handlers (filter (\<lambda>t. t_name t = Some name) (topics mq)))"

definition small_arrays :: "('h, 'c) csilk_mq \<Rightarrow> bool" where
  "small_arrays mq = (global_mw_capacity mq < 2 ^ 60 \<and> list_all (\<lambda>t. t_capacity t < 2 ^ 60) (topics mq))"

lemma grow_array_ok: "cap < 2 ^ 60 \<Longrightarrow> \<exists>cap'. grow_array [] count cap = (Some cap', [])"
  by (auto simp: grow_array_def Let_def)

lemma add_topic_handler_ok:
  assumes "t_capacity t < 2 ^ 60"
  shows "\<exists>cap. add_topic_handler [] h t = (t\<lparr>t_capacity := cap, t_handlers := t_handlers t @ [h]\<rparr>, [])"
  using grow_array_ok[OF assms, of "length (t_handlers t)"] by (auto simp: add_topic_handler_def)

lemma update_topic_ok:
  assumes "list_all (\<lambda>t. t_name t \<noteq> None) ts" "list_all (\<lambda>t. t_capacity t < 2 ^ 60) ts" "distinct (map t_name ts)"
  shows "(if Some name \<in> t_name ` set ts
     then \<exists>ts'. update_topic [] name h ts = Some (Some ts', []) \<and> map t_name ts' = map t_name ts
        \<and> map t_handlers ts' = map (\<lambda>t. if t_name t = Some name then t_handlers t @ [h] else t_handlers t) ts
     else update_topic [] name h ts = Some (None, []))"
  using assms
proof (induction ts)
  case (Cons t ts)
  obtain s where s: "t_name t = Some s" using Cons.prems(1) by auto
  show ?case
  proof (cases "s = name")
    case True
    obtain cap where "add_topic_handler [] h t = (t\<lparr>t_capacity := cap, t_handlers := t_handlers t @ [h]\<rparr>, [])"
      using add_topic_handler_ok Cons.prems(2) by fastforce
    moreover have "\<forall>x\<in>set ts. t_name x \<noteq> Some name" using Cons.prems(3) s True by force
    ultimately show ?thesis using s True by auto
  next
    case False
    then show ?thesis using Cons s by (auto split: if_splits)
  qed
qed simp

lemma csilk_mq_use_topic:
  assumes "names_ok mq" "small_arrays mq" "csilk_mq_use [] (Some name) h mq = r"
  shows "\<exists>mq'. r = Some (mq', []) \<and> names_ok mq' \<and> global_middlewares mq' = global_middlewares mq
    \<and> handlers_of mq' name = handlers_of mq name @ [h]
    \<and> (\<forall>n. n \<noteq> name \<longrightarrow> handlers_of mq' n = handlers_of mq n)"
proof (cases "Some name \<in> t_name ` set (topics mq)")
  case True
  then obtain ts where ts: "update_topic [] name h (topics mq) = Some (Some ts, [])" "map t_name ts = map t_name (topics mq)"
    "map t_handlers ts = map (\<lambda>t. if t_name t = Some name then t_handlers t @ [h] else t_handlers t) (topics mq)"
    using update_topic_ok[of "topics mq" name h] assms(1,2) by (auto simp: names_ok_def small_arrays_def)
  have flt: "concat (map t_handlers (filter (\<lambda>t. t_name t = Some n) us'))
     = concat (map t_handlers (filter (\<lambda>t. t_name t = Some n) us)) @ (if n = name \<and> Some name \<in> t_name ` set us then [h] else [])"
    if "map t_name us' = map t_name us" "distinct (map t_name us)"
      "map t_handlers us' = map (\<lambda>t. if t_name t = Some name then t_handlers t @ [h] else t_handlers t) us" for n us us'
    using that
  proof (induction us arbitrary: us')
    case (Cons u us)
    then obtain v vs where v: "us' = v # vs" by (cases us') auto
    have "filter (\<lambda>t. t_name t = Some n) us = []" if "t_name u = Some n"
      using Cons.prems(2) that by (force simp: filter_empty_conv)
    then show ?case using Cons.prems Cons.IH[of vs] v by auto
  qed auto
  have "None \<notin> set (map t_name ts)" unfolding ts(2) using assms(1) by (force simp: names_ok_def list_all_iff)
  then have "\<forall>t\<in>set ts. t_name t \<noteq> None" by (metis imageI list.set_map)
  then have "names_ok (mq\<lparr>topics := ts\<rparr>)" using assms(1) ts(2) by (simp add: names_ok_def list_all_iff)
  moreover have "handlers_of (mq\<lparr>topics := ts\<rparr>) n = handlers_of mq n @ (if n = name then [h] else [])" for n
    using flt[OF ts(2) _ ts(3), of n] True assms(1) by (simp add: handlers_of_def names_ok_def)
  moreover have "r = Some (mq\<lparr>topics := ts\<rparr>, [])" using assms(3) ts(1) by (simp add: csilk_mq_use_def)
  ultimately show ?thesis by simp
next
  case False
  then have ut: "update_topic [] name h (topics mq) = Some (None, [])"
    using update_topic_ok[of "topics mq" name h] assms(1,2) by (simp add: names_ok_def small_arrays_def)
  have flt: "filter (\<lambda>t. t_name t = Some name) (topics mq) = []" using False by (force simp: filter_empty_conv)
  obtain cap where add: "add_topic_handler [] h \<lparr>t_name = Some name, t_handlers = [], t_capacity = 0\<rparr>
      = (\<lparr>t_name = Some name, t_handlers = [h], t_capacity = cap\<rparr>, [])"
    using add_topic_handler_ok[of "\<lparr>t_name = Some name, t_handlers = [], t_capacity = 0\<rparr>" h] by auto
  then show ?thesis
    using assms(1,3) ut flt False
    by (auto simp: csilk_mq_use_def create_topic_def handlers_of_def names_ok_def)
qed

section \<open>Properties\<close>


definition example_mq :: "(nat, nat) csilk_mq" where
  "example_mq = \<lparr>queue = [\<lparr>m_topic = ''a'', m_payload = None, m_len = 0\<rparr>],
     topics = [\<lparr>t_name = Some ''a'', t_handlers = [7, 8], t_capacity = 4\<rparr>], global_middlewares = [1],
     global_mw_capacity = 4, wal_fd = - 1, published_total = 1, delivered_total = 0, queue_depth = 1,
     monitors = [], monitor_capacity = 0\<rparr>"


text \<open>
  Subscribing: with memory available \<open>csilk_mq_use\<close> appends the handler to its topic (or creates
  the topic), keeps every other topic, and a message of exactly that topic whose handlers all
  continue the chain reaches, in order, the global middlewares and then the handlers subscribed to
  the topic, the new one last.
\<close>
theorem mq_subscriber_is_reached:
  assumes "names_ok mq" and "small_arrays mq" and "csilk_mq_subscribe [] (Some name) h mq = r"
    and "\<And>h. Call_Next \<in> set (body h) \<and> Call_Abort \<notin> set (body h)"
  shows "\<exists>mq' mq'' al. r = Some (mq', []) \<and> names_ok mq'
    \<and> (\<forall>n. n \<noteq> name \<longrightarrow> handlers_of mq' n = handlers_of mq n)
    \<and> deliver_msg closed body (=) \<lparr>m_topic = name, m_payload = p, m_len = l\<rparr> [] mq'
        = Some (mq'', al, global_middlewares mq @ handlers_of mq name @ [h])"
proof -
  obtain mq' where mq': "r = Some (mq', [])" "names_ok mq'" "global_middlewares mq' = global_middlewares mq"
    "handlers_of mq' name = handlers_of mq name @ [h]" "\<forall>n. n \<noteq> name \<longrightarrow> handlers_of mq' n = handlers_of mq n"
    using csilk_mq_use_topic[OF assms(1,2), of name h r] assms(3) by (auto simp: csilk_mq_subscribe_def)
  have "filter (\<lambda>t. the (t_name t) = name) (topics mq') = filter (\<lambda>t. t_name t = Some name) (topics mq')"
    using mq'(2) by (intro filter_cong) (auto simp: names_ok_def list_all_iff)
  then have "chain_for (=) mq' name = global_middlewares mq @ handlers_of mq name @ [h]"
    using mq'(3,4) by (simp add: chain_for_def handlers_of_def)
  moreover have "continues body hs" for hs using assms(4) by (simp add: continues_def list_all_iff)
  ultimately show ?thesis
    using deliver_msg_spec[OF mq'(2), of closed body "(=)" "\<lparr>m_topic = name, m_payload = p, m_len = l\<rparr>" "[]"] mq' by auto
qed

theorem mq_subscriber_is_reached_witness:
  "\<exists>mq' mq'' al. csilk_mq_subscribe [] (Some ''a'') 9 example_mq = Some (mq', []) \<and> names_ok mq'
    \<and> (\<forall>n. n \<noteq> ''a'' \<longrightarrow> handlers_of mq' n = handlers_of example_mq n)
    \<and> deliver_msg (\<lambda>_. False) (\<lambda>_. [Call_Next]) (=) \<lparr>m_topic = ''a'', m_payload = None, m_len = 0\<rparr> [] mq'
        = Some (mq'', al, global_middlewares example_mq @ handlers_of example_mq ''a'' @ [9])"
  by (rule mq_subscriber_is_reached[OF _ _ refl]) (simp_all add: example_mq_def names_ok_def small_arrays_def)

end
