(* ===== verification/Mq_Wal.thy ===== *)
theory Mq_Wal
  imports Message_Queue
begin

unbundle bit_operations_syntax

text \<open>
  Model of src/messaging/mq_wal.c, the write-ahead log of the message queue, and of the publish and
  set-persistence paths that use it. \<open>mq_append_wal\<close> hands a copy of the message to the writer
  thread; the writer drains its queue in batches, writes one frame per message and syncs the file of
  the last one; \<open>mq_recovery\<close> reads the frames back. A file is the list of its bytes; \<open>write\<close> can be
  short, its outcomes are a parameter; a read gives the bytes the file has. A crash keeps the synced
  bytes of a file and cuts the rest at an arbitrary byte.
\<close>

section \<open>Frames\<close>

abbreviation MQ_WAL_MAX_TOPIC_LEN :: nat where "MQ_WAL_MAX_TOPIC_LEN \<equiv> 64 * 1024"
abbreviation MQ_WAL_MAX_PAYLOAD_LEN :: nat where "MQ_WAL_MAX_PAYLOAD_LEN \<equiv> 64 * 1024 * 1024"

record mq_wal_task =
  w_fd :: int
  w_topic :: string
  w_payload :: "string option"
  w_len :: nat

definition xor_bytes :: "string \<Rightarrow> u32 \<Rightarrow> u32" where
  "xor_bytes cs w = fold (\<lambda>c w. w XOR of_nat (byte c)) cs w"

definition wal_checksum :: "string \<Rightarrow> string option \<Rightarrow> u32" where
  "wal_checksum topic payload = (case payload of None \<Rightarrow> xor_bytes topic 0 | Some p \<Rightarrow> xor_bytes p (xor_bytes topic 0))"

text \<open>The lengths are stored in 32 bits.\<close>

definition u32_len :: "nat \<Rightarrow> nat" where
  "u32_len n = unat (of_nat n :: u32)"

text \<open>One \<open>write\<close> call: the outcome is the number of bytes that reach the file (an exhausted list
  means all of them); the result tells whether the count was complete.\<close>

definition write_bytes :: "nat list \<Rightarrow> string \<Rightarrow> string \<Rightarrow> bool \<times> string \<times> nat list" where
  "write_bytes ws data file = (case ws of
     [] \<Rightarrow> (True, file @ data, [])
   | n # ws \<Rightarrow> (length data \<le> n, file @ take n data, ws))"

definition write_frame :: "nat list \<Rightarrow> mq_wal_task \<Rightarrow> string \<Rightarrow> string \<times> nat list" where
  "write_frame ws t file =
     (let topic_len = u32_len (length (w_topic t)); payload_len = u32_len (w_len t);
          payload = map_option (take payload_len) (w_payload t);
          checksum = wal_checksum (take topic_len (w_topic t)) payload;
          (ok, file, ws) = write_bytes ws (le_bytes 4 topic_len) file in
      if \<not> ok then (file, ws)
      else let (_, file, ws) = write_bytes ws (take topic_len (w_topic t)) file;
               (_, file, ws) = write_bytes ws (le_bytes 4 payload_len) file;
               (file, ws) = (case payload of
                  Some p \<Rightarrow> if payload_len > 0 then snd (write_bytes ws p file) else (file, ws)
                | None \<Rightarrow> (file, ws));
               (_, file, ws) = write_bytes ws (le_bytes 4 (unat checksum)) file
        in (file, ws))"

section \<open>Appending and the writer thread\<close>

definition mq_append_wal :: "heap \<Rightarrow> int \<Rightarrow> string \<Rightarrow> string option \<Rightarrow> nat \<Rightarrow> int \<times> mq_wal_task option \<times> heap" where
  "mq_append_wal al fd topic payload len =
     (if fd < 0 then (0, None, al)
      else case malloc al of (ok, al) \<Rightarrow>
        if \<not> ok then (- 1, None, al)
        else case malloc al of (ok, al) \<Rightarrow>
          if \<not> ok then (- 1, None, al)
          else if len > 0 \<and> payload \<noteq> None then (case malloc al of (ok, al) \<Rightarrow>
              if \<not> ok then (- 1, None, al)
              else (0, Some \<lparr>w_fd = fd, w_topic = topic, w_payload = map_option (take len) payload, w_len = len\<rparr>, al))
          else (0, Some \<lparr>w_fd = fd, w_topic = topic, w_payload = None, w_len = len\<rparr>, al))"

definition csilk_mq_publish :: "('c \<Rightarrow> bool) \<Rightarrow> heap \<Rightarrow> string \<Rightarrow> string option \<Rightarrow> nat \<Rightarrow> ('h, 'c) csilk_mq \<Rightarrow>
    mq_wal_task list \<Rightarrow> int \<times> ('h, 'c) csilk_mq \<times> mq_wal_task list \<times> heap" where
  "csilk_mq_publish closed al topic payload len mq tasks =
     (if wal_fd mq \<ge> 0 then
        (case mq_append_wal al (wal_fd mq) topic payload len of (rc, t, al) \<Rightarrow>
           let tasks = (case t of None \<Rightarrow> tasks | Some t \<Rightarrow> tasks @ [t]) in
           if rc \<noteq> 0 then (- 1, mq, tasks, al)
           else case mq_enqueue closed al topic payload len mq of (rc, mq, _, al) \<Rightarrow> (rc, mq, tasks, al))
      else case mq_enqueue closed al topic payload len mq of (rc, mq, _, al) \<Rightarrow> (rc, mq, tasks, al))"

record wal_state =
  wal_queue :: "mq_wal_task list"
  wal_writing :: bool
  wal_batch :: "mq_wal_task list"
  wal_last_fd :: int
  wal_files :: "int \<Rightarrow> string"
  wal_synced :: "int \<Rightarrow> nat"

datatype wal_event = Accept mq_wal_task | Drain | Write | Sync

text \<open>A step of the system: a publisher enqueues a task, or the writer thread drains the queue,
  writes one frame, or syncs and goes idle. Writes are complete here.\<close>

inductive wal_step :: "wal_state \<Rightarrow> wal_event \<Rightarrow> wal_state \<Rightarrow> bool" where
  wal_accept: "wal_step s (Accept t) (s\<lparr>wal_queue := wal_queue s @ [t]\<rparr>)"
| wal_drain: "\<not> wal_writing s \<Longrightarrow> wal_queue s \<noteq> [] \<Longrightarrow>
    wal_step s Drain (s\<lparr>wal_batch := wal_queue s, wal_queue := [], wal_writing := True, wal_last_fd := - 1\<rparr>)"
| wal_write: "wal_writing s \<Longrightarrow> wal_batch s = t # ts \<Longrightarrow>
    wal_step s Write (s\<lparr>wal_batch := ts, wal_last_fd := w_fd t,
      wal_files := (wal_files s)(w_fd t := fst (write_frame [] t (wal_files s (w_fd t))))\<rparr>)"
| wal_sync: "wal_writing s \<Longrightarrow> wal_batch s = [] \<Longrightarrow>
    wal_step s Sync (s\<lparr>wal_writing := False, wal_synced := (if wal_last_fd s \<ge> 0
      then (wal_synced s)(wal_last_fd s := length (wal_files s (wal_last_fd s))) else wal_synced s)\<rparr>)"

inductive wal_run :: "wal_state \<Rightarrow> wal_event list \<Rightarrow> wal_state \<Rightarrow> bool" where
  wal_Nil: "wal_run s [] s"
| wal_snoc: "wal_run s tr s' \<Longrightarrow> wal_step s' e s'' \<Longrightarrow> wal_run s (tr @ [e]) s''"

text \<open>\<open>_mq_wal_flush\<close> returns when the queue is empty and no batch is being written.\<close>

definition wal_flushed :: "wal_state \<Rightarrow> bool" where
  "wal_flushed s = (wal_queue s = [] \<and> \<not> wal_writing s)"

definition crash_image :: "wal_state \<Rightarrow> int \<Rightarrow> string \<Rightarrow> bool" where
  "crash_image s fd f \<longleftrightarrow> (\<exists>k. wal_synced s fd \<le> k \<and> f = take k (wal_files s fd))"

section \<open>Recovery\<close>

definition fs_read :: "string \<Rightarrow> nat \<Rightarrow> nat \<Rightarrow> string" where
  "fs_read file off n = take n (drop off file)"

text \<open>Steps 1 to 6 of the loop body: the topic, payload and length of the frame at an offset and the
  offset after it, or nothing when the loop stops here.\<close>

definition read_payload :: "heap \<Rightarrow> string \<Rightarrow> nat \<Rightarrow> nat \<Rightarrow> string option option \<times> heap" where
  "read_payload al file off payload_len =
     (if payload_len = 0 then (Some None, al)
      else case malloc al of (ok, al) \<Rightarrow>
        let p = fs_read file off payload_len in
        (if ok \<and> \<not> length p < payload_len then Some (Some p) else None, al))"

definition read_rest :: "heap \<Rightarrow> string \<Rightarrow> nat \<Rightarrow> string \<Rightarrow> (string \<times> string option \<times> nat \<times> nat) option \<times> heap" where
  "read_rest al file off topic =
     (let b = fs_read file off 4 in
      if length b < 4 then (None, al)
      else let payload_len = unat (le_load b :: u32); off = off + 4 in
        if payload_len > MQ_WAL_MAX_PAYLOAD_LEN then (None, al)
        else case read_payload al file off payload_len of
          (None, al) \<Rightarrow> (None, al)
        | (Some payload, al) \<Rightarrow>
            let off = off + payload_len; b = fs_read file off 4 in
            if length b < 4 then (None, al)
            else if wal_checksum topic payload = le_load b then (Some (topic, payload, payload_len, off + 4), al)
            else (None, al))"

definition read_frame :: "heap \<Rightarrow> string \<Rightarrow> nat \<Rightarrow> (string \<times> string option \<times> nat \<times> nat) option \<times> heap" where
  "read_frame al file off =
     (let b = fs_read file off 4 in
      if length b < 4 then (None, al)
      else let topic_len = unat (le_load b :: u32); off = off + 4 in
        if topic_len = 0 \<or> topic_len > MQ_WAL_MAX_TOPIC_LEN then (None, al)
        else case malloc al of (ok, al) \<Rightarrow>
          if \<not> ok then (None, al)
          else let topic = fs_read file off topic_len in
            if length topic < topic_len then (None, al)
            else read_rest al file (off + topic_len) topic)"

lemma read_rest_advances: "read_rest al file off topic = (Some (t, p, n, off'), al') \<Longrightarrow> off < off'"
  by (cases "read_payload al file (off + 4) (unat (le_load (fs_read file off 4) :: u32))")
    (auto simp: read_rest_def Let_def split: if_splits option.splits)

lemma read_frame_advances:
  assumes "read_frame al file off = (Some (t, p, n, off'), al')"
  shows "off < off' \<and> off < length file"
proof -
  let ?tl = "unat (le_load (fs_read file off 4) :: u32)"
  have "\<not> length (fs_read file off 4) < 4"
    using assms by (simp add: read_frame_def Let_def split: if_splits)
  moreover obtain al1 where "read_rest al1 file (off + 4 + ?tl) (fs_read file (off + 4) ?tl) = (Some (t, p, n, off'), al')"
    using assms by (simp add: read_frame_def Let_def split: if_splits prod.splits)
  then have "off < off'" using read_rest_advances by fastforce
  ultimately show ?thesis by (simp add: fs_read_def)
qed

function recovery_loop :: "('c \<Rightarrow> bool) \<Rightarrow> string \<Rightarrow> heap \<Rightarrow> nat \<Rightarrow> ('h, 'c) csilk_mq \<Rightarrow> ('h, 'c) csilk_mq \<times> heap" where
  "recovery_loop closed file al off mq = (case read_frame al file off of
     (None, al) \<Rightarrow> (mq, al)
   | (Some (topic, payload, len, off'), al) \<Rightarrow>
       (case mq_enqueue closed al (takeWhile (\<lambda>c. c \<noteq> NUL) topic) payload len mq of
          (_, mq, _, al) \<Rightarrow> recovery_loop closed file al off' mq))"
  by pat_completeness auto
termination
proof (relation "measure (\<lambda>(closed, file, al, off, mq). length file - off)", goal_cases)
  case 2
  then show ?case by (auto dest!: read_frame_advances[OF sym] intro: diff_less_mono2)
qed simp

definition mq_recovery :: "('c \<Rightarrow> bool) \<Rightarrow> (int \<Rightarrow> string) \<Rightarrow> heap \<Rightarrow> ('h, 'c) csilk_mq \<Rightarrow> ('h, 'c) csilk_mq \<times> heap" where
  "mq_recovery closed files al mq =
     (if wal_fd mq < 0 then (mq, al) else recovery_loop closed (files (wal_fd mq)) al 0 mq)"

text \<open>\<open>fd\<close> is what opening the log gave, negative for an error.\<close>

definition csilk_mq_set_persistence :: "('c \<Rightarrow> bool) \<Rightarrow> (int \<Rightarrow> string) \<Rightarrow> heap \<Rightarrow> int \<Rightarrow> ('h, 'c) csilk_mq \<Rightarrow>
    int \<times> ('h, 'c) csilk_mq \<times> heap" where
  "csilk_mq_set_persistence closed files al fd mq =
     (let mq = mq\<lparr>wal_fd := - 1\<rparr> in
      if fd < 0 then (fd, mq, al)
      else case malloc al of (_, al) \<Rightarrow>
        (case mq_recovery closed files al (mq\<lparr>wal_fd := fd\<rparr>) of (mq, al) \<Rightarrow> (0, mq, al)))"

declare recovery_loop.simps [simp del]

section \<open>Reading back what was written\<close>

definition frame_body :: "mq_wal_task \<Rightarrow> string" where
  "frame_body t = (case w_payload t of None \<Rightarrow> [] | Some p \<Rightarrow> p)"

text \<open>The part of a frame after the topic, and the whole frame, for a message within the limits.\<close>

definition frame_rest :: "mq_wal_task \<Rightarrow> string" where
  "frame_rest t = le_bytes 4 (w_len t) @ frame_body t @ le_bytes 4 (unat (wal_checksum (w_topic t) (w_payload t)))"

definition wal_frame :: "mq_wal_task \<Rightarrow> string" where
  "wal_frame t = le_bytes 4 (length (w_topic t)) @ w_topic t @ frame_rest t"

definition valid_task :: "mq_wal_task \<Rightarrow> bool" where
  "valid_task t = (w_topic t \<noteq> [] \<and> NUL \<notin> set (w_topic t) \<and> length (w_topic t) \<le> MQ_WAL_MAX_TOPIC_LEN
     \<and> w_len t \<le> MQ_WAL_MAX_PAYLOAD_LEN
     \<and> (case w_payload t of None \<Rightarrow> w_len t = 0 | Some p \<Rightarrow> 0 < w_len t \<and> length p = w_len t))"


lemma u32_len_id: "n < 2 ^ 32 \<Longrightarrow> u32_len n = n"
  by (simp add: u32_len_def unat_of_nat take_bit_nat_eq_self)

lemma valid_lengths:
  assumes "valid_task t"
  shows "u32_len (length (w_topic t)) = length (w_topic t)" "u32_len (w_len t) = w_len t"
    "length (frame_body t) = w_len t" "length (frame_rest t) = w_len t + 8"
    "length (wal_frame t) = length (w_topic t) + w_len t + 12"
proof -
  have "length (w_topic t) < 2 ^ 32" "w_len t < 2 ^ 32" using assms by (auto simp: valid_task_def)
  then show "u32_len (length (w_topic t)) = length (w_topic t)" "u32_len (w_len t) = w_len t"
    by (auto intro: u32_len_id)
  show "length (frame_body t) = w_len t" using assms by (auto simp: valid_task_def frame_body_def split: option.splits)
  then show "length (frame_rest t) = w_len t + 8" by (simp add: frame_rest_def)
  then show "length (wal_frame t) = length (w_topic t) + w_len t + 12" by (simp add: wal_frame_def)
qed

lemma write_frame_complete:
  assumes "valid_task t"
  shows "write_frame [] t file = (file @ wal_frame t, [])"
proof (cases "w_payload t")
  case None
  then show ?thesis
    using assms valid_lengths[OF assms]
    by (simp add: write_frame_def write_bytes_def wal_frame_def frame_rest_def frame_body_def Let_def)
next
  case (Some p)
  then have "0 < w_len t" "length p = w_len t" using assms by (auto simp: valid_task_def)
  then show ?thesis
    using Some valid_lengths[OF assms]
    by (simp add: write_frame_def write_bytes_def wal_frame_def frame_rest_def frame_body_def Let_def)
qed

lemma fs_read_at: "off = length pre + m \<Longrightarrow> fs_read (pre @ xs) off n = take n (drop m xs)"
  by (simp add: fs_read_def)








section \<open>Recovering a log\<close>






section \<open>Crashes\<close>

fun accepted :: "wal_event list \<Rightarrow> mq_wal_task list" where
  "accepted [] = []" | "accepted (Accept t # tr) = t # accepted tr" | "accepted (_ # tr) = accepted tr"

lemma accepted_append [simp]: "accepted (tr @ tr') = accepted tr @ accepted tr'"
  by (induction tr rule: accepted.induct) auto









section \<open>Properties\<close>



definition hello :: mq_wal_task where
  "hello = \<lparr>w_fd = 3, w_topic = ''a'', w_payload = None, w_len = 0\<rparr>"

definition wal_empty :: wal_state where
  "wal_empty = \<lparr>wal_queue = [], wal_writing = False, wal_batch = [], wal_last_fd = - 1, wal_files = (\<lambda>_. []), wal_synced = (\<lambda>_. 0)\<rparr>"

definition empty_mq :: "int \<Rightarrow> (nat, nat) csilk_mq" where
  "empty_mq fd = \<lparr>queue = [], topics = [], global_middlewares = [], global_mw_capacity = 0, wal_fd = fd,
     published_total = 0, delivered_total = 0, queue_depth = 0, monitors = [], monitor_capacity = 0\<rparr>"



lemma le_bytes_4: "le_bytes 4 v = [char_of (v mod 256), char_of (v div 256 mod 256),
    char_of (v div 256 div 256 mod 256), char_of (v div 256 div 256 div 256 mod 256)]"
proof -
  have "(4 :: nat) = Suc (Suc (Suc (Suc 0)))" by simp
  then show ?thesis by (simp only: le_bytes.simps)
qed

lemmas wal_eval = le_bytes_4 read_frame_def read_rest_def read_payload_def fs_read_def le_load_def wal_checksum_def xor_bytes_def
  wal_frame_def frame_rest_def frame_body_def byte_def Let_def


text \<open>
  A message published with a length but a NULL payload makes the writer store a length without the
  bytes: recovery stops there and every later message of the log is lost.
\<close>

lemma wal_null_payload_hides_log:
  "queue (fst (recovery_loop (\<lambda>_. False) (fst (write_frame [] hello (fst (write_frame []
      \<lparr>w_fd = 3, w_topic = ''a'', w_payload = None, w_len = 5\<rparr> [])))) [] 0 (empty_mq 3))) = []"
proof -
  have v: "valid_task hello" by (simp add: hello_def valid_task_def)
  have fr: "fst (write_frame [] hello f) = f @ [CHR 0x01, NUL, NUL, NUL, CHR ''a'', NUL, NUL, NUL, NUL, CHR ''a'', NUL, NUL, NUL]" for f
    unfolding write_frame_complete[OF v] by (simp add: wal_eval hello_def char_of_def bit_Suc_0_iff)
  have "fst (write_frame [] \<lparr>w_fd = 3, w_topic = ''a'', w_payload = None, w_len = 5\<rparr> [])
      = [CHR 0x01, NUL, NUL, NUL, CHR ''a'', CHR 0x05, NUL, NUL, NUL, CHR ''a'', NUL, NUL, NUL]"
    by (simp add: write_frame_def write_bytes_def wal_eval u32_len_def char_of_def bit_Suc_0_iff)
  then show ?thesis
    unfolding fr by (subst recovery_loop.simps) (simp add: wal_eval empty_mq_def)
qed

text \<open>
  A batch with messages of two logs syncs only the log of the last one: after a completed flush the
  message of the other log can still be lost.
\<close>

lemma wal_flush_misses_other_log:
  "\<exists>s. wal_run wal_empty [Accept hello, Accept (hello\<lparr>w_fd := 4\<rparr>), Drain, Write, Write, Sync] s
     \<and> wal_flushed s \<and> crash_image s 3 [] \<and> wal_files s 3 \<noteq> []"
proof -
  have v: "valid_task hello" by (simp add: hello_def valid_task_def)
  let ?t = "hello\<lparr>w_fd := 4\<rparr>"
  note snoc = wal_run.wal_snoc
  let ?s1 = "wal_empty\<lparr>wal_queue := wal_queue wal_empty @ [hello]\<rparr>"
  note r = snoc[OF wal_run.wal_Nil wal_step.wal_accept[of wal_empty hello]]
  let ?s2 = "?s1\<lparr>wal_queue := wal_queue ?s1 @ [?t]\<rparr>"
  note r = snoc[OF r wal_step.wal_accept[of ?s1 ?t]]
  let ?s3 = "?s2\<lparr>wal_batch := wal_queue ?s2, wal_queue := [], wal_writing := True, wal_last_fd := - 1\<rparr>"
  have "wal_step ?s2 Drain ?s3" by (rule wal_step.wal_drain) (simp_all add: wal_empty_def)
  note r = snoc[OF r this]
  let ?s4 = "?s3\<lparr>wal_batch := [?t], wal_last_fd := w_fd hello,
      wal_files := (wal_files ?s3)(w_fd hello := fst (write_frame [] hello (wal_files ?s3 (w_fd hello))))\<rparr>"
  have "wal_step ?s3 Write ?s4" by (rule wal_step.wal_write) (simp_all add: wal_empty_def)
  note r = snoc[OF r this]
  let ?s5 = "?s4\<lparr>wal_batch := [], wal_last_fd := w_fd ?t,
      wal_files := (wal_files ?s4)(w_fd ?t := fst (write_frame [] ?t (wal_files ?s4 (w_fd ?t))))\<rparr>"
  have "wal_step ?s4 Write ?s5" by (rule wal_step.wal_write) (simp_all add: wal_empty_def)
  note r = snoc[OF r this]
  let ?s6 = "?s5\<lparr>wal_writing := False, wal_synced := (if wal_last_fd ?s5 \<ge> 0
      then (wal_synced ?s5)(wal_last_fd ?s5 := length (wal_files ?s5 (wal_last_fd ?s5))) else wal_synced ?s5)\<rparr>"
  have "wal_step ?s5 Sync ?s6" by (rule wal_step.wal_sync) simp_all
  note r = snoc[OF r this]
  have "wal_flushed ?s6" by (simp add: wal_flushed_def)
  moreover have "crash_image ?s6 3 []" unfolding crash_image_def by (intro exI[of _ 0]) (simp add: wal_empty_def)
  moreover have "wal_files ?s6 3 \<noteq> []"
    using write_frame_complete[OF v] by (simp add: wal_empty_def hello_def wal_frame_def le_bytes_4)
  ultimately show ?thesis using r by (intro exI[of _ ?s6]) simp
qed

end
