(* ===== verification/Client_List.thy ===== *)
theory Client_List
  imports Csilk_Prelude
begin

text \<open>
  The doubly linked list of the active clients of a worker (\<open>core/server/connection_close.c\<close>):
  the links are fields of the clients, so that the list is a store of links addressed by client, and
  the walk of \<open>close_active_clients\<close> over it at shutdown (\<open>core/server/server_shutdown.c\<close>).
  The functions refine insertion at the head of a list and removal from it.
\<close>

record client_links =
  active_clients :: "nat option"
  next_of :: "nat \<Rightarrow> nat option"
  prev_of :: "nat \<Rightarrow> nat option"

definition client_list_add :: "nat \<Rightarrow> client_links \<Rightarrow> client_links" where
  "client_list_add client wp =
     (let wp = wp\<lparr>next_of := (next_of wp)(client := active_clients wp)\<rparr>;
          wp = wp\<lparr>prev_of := (prev_of wp)(client := None)\<rparr>;
          wp = (case active_clients wp of
                  None \<Rightarrow> wp
                | Some h \<Rightarrow> wp\<lparr>prev_of := (prev_of wp)(h := Some client)\<rparr>)
      in wp\<lparr>active_clients := Some client\<rparr>)"

definition client_list_remove :: "nat \<Rightarrow> client_links \<Rightarrow> client_links" where
  "client_list_remove client wp =
     (let wp = (case prev_of wp client of
                  Some p \<Rightarrow> wp\<lparr>next_of := (next_of wp)(p := next_of wp client)\<rparr>
                | None \<Rightarrow>
                    (if active_clients wp = Some client then wp\<lparr>active_clients := next_of wp client\<rparr> else wp));
          wp = (case next_of wp client of
                  Some n \<Rightarrow> wp\<lparr>prev_of := (prev_of wp)(n := prev_of wp client)\<rparr>
                | None \<Rightarrow> wp)
      in wp\<lparr>next_of := (next_of wp)(client := None), prev_of := (prev_of wp)(client := None)\<rparr>)"

text \<open>The walk along the next links from a client; the links may form a cycle, so the walk may not end.\<close>

partial_function (option) walk :: "client_links \<Rightarrow> nat option \<Rightarrow> nat list option" where
  "walk wp client =
     (case client of
        None \<Rightarrow> Some []
      | Some c \<Rightarrow> Option.bind (walk wp (next_of wp c)) (\<lambda>cs. Some (c # cs)))"

text \<open>The links of a segment whose first client has the previous link \<open>p\<close> and whose last the next link \<open>n\<close>.\<close>

fun linked :: "client_links \<Rightarrow> nat option \<Rightarrow> nat list \<Rightarrow> nat option \<Rightarrow> bool" where
  "linked wp p [] n = True"
| "linked wp p (c # cs) n =
     (prev_of wp c = p \<and> next_of wp c = (case cs of [] \<Rightarrow> n | d # _ \<Rightarrow> Some d) \<and> linked wp (Some c) cs n)"

definition first_of :: "nat list \<Rightarrow> nat option \<Rightarrow> nat option" where
  "first_of cs n = (case cs of [] \<Rightarrow> n | c # _ \<Rightarrow> Some c)"

definition last_of :: "nat option \<Rightarrow> nat list \<Rightarrow> nat option" where
  "last_of p cs = (if cs = [] then p else Some (last cs))"

lemma linked_append:
  "linked wp p (as @ bs) n \<longleftrightarrow> linked wp p as (first_of bs n) \<and> linked wp (last_of p as) bs n"
proof (induction as arbitrary: p)
  case (Cons a as)
  then show ?case by (cases as; cases bs) (auto simp: first_of_def last_of_def)
qed (simp add: last_of_def)

lemma linked_cong:
  assumes "\<And>c. c \<in> set cs \<Longrightarrow> next_of wp' c = next_of wp c \<and> prev_of wp' c = prev_of wp c"
  shows "linked wp' p cs n = linked wp p cs n"
  using assms by (induction cs arbitrary: p) auto

text \<open>The clients in the list, in its order.\<close>

definition holds_clients :: "client_links \<Rightarrow> nat list \<Rightarrow> bool" where
  "holds_clients wp cs \<longleftrightarrow> distinct cs \<and> active_clients wp = first_of cs None \<and> linked wp None cs None"

lemma holds_clients_add:
  assumes "holds_clients wp cs" "client \<notin> set cs"
  shows "holds_clients (client_list_add client wp) (client # cs)"
proof (cases cs)
  case Nil
  with assms show ?thesis by (simp add: holds_clients_def client_list_add_def first_of_def Let_def)
next
  case (Cons d ds)
  let ?wp = "client_list_add client wp"
  have "linked ?wp (Some d) ds None = linked wp (Some d) ds None"
    using assms Cons by (intro linked_cong) (auto simp: client_list_add_def Let_def holds_clients_def first_of_def)
  then show ?thesis
    using assms Cons by (auto simp: holds_clients_def client_list_add_def first_of_def Let_def)
qed

text \<open>Changing the next link of the last client of a segment, and the previous link of the first.\<close>

lemma linked_set_next:
  assumes "linked wp p cs n" "distinct cs" "cs \<noteq> []"
    "\<And>c. c \<in> set cs \<Longrightarrow> prev_of wp' c = prev_of wp c"
    "\<And>c. c \<in> set (butlast cs) \<Longrightarrow> next_of wp' c = next_of wp c" "next_of wp' (last cs) = n'"
  shows "linked wp' p cs n'"
  using assms
proof (induction cs arbitrary: p)
  case (Cons c cs)
  then show ?case by (cases cs) auto
qed simp

lemma linked_set_prev:
  assumes "linked wp p (c # cs) n" "distinct (c # cs)"
    "\<And>d. d \<in> set (c # cs) \<Longrightarrow> next_of wp' d = next_of wp d"
    "\<And>d. d \<in> set cs \<Longrightarrow> prev_of wp' d = prev_of wp d" "prev_of wp' c = p'"
  shows "linked wp' p' (c # cs) n"
proof -
  have "linked wp' (Some c) cs n = linked wp (Some c) cs n" using assms by (intro linked_cong) auto
  with assms show ?thesis by auto
qed

lemma remove_links:
  assumes "linked wp None (as @ client # bs) None" "distinct (as @ client # bs)" "active_clients wp = first_of (as @ client # bs) None"
  defines "wp' \<equiv> client_list_remove client wp"
  shows "active_clients wp' = first_of (as @ bs) None"
    "\<And>c. next_of wp' c = (if c = client then None else if as \<noteq> [] \<and> c = last as then first_of bs None else next_of wp c)"
    "\<And>c. prev_of wp' c = (if c = client then None else if bs \<noteq> [] \<and> c = hd bs then last_of None as else prev_of wp c)"
proof -
  have links: "next_of wp client = first_of bs None" "prev_of wp client = last_of None as"
    using assms(1) by (auto simp: linked_append first_of_def split: list.splits)
  have ne: "as \<noteq> [] \<Longrightarrow> last as \<noteq> client" "bs \<noteq> [] \<Longrightarrow> hd bs \<noteq> client"
    using assms(2) last_in_set [of as] hd_in_set [of bs] by auto
  show "active_clients wp' = first_of (as @ bs) None"
    using links assms(3)
    by (cases as; cases bs) (auto simp: wp'_def client_list_remove_def Let_def first_of_def last_of_def)
  show "next_of wp' c = (if c = client then None else if as \<noteq> [] \<and> c = last as then first_of bs None else next_of wp c)" for c
    using links ne assms(3)
    by (cases "as = []"; cases bs) (auto simp: wp'_def client_list_remove_def Let_def first_of_def last_of_def)
  show "prev_of wp' c = (if c = client then None else if bs \<noteq> [] \<and> c = hd bs then last_of None as else prev_of wp c)" for c
    using links ne assms(3)
    by (cases "as = []"; cases bs) (auto simp: wp'_def client_list_remove_def Let_def first_of_def last_of_def)
qed

lemma holds_clients_remove:
  assumes "holds_clients wp (as @ client # bs)"
  shows "holds_clients (client_list_remove client wp) (as @ bs)"
proof -
  let ?wp = "client_list_remove client wp"
  have l: "linked wp None (as @ client # bs) None" and d: "distinct (as @ client # bs)"
    and a: "active_clients wp = first_of (as @ client # bs) None"
    using assms by (auto simp: holds_clients_def)
  note r = remove_links [OF l d a]
  have l2: "linked wp None as (Some client)" "linked wp (Some client) bs None"
    using l by (auto simp: linked_append first_of_def)
  have "linked ?wp None as (first_of bs None)"
  proof (cases as rule: rev_cases)
    case (snoc as' z)
    then show ?thesis using d r by (intro linked_set_next [OF l2(1)]) auto
  qed simp
  moreover have "linked ?wp (last_of None as) bs None"
  proof (cases bs)
    case (Cons b bs')
    have "last as \<notin> set bs" if "as \<noteq> []" using d last_in_set [OF that] by auto
    then have "linked ?wp (last_of None as) (b # bs') None"
      using d r Cons by (intro linked_set_prev [OF l2(2) [unfolded Cons]]) auto
    then show ?thesis using Cons by simp
  qed simp
  ultimately show ?thesis using d r(1) by (simp add: holds_clients_def linked_append)
qed

text \<open>The walk sees exactly the clients of the list, and ends.\<close>

lemma walk_linked:
  assumes "linked wp p cs None"
  shows "walk wp (first_of cs None) = Some cs"
  using assms
proof (induction cs arbitrary: p)
  case Nil
  show ?case by (subst walk.simps) (simp add: first_of_def)
next
  case (Cons c cs)
  then have "walk wp (next_of wp c) = Some cs" by (auto simp: first_of_def)
  then show ?case by (subst walk.simps) (simp add: first_of_def)
qed

text \<open>A sequence of insertions (of clients that are not in the list) and removals.\<close>

datatype list_op = Add nat | Remove nat

fun apply_ops :: "list_op list \<Rightarrow> client_links \<Rightarrow> client_links" where
  "apply_ops [] wp = wp"
| "apply_ops (Add c # ops) wp = apply_ops ops (client_list_add c wp)"
| "apply_ops (Remove c # ops) wp = apply_ops ops (client_list_remove c wp)"

fun spec_ops :: "list_op list \<Rightarrow> nat list \<Rightarrow> nat list option" where
  "spec_ops [] cs = Some cs"
| "spec_ops (Add c # ops) cs = (if c \<in> set cs then None else spec_ops ops (c # cs))"
| "spec_ops (Remove c # ops) cs = (if c \<in> set cs then spec_ops ops (remove1 c cs) else None)"

definition no_clients :: client_links where
  "no_clients = \<lparr>active_clients = None, next_of = \<lambda>_. None, prev_of = \<lambda>_. None\<rparr>"

lemma apply_ops_refines:
  assumes "holds_clients wp cs" "spec_ops ops cs = Some cs'"
  shows "holds_clients (apply_ops ops wp) cs'"
  using assms
proof (induction ops wp arbitrary: cs rule: apply_ops.induct)
  case (2 c ops wp)
  then show ?case using holds_clients_add [of wp cs c] by (auto split: if_splits)
next
  case (3 c ops wp)
  then have c: "c \<in> set cs" "spec_ops ops (remove1 c cs) = Some cs'" by (auto split: if_splits)
  then obtain as bs where cs: "cs = as @ c # bs" "c \<notin> set as" by (meson split_list_first)
  then have "remove1 c cs = as @ bs" by (simp add: remove1_append)
  moreover have "holds_clients (client_list_remove c wp) (as @ bs)"
    using "3.prems"(1) cs holds_clients_remove by simp
  ultimately show ?case using "3.IH" c(2) by simp
qed simp

text \<open>
  C37. The list of active clients is a list: after any sequence of insertions of clients that are
  not in the list and removals of clients that are, from the empty list on, the walk that the
  shutdown makes along the links ends and sees exactly the clients that were inserted and not
  removed, the latest first, each of them once.
\<close>
theorem client_list_refines:
  assumes "spec_ops ops [] = Some cs"
  shows "walk (apply_ops ops no_clients) (active_clients (apply_ops ops no_clients)) = Some cs \<and> distinct cs"
proof -
  have "holds_clients no_clients []" by (simp add: holds_clients_def no_clients_def first_of_def)
  from apply_ops_refines [OF this assms] show ?thesis by (auto simp: holds_clients_def walk_linked)
qed

theorem client_list_refines_witness:
  "walk (apply_ops [Add 1, Add 2, Add 3, Remove 2] no_clients)
     (active_clients (apply_ops [Add 1, Add 2, Add 3, Remove 2] no_clients)) = Some [3, 1]"
  using client_list_refines [of "[Add 1, Add 2, Add 3, Remove 2]" "[3, 1]"] by simp

end
