(* ===== verification/Conn_State.thy ===== *)
theory Conn_State
  imports Csilk_Prelude
begin

text \<open>
  The life-cycle states of a connection (\<open>core/internal/srv_internal.h\<close>) and the transition
  matrix of \<open>core/server/connection_state.c\<close>. Every request of a state that the matrix does not
  allow is ignored; the trace of the states that a sequence of requests really visits is what the
  lemmas speak about.
\<close>

datatype csilk_conn_state =
    CONN_INIT | CONN_ACCEPTED | CONN_TLS | CONN_READING | CONN_PROCESSING | CONN_WRITING
  | CONN_STREAMING | CONN_CLOSING | CONN_CLOSED

fun allowed_transitions :: "csilk_conn_state \<Rightarrow> csilk_conn_state \<Rightarrow> bool" where
  "allowed_transitions CONN_INIT to = (to \<in> {CONN_INIT, CONN_ACCEPTED, CONN_CLOSING, CONN_CLOSED})"
| "allowed_transitions CONN_ACCEPTED to =
     (to \<in> {CONN_ACCEPTED, CONN_TLS, CONN_READING, CONN_CLOSING, CONN_CLOSED})"
| "allowed_transitions CONN_TLS to = (to \<in> {CONN_TLS, CONN_READING, CONN_CLOSING, CONN_CLOSED})"
| "allowed_transitions CONN_READING to =
     (to \<in> {CONN_READING, CONN_PROCESSING, CONN_STREAMING, CONN_CLOSING, CONN_CLOSED})"
| "allowed_transitions CONN_PROCESSING to =
     (to \<in> {CONN_PROCESSING, CONN_WRITING, CONN_STREAMING, CONN_CLOSING, CONN_CLOSED})"
| "allowed_transitions CONN_WRITING to =
     (to \<in> {CONN_READING, CONN_WRITING, CONN_STREAMING, CONN_CLOSING, CONN_CLOSED})"
| "allowed_transitions CONN_STREAMING to =
     (to \<in> {CONN_READING, CONN_WRITING, CONN_STREAMING, CONN_CLOSING, CONN_CLOSED})"
| "allowed_transitions CONN_CLOSING to = (to \<in> {CONN_CLOSING, CONN_CLOSED})"
| "allowed_transitions CONN_CLOSED to = (to \<in> {CONN_INIT, CONN_CLOSED})"

text \<open>
  An argument of the C enumeration type can hold any integer: \<open>conn_state_of\<close> reads the enumerators
  back, and the bounds check of \<open>csilk_conn_is_valid_transition\<close> rejects the others.
\<close>

definition conn_states :: "csilk_conn_state list" where
  "conn_states = [CONN_INIT, CONN_ACCEPTED, CONN_TLS, CONN_READING, CONN_PROCESSING, CONN_WRITING,
     CONN_STREAMING, CONN_CLOSING, CONN_CLOSED]"

definition csilk_conn_is_valid_transition :: "int \<Rightarrow> int \<Rightarrow> bool" where
  "csilk_conn_is_valid_transition from to \<longleftrightarrow>
     \<not> (from < 0 \<or> int (length conn_states) \<le> from \<or> to < 0 \<or> int (length conn_states) \<le> to) \<and>
     allowed_transitions (conn_states ! nat from) (conn_states ! nat to)"

fun csilk_conn_state_str :: "csilk_conn_state \<Rightarrow> string" where
  "csilk_conn_state_str CONN_INIT = ''INIT''"
| "csilk_conn_state_str CONN_ACCEPTED = ''ACCEPTED''"
| "csilk_conn_state_str CONN_TLS = ''TLS''"
| "csilk_conn_state_str CONN_READING = ''READING''"
| "csilk_conn_state_str CONN_PROCESSING = ''PROCESSING''"
| "csilk_conn_state_str CONN_WRITING = ''WRITING''"
| "csilk_conn_state_str CONN_STREAMING = ''STREAMING''"
| "csilk_conn_state_str CONN_CLOSING = ''CLOSING''"
| "csilk_conn_state_str CONN_CLOSED = ''CLOSED''"

text \<open>The state after \<open>csilk_conn_set_state\<close> requested \<open>new_state\<close> in \<open>old_state\<close>.\<close>

definition csilk_conn_set_state :: "csilk_conn_state \<Rightarrow> csilk_conn_state \<Rightarrow> csilk_conn_state" where
  "csilk_conn_set_state old_state new_state =
     (if old_state = new_state then old_state
      else if \<not> allowed_transitions old_state new_state then old_state
      else new_state)"

lemma csilk_conn_set_state_self [simp]: "csilk_conn_set_state s s = s"
  by (simp add: csilk_conn_set_state_def)

lemma csilk_conn_set_state_closing:
  "csilk_conn_set_state s CONN_CLOSING = (if s = CONN_CLOSED then CONN_CLOSED else CONN_CLOSING)"
  by (cases s) (simp_all add: csilk_conn_set_state_def)

lemma set_state_stays_closing:
  "csilk_conn_set_state CONN_CLOSING to = (if to = CONN_CLOSED then CONN_CLOSED else CONN_CLOSING)"
  by (simp add: csilk_conn_set_state_def)

text \<open>The states visited by a sequence of requests, the start included.\<close>

fun visited :: "csilk_conn_state \<Rightarrow> csilk_conn_state list \<Rightarrow> csilk_conn_state list" where
  "visited s [] = [s]"
| "visited s (r # rs) = s # visited (csilk_conn_set_state s r) rs"

text \<open>
  What each state presupposes: a connection writes or streams only after it read, reads only after
  it was accepted, and is back in the initial state only after it was closed.
\<close>

fun presupposed :: "csilk_conn_state \<Rightarrow> csilk_conn_state list" where
  "presupposed CONN_TLS = [CONN_ACCEPTED]"
| "presupposed CONN_READING = [CONN_ACCEPTED]"
| "presupposed CONN_PROCESSING = [CONN_ACCEPTED, CONN_READING]"
| "presupposed CONN_WRITING = [CONN_ACCEPTED, CONN_READING]"
| "presupposed CONN_STREAMING = [CONN_ACCEPTED, CONN_READING]"
| "presupposed _ = []"

text \<open>The history since the last visit of the initial state.\<close>

fun since_init :: "csilk_conn_state list \<Rightarrow> csilk_conn_state list \<Rightarrow> csilk_conn_state list" where
  "since_init acc [] = acc"
| "since_init acc (s # ss) = since_init (if s = CONN_INIT then [s] else acc @ [s]) ss"

lemma presupposed_step:
  assumes "set (presupposed s) \<subseteq> set h" "s \<in> set h" "csilk_conn_set_state s r \<noteq> CONN_INIT"
  shows "set (presupposed (csilk_conn_set_state s r)) \<subseteq> set (h @ [csilk_conn_set_state s r])"
  using assms by (cases s; cases r) (auto simp: csilk_conn_set_state_def)

lemma since_init_visited:
  assumes "set (presupposed s) \<subseteq> set (since_init h [s])"
  shows "set (presupposed (last (visited s rs))) \<subseteq> set (since_init h (visited s rs))"
  using assms
proof (induction rs arbitrary: s h)
  case (Cons r rs)
  let ?s = "csilk_conn_set_state s r" and ?h = "since_init h [s]"
  have "s \<in> set ?h" by simp
  then have "set (presupposed ?s) \<subseteq> set (since_init ?h [?s])"
    using presupposed_step [OF Cons.prems, of r] by (cases "?s = CONN_INIT") auto
  from Cons.IH [OF this] show ?case by (cases rs) simp_all
qed simp

lemma closing_until_init:
  assumes "s = CONN_CLOSING \<or> s = CONN_CLOSED"
  shows "set (takeWhile (\<lambda>s. s \<noteq> CONN_INIT) (visited s rs)) \<subseteq> {CONN_CLOSING, CONN_CLOSED}"
  using assms
proof (induction rs arbitrary: s)
  case (Cons r rs)
  from Cons.prems have "csilk_conn_set_state s r \<in> {CONN_CLOSING, CONN_CLOSED, CONN_INIT}"
    by (cases r) (auto simp: csilk_conn_set_state_def)
  then consider "csilk_conn_set_state s r = CONN_INIT"
    | "csilk_conn_set_state s r = CONN_CLOSING \<or> csilk_conn_set_state s r = CONN_CLOSED" by blast
  then show ?case
  proof cases
    case 1
    then show ?thesis using Cons.prems by (cases rs) auto
  next
    case 2
    from Cons.IH [OF this] Cons.prems show ?thesis by auto
  qed
qed auto

text \<open>
  C35. Whatever states are requested in whatever order from a fresh connection, the state reached
  presupposes what it should in the present life of the connection object: a connection writes,
  streams or processes only after it was accepted and read, reads only after it was accepted. From
  the moment it is closing it is closing or closed until it is back in the initial state.
\<close>
theorem conn_state_order:
  "set (presupposed (last (visited CONN_INIT rs))) \<subseteq> set (since_init [] (visited CONN_INIT rs)) \<and>
   set (takeWhile (\<lambda>s. s \<noteq> CONN_INIT) (visited CONN_CLOSING rs)) \<subseteq> {CONN_CLOSING, CONN_CLOSED}"
  using since_init_visited [of CONN_INIT "[]" rs] closing_until_init [of CONN_CLOSING rs] by simp

end
