(* ===== verification/Conn_Life.thy ===== *)
theory Conn_Life
  imports Conn_State
begin

text \<open>
  The life time of a connection object: reference count, outstanding I/O, timers, close callback,
  recycling into the worker's pool (\<open>core/server/connection_close.c\<close>, \<open>connection_pool.c\<close>,
  \<open>timer_lifetime.c\<close>, \<open>connection_timer.c\<close>, \<open>connection_io.c\<close>, \<open>server_worker.c\<close>), as functions on
  one client object, and as a transition system in which handlers, writes, timers and foreign
  threads use the object in any order. Undefined behaviour (an access to freed memory, closing a
  handle that was never initialised) is \<open>None\<close>.
\<close>

section \<open>The client object\<close>

text \<open>An I/O handle of the event loop: not initialised, active, or closing (or closed).\<close>

datatype handle = H_NONE | H_ACTIVE | H_CLOSING

text \<open>Where the object is: serving a connection, in the free list of its worker, or freed.\<close>

datatype place = In_Use | In_Pool | Freed

text \<open>
  \<open>close_cb\<close> tells that the event loop has \<open>on_close\<close> still to call for the TCP handle;
  \<open>slots\<close> is what this object contributes to \<open>server->active_connections\<close>, \<open>wp_active\<close> what it
  contributes to the counter of the worker.
\<close>

record csilk_client =
  conn :: csilk_conn_state
  ref_count :: int
  pending_io :: int
  generation :: u64
  tcp :: handle
  close_cb :: bool
  timers :: "handle list"
  in_list :: bool
  has_owner :: bool
  conn_closed :: bool
  place :: place
  slots :: int
  wp_active :: int

definition client_alloc :: csilk_client where
  "client_alloc = \<lparr>conn = CONN_INIT, ref_count = 0, pending_io = 0, generation = 0, tcp = H_NONE,
     close_cb = False, timers = replicate 4 H_NONE, in_list = False, has_owner = False,
     conn_closed = False, place = In_Pool, slots = 0, wp_active = 0\<rparr>"

definition set_conn :: "csilk_conn_state \<Rightarrow> 'a csilk_client_scheme \<Rightarrow> 'a csilk_client_scheme"
  where "set_conn s c = c\<lparr>conn := csilk_conn_set_state (conn c) s\<rparr>"

section \<open>The pool\<close>

definition pool_get :: "'a csilk_client_scheme \<Rightarrow> 'a csilk_client_scheme" where
  "pool_get c =
     (let gen = generation c + 1;
          gen = (if gen = 0 then 1 else gen);
          c = set_conn CONN_INIT (c\<lparr>place := In_Use, wp_active := wp_active c + 1\<rparr>)
      in c\<lparr>generation := gen, ref_count := 0, pending_io := 0, conn_closed := False\<rparr>)"

definition reset_hot_state :: "'a csilk_client_scheme \<Rightarrow> 'a csilk_client_scheme" where
  "reset_hot_state c =
     (set_conn CONN_INIT c)\<lparr>ref_count := 0, pending_io := 0, has_owner := False, conn_closed := False\<rparr>"

text \<open>\<open>room\<close>: the free list of the worker holds fewer than \<open>CSILK_CLIENT_POOL_SIZE\<close> objects.\<close>

definition pool_put :: "bool \<Rightarrow> 'a csilk_client_scheme \<Rightarrow> 'a csilk_client_scheme" where
  "pool_put room c =
     (let c = c\<lparr>wp_active := wp_active c - 1\<rparr>;
          c = reset_hot_state c
      in if room then c\<lparr>place := In_Pool\<rparr> else c\<lparr>place := Freed\<rparr>)"

section \<open>References and outstanding I/O\<close>

definition client_destroy :: "bool \<Rightarrow> 'a csilk_client_scheme \<Rightarrow> 'a csilk_client_scheme" where
  "client_destroy room c =
     (if conn c \<noteq> CONN_CLOSING then c
      else let c = c\<lparr>conn := CONN_CLOSED\<rparr>;
               c = c\<lparr>slots := slots c - 1\<rparr>
           in pool_put room c)"

text \<open>The branch of \<open>_csilk_client_check_recycle\<close> that the owning worker takes.\<close>

definition client_check_recycle :: "bool \<Rightarrow> 'a csilk_client_scheme \<Rightarrow> 'a csilk_client_scheme" where
  "client_check_recycle room c =
     (if conn c \<noteq> CONN_CLOSING \<and> conn c \<noteq> CONN_CLOSED then c
      else if ref_count c \<le> 0 \<and> pending_io c \<le> 0 then client_destroy room c
      else c)"

definition csilk_client_ref :: "'a csilk_client_scheme \<Rightarrow> 'a csilk_client_scheme" where
  "csilk_client_ref c = c\<lparr>ref_count := ref_count c + 1\<rparr>"

text \<open>The decrement of \<open>csilk_client_unref\<close>, and whether the check for recycling follows.\<close>

definition ref_sub :: "'a csilk_client_scheme \<Rightarrow> 'a csilk_client_scheme \<times> bool" where
  "ref_sub c =
     (let prev = ref_count c;
          c = c\<lparr>ref_count := prev - 1\<rparr>
      in if prev \<le> 0 then (c\<lparr>ref_count := 0\<rparr>, False)
         else (c, prev - 1 = 0))"

definition csilk_client_unref :: "bool \<Rightarrow> 'a csilk_client_scheme \<Rightarrow> 'a csilk_client_scheme" where
  "csilk_client_unref room c =
     (case ref_sub c of (c, check) \<Rightarrow> if check then client_check_recycle room c else c)"

definition client_pending_io_inc :: "'a csilk_client_scheme \<Rightarrow> 'a csilk_client_scheme" where
  "client_pending_io_inc c = c\<lparr>pending_io := pending_io c + 1\<rparr>"

definition client_pending_io_dec :: "bool \<Rightarrow> 'a csilk_client_scheme \<Rightarrow> 'a csilk_client_scheme" where
  "client_pending_io_dec room c =
     (let prev = pending_io c;
          c = c\<lparr>pending_io := prev - 1\<rparr>
      in if prev \<le> 0 then c\<lparr>pending_io := 0\<rparr>
         else if prev - 1 = 0 then client_check_recycle room c
         else c)"

section \<open>Timers and closing\<close>

text \<open>
  The loop of \<open>_csilk_client_stop_timers\<close> over the handles not visited yet; closing a handle that
  was never initialised is undefined in the event library.
\<close>

fun stop_timers_loop :: "handle list \<Rightarrow> 'a csilk_client_scheme \<Rightarrow> (handle list \<times> 'a csilk_client_scheme) option"
where
  "stop_timers_loop [] c = Some ([], c)"
| "stop_timers_loop (h # hs) c =
     (case h of
        H_NONE \<Rightarrow> None
      | H_ACTIVE \<Rightarrow>
          (case stop_timers_loop hs (client_pending_io_inc c) of
             None \<Rightarrow> None
           | Some (hs', c') \<Rightarrow> Some (H_CLOSING # hs', c'))
      | H_CLOSING \<Rightarrow>
          (case stop_timers_loop hs c of
             None \<Rightarrow> None
           | Some (hs', c') \<Rightarrow> Some (h # hs', c')))"

definition client_stop_timers :: "'a csilk_client_scheme \<Rightarrow> 'a csilk_client_scheme option" where
  "client_stop_timers c =
     (case stop_timers_loop (timers c) c of
        None \<Rightarrow> None
      | Some (hs, c) \<Rightarrow> Some (c\<lparr>timers := hs\<rparr>))"

text \<open>\<open>on_close\<close> on the owning worker, as the event loop calls it for the TCP handle.\<close>

definition on_close :: "bool \<Rightarrow> 'a csilk_client_scheme \<Rightarrow> 'a csilk_client_scheme option" where
  "on_close room c =
     (if conn c = CONN_CLOSING \<or> conn c = CONN_CLOSED then Some c
      else let c = set_conn CONN_CLOSING c;
               c = c\<lparr>in_list := False\<rparr>;
               c = c\<lparr>conn_closed := True\<rparr>
           in case client_stop_timers c of
                None \<Rightarrow> None
              | Some c \<Rightarrow> Some (csilk_client_unref room c))"

definition on_timer_close :: "bool \<Rightarrow> 'a csilk_client_scheme \<Rightarrow> 'a csilk_client_scheme" where
  "on_timer_close room c = client_pending_io_dec room c"

text \<open>
  Closing the TCP handle: \<open>io_close\<close> marks the handle, and the callback is called later (in the
  libuv back end by the event loop; in the io_uring back end at once, which is the order of events
  in which the callback follows directly). The time-outs and the read errors close with \<open>on_close\<close>
  unless the handle is closing already, the close echo of \<open>csilk_ws_parse_frame\<close> without a callback.
\<close>

definition io_close :: "bool \<Rightarrow> 'a csilk_client_scheme \<Rightarrow> 'a csilk_client_scheme" where
  "io_close with_on_close c = c\<lparr>tcp := H_CLOSING, close_cb := with_on_close\<rparr>"

definition on_idle_timeout :: "'a csilk_client_scheme \<Rightarrow> 'a csilk_client_scheme" where
  "on_idle_timeout c = (if tcp c \<noteq> H_CLOSING then io_close True c else c)"

definition ws_close_echo :: "'a csilk_client_scheme \<Rightarrow> 'a csilk_client_scheme" where
  "ws_close_echo c = (if tcp c \<noteq> H_CLOSING then io_close False c else c)"

text \<open>
  The end of \<open>_csilk_handle_post_response\<close> for a response after which the connection is closed,
  and \<open>csilk_sse_close\<close>: both request the state \<open>CONN_CLOSING\<close> and then close the handle.
\<close>

definition close_after_response :: "'a csilk_client_scheme \<Rightarrow> 'a csilk_client_scheme" where
  "close_after_response c =
     (let c = set_conn CONN_CLOSING c
      in if tcp c \<noteq> H_CLOSING then io_close True c else c)"

definition csilk_sse_close :: "'a csilk_client_scheme \<Rightarrow> 'a csilk_client_scheme" where
  "csilk_sse_close c =
     (let c = set_conn CONN_CLOSING c
      in if tcp c \<noteq> H_CLOSING then io_close True c else c)"

section \<open>Accepting a connection\<close>

text \<open>
  \<open>on_new_connection\<close> after the slot was acquired and an object was found. The outcomes of the
  calls into the event library and of the TLS set-up are the argument.
\<close>

datatype accept_result = Tcp_Init_Fails | Accept_Fails | Tls_Fails | Plain_Ok | Tls_Ok

definition init_timers :: "'a csilk_client_scheme \<Rightarrow> 'a csilk_client_scheme" where
  "init_timers c = c\<lparr>timers := replicate 4 H_ACTIVE\<rparr>"

definition accept_client :: "bool \<Rightarrow> accept_result \<Rightarrow> 'a csilk_client_scheme \<Rightarrow> 'a csilk_client_scheme" where
  "accept_client room r c =
     (let c = pool_get (c\<lparr>slots := slots c + 1\<rparr>);
          c = c\<lparr>has_owner := True\<rparr>
      in if r = Tcp_Init_Fails then pool_put room (c\<lparr>slots := slots c - 1\<rparr>)
         else let c = c\<lparr>tcp := H_ACTIVE, close_cb := False\<rparr>;
                  c = c\<lparr>in_list := True\<rparr>
         in if r = Accept_Fails
            then pool_put room ((c\<lparr>in_list := False\<rparr>)\<lparr>slots := slots c - 1\<rparr>)
            else let c = csilk_client_ref (set_conn CONN_ACCEPTED c)
            in case r of
                 Tls_Fails \<Rightarrow> io_close True (set_conn CONN_TLS c)
               | Tls_Ok \<Rightarrow> init_timers (set_conn CONN_TLS c)
               | _ \<Rightarrow> set_conn CONN_READING (init_timers c))"

section \<open>Everybody who uses the object\<close>

text \<open>
  Tasks in the dispatch queue of the owning worker: a recycling request with the generation it was
  made for, \<open>_csilk_on_close_owner\<close> with its generation, and any other callback. The last two
  hold a reference to the object, which \<open>_csilk_worker_drain_dispatch\<close> releases after the callback.
\<close>

datatype dispatch_task = T_Recycle u64 | T_Close u64 | T_Call

fun holds_client :: "dispatch_task \<Rightarrow> bool" where
  "holds_client (T_Recycle _) = False"
| "holds_client (T_Close _) = True"
| "holds_client T_Call = True"

text \<open>
  \<open>leases\<close>: references held by handlers and by other threads; \<open>writes\<close>: writes in flight, each of
  which holds a reference and counts as outstanding I/O; \<open>timer_closes\<close>: timers whose close
  callback is still to come; \<open>base\<close>: the reference taken when the connection was accepted has not
  been released; \<open>limbo\<close>: foreign threads that took the count to zero and have not looked at the
  object again yet.
\<close>

record conn_env = csilk_client +
  leases :: nat
  writes :: nat
  timer_closes :: nat
  base :: bool
  limbo :: nat
  tasks :: "dispatch_task list"

datatype conn_event =
    Accept bool accept_result
  | Set_State csilk_conn_state
  | Lease
  | Release bool
  | Release_Foreign
  | Check_Foreign bool
  | Write
  | Write_Done bool
  | Close
  | Close_No_Callback
  | Close_After_Response
  | Close_Sse
  | Close_Callback bool
  | Close_Callback_Foreign bool
  | Timer_Closed bool
  | Dispatch bool
  | Drain bool

text \<open>Who may do what: nobody uses the object without a reference of their own or the base reference.\<close>

fun enabled :: "conn_event \<Rightarrow> conn_env \<Rightarrow> bool" where
  "enabled (Accept _ _) e = (place e = In_Pool)"
| "enabled (Set_State s) e =
     (place e = In_Use \<and> base e \<and> s \<in> {CONN_TLS, CONN_READING, CONN_PROCESSING, CONN_WRITING, CONN_STREAMING})"
| "enabled Lease e = (place e = In_Use \<and> (base e \<or> 0 < leases e))"
| "enabled (Release _) e = (0 < leases e)"
| "enabled Release_Foreign e = (0 < leases e)"
| "enabled (Check_Foreign _) e = (0 < limbo e)"
| "enabled Write e =
     (place e = In_Use \<and> (base e \<or> 0 < leases e) \<and> conn e \<noteq> CONN_CLOSING \<and> conn e \<noteq> CONN_CLOSED)"
| "enabled (Write_Done _) e = (0 < writes e)"
| "enabled Close e = (place e = In_Use \<and> base e)"
| "enabled Close_No_Callback e = (place e = In_Use \<and> base e)"
| "enabled Close_After_Response e = (place e = In_Use \<and> base e)"
| "enabled Close_Sse e = (place e = In_Use \<and> (base e \<or> 0 < leases e))"
| "enabled (Close_Callback _) e = close_cb e"
| "enabled (Close_Callback_Foreign _) e = close_cb e"
| "enabled (Timer_Closed _) e = (0 < timer_closes e)"
| "enabled (Dispatch _) e = (place e = In_Use \<and> (base e \<or> 0 < leases e))"
| "enabled (Drain _) e = (tasks e \<noteq> [])"

text \<open>\<open>on_close\<close> in the environment: it starts the closing of the active timers and releases the base reference.\<close>

definition run_on_close :: "bool \<Rightarrow> conn_env \<Rightarrow> conn_env option" where
  "run_on_close room e =
     (if conn e = CONN_CLOSING \<or> conn e = CONN_CLOSED then on_close room e
      else on_close room
        (e\<lparr>timer_closes := timer_closes e + length (filter (\<lambda>h. h = H_ACTIVE) (timers e)), base := False\<rparr>))"

text \<open>\<open>_csilk_client_recycle_dispatch_cb\<close>.\<close>

definition client_recycle_dispatch_cb :: "bool \<Rightarrow> u64 \<Rightarrow> conn_env \<Rightarrow> conn_env option" where
  "client_recycle_dispatch_cb room gen e =
     (if place e = Freed then None
      else if generation e = gen \<and> conn e = CONN_CLOSING \<and> ref_count e \<le> 0 \<and> pending_io e \<le> 0
      then Some (client_destroy room e)
      else Some e)"

text \<open>\<open>_csilk_on_close_owner\<close>.\<close>

definition on_close_owner :: "bool \<Rightarrow> u64 \<Rightarrow> conn_env \<Rightarrow> conn_env option" where
  "on_close_owner room gen e =
     (if generation e \<noteq> gen \<or> conn e = CONN_CLOSED then Some e else run_on_close room e)"

text \<open>One round of \<open>_csilk_worker_drain_dispatch\<close>.\<close>

definition drain_task :: "bool \<Rightarrow> dispatch_task \<Rightarrow> conn_env \<Rightarrow> conn_env option" where
  "drain_task room t e =
     (case t of
        T_Recycle gen \<Rightarrow> client_recycle_dispatch_cb room gen e
      | T_Close gen \<Rightarrow> map_option (csilk_client_unref room) (on_close_owner room gen e)
      | T_Call \<Rightarrow> Some (csilk_client_unref room e))"

text \<open>The foreign branch of \<open>_csilk_client_check_recycle\<close>; \<open>ok\<close>: its allocations succeed.\<close>

definition check_recycle_foreign :: "bool \<Rightarrow> conn_env \<Rightarrow> conn_env option" where
  "check_recycle_foreign ok e =
     (if place e = Freed then None
      else if \<not> has_owner e \<or> \<not> ok then Some e
      else Some (e\<lparr>tasks := tasks e @ [T_Recycle (generation e)]\<rparr>))"

text \<open>\<open>_csilk_dispatch_try\<close> and the foreign branch of \<open>on_close\<close>, which uses it.\<close>

definition csilk_dispatch_try :: "dispatch_task \<Rightarrow> bool \<Rightarrow> conn_env \<Rightarrow> conn_env" where
  "csilk_dispatch_try t ok e =
     (if \<not> has_owner e \<or> \<not> ok then e
      else let e = csilk_client_ref e in e\<lparr>tasks := tasks e @ [t]\<rparr>)"

definition on_close_foreign :: "bool \<Rightarrow> conn_env \<Rightarrow> conn_env" where
  "on_close_foreign ok e =
     (if conn e = CONN_CLOSING \<or> conn e = CONN_CLOSED then e
      else csilk_dispatch_try (T_Close (generation e)) ok e)"

fun perform :: "conn_event \<Rightarrow> conn_env \<Rightarrow> conn_env option" where
  "perform (Accept room r) e =
     (let e' = accept_client room r e in Some (e'\<lparr>base := (place e' = In_Use)\<rparr>))"
| "perform (Set_State s) e = Some (set_conn s e)"
| "perform Lease e = Some (csilk_client_ref (e\<lparr>leases := leases e + 1\<rparr>))"
| "perform (Release room) e = Some (csilk_client_unref room (e\<lparr>leases := leases e - 1\<rparr>))"
| "perform Release_Foreign e =
     (case ref_sub (e\<lparr>leases := leases e - 1\<rparr>) of
        (e', check) \<Rightarrow> Some (if check then e'\<lparr>limbo := limbo e' + 1\<rparr> else e'))"
| "perform (Check_Foreign ok) e = check_recycle_foreign ok (e\<lparr>limbo := limbo e - 1\<rparr>)"
| "perform Write e = Some (client_pending_io_inc (csilk_client_ref (e\<lparr>writes := writes e + 1\<rparr>)))"
| "perform (Write_Done room) e =
     Some (csilk_client_unref room (client_pending_io_dec room (e\<lparr>writes := writes e - 1\<rparr>)))"
| "perform Close e = Some (on_idle_timeout e)"
| "perform Close_No_Callback e = Some (ws_close_echo e)"
| "perform Close_After_Response e = Some (close_after_response e)"
| "perform Close_Sse e = Some (csilk_sse_close e)"
| "perform (Close_Callback room) e = run_on_close room (e\<lparr>close_cb := False\<rparr>)"
| "perform (Close_Callback_Foreign ok) e = Some (on_close_foreign ok (e\<lparr>close_cb := False\<rparr>))"
| "perform (Timer_Closed room) e = Some (on_timer_close room (e\<lparr>timer_closes := timer_closes e - 1\<rparr>))"
| "perform (Dispatch ok) e = Some (csilk_dispatch_try T_Call ok e)"
| "perform (Drain room) e =
     (case tasks e of [] \<Rightarrow> Some e | t # ts \<Rightarrow> drain_task room t (e\<lparr>tasks := ts\<rparr>))"

definition conn_start :: conn_env where
  "conn_start = csilk_client.extend client_alloc
     \<lparr>leases = 0, writes = 0, timer_closes = 0, base = False, limbo = 0, tasks = []\<rparr>"

text \<open>The states reached by events of the set \<open>A\<close>, and undefined behaviour reached from there.\<close>

inductive conn_reach :: "conn_event set \<Rightarrow> conn_env \<Rightarrow> bool" for A where
  reach_start: "conn_reach A conn_start"
| reach_step: "conn_reach A e \<Longrightarrow> ev \<in> A \<Longrightarrow> enabled ev e \<Longrightarrow> perform ev e = Some e' \<Longrightarrow> conn_reach A e'"

section \<open>The invariant\<close>

named_theorems life_simps

lemma client_destroy_closing:
  "conn c = CONN_CLOSING \<Longrightarrow>
   client_destroy room c = c\<lparr>conn := CONN_INIT, ref_count := 0, pending_io := 0, has_owner := False,
     conn_closed := False, slots := slots c - 1, wp_active := wp_active c - 1,
     place := (if room then In_Pool else Freed)\<rparr>"
  by (simp add: client_destroy_def pool_put_def reset_hot_state_def set_conn_def csilk_conn_set_state_def)

lemma check_recycle_open [life_simps]:
  "conn c \<noteq> CONN_CLOSED \<Longrightarrow>
   client_check_recycle room c =
     (if conn c = CONN_CLOSING \<and> ref_count c \<le> 0 \<and> pending_io c \<le> 0
      then c\<lparr>conn := CONN_INIT, ref_count := 0, pending_io := 0, has_owner := False,
        conn_closed := False, slots := slots c - 1, wp_active := wp_active c - 1,
        place := (if room then In_Pool else Freed)\<rparr>
      else c)"
  by (simp add: client_check_recycle_def client_destroy_closing)

text \<open>The references to the object that somebody holds.\<close>

definition carried :: "conn_env \<Rightarrow> nat" where
  "carried e = length (filter holds_client (tasks e))"

definition held :: "conn_env \<Rightarrow> nat" where
  "held e = leases e + writes e + carried e + of_bool (base e)"

definition has_close_task :: "conn_env \<Rightarrow> bool" where
  "has_close_task e \<longleftrightarrow> (\<exists>g. T_Close g \<in> set (tasks e))"

lemma held_client_update [simp]:
  "held (e\<lparr>conn := x1\<rparr>) = held e" "held (e\<lparr>ref_count := x2\<rparr>) = held e"
  "held (e\<lparr>pending_io := x3\<rparr>) = held e" "held (e\<lparr>generation := x4\<rparr>) = held e"
  "held (e\<lparr>tcp := x5\<rparr>) = held e" "held (e\<lparr>close_cb := x6\<rparr>) = held e"
  "held (e\<lparr>timers := x7\<rparr>) = held e" "held (e\<lparr>in_list := x8\<rparr>) = held e"
  "held (e\<lparr>has_owner := x9\<rparr>) = held e" "held (e\<lparr>conn_closed := x10\<rparr>) = held e"
  "held (e\<lparr>place := x11\<rparr>) = held e" "held (e\<lparr>slots := x12\<rparr>) = held e"
  "held (e\<lparr>wp_active := x13\<rparr>) = held e" "held (e\<lparr>timer_closes := x14\<rparr>) = held e"
  "held (e\<lparr>limbo := x15\<rparr>) = held e"
  by (simp_all add: held_def carried_def)

lemma has_close_task_update [simp]:
  "has_close_task (e\<lparr>conn := x1\<rparr>) = has_close_task e" "has_close_task (e\<lparr>ref_count := x2\<rparr>) = has_close_task e"
  "has_close_task (e\<lparr>pending_io := x3\<rparr>) = has_close_task e" "has_close_task (e\<lparr>generation := x4\<rparr>) = has_close_task e"
  "has_close_task (e\<lparr>tcp := x5\<rparr>) = has_close_task e" "has_close_task (e\<lparr>close_cb := x6\<rparr>) = has_close_task e"
  "has_close_task (e\<lparr>timers := x7\<rparr>) = has_close_task e" "has_close_task (e\<lparr>in_list := x8\<rparr>) = has_close_task e"
  "has_close_task (e\<lparr>has_owner := x9\<rparr>) = has_close_task e" "has_close_task (e\<lparr>conn_closed := x10\<rparr>) = has_close_task e"
  "has_close_task (e\<lparr>place := x11\<rparr>) = has_close_task e" "has_close_task (e\<lparr>slots := x12\<rparr>) = has_close_task e"
  "has_close_task (e\<lparr>wp_active := x13\<rparr>) = has_close_task e" "has_close_task (e\<lparr>timer_closes := x14\<rparr>) = has_close_task e"
  "has_close_task (e\<lparr>limbo := x15\<rparr>) = has_close_task e" "has_close_task (e\<lparr>leases := x16\<rparr>) = has_close_task e"
  "has_close_task (e\<lparr>writes := x17\<rparr>) = has_close_task e" "has_close_task (e\<lparr>base := x18\<rparr>) = has_close_task e"
  by (simp_all add: has_close_task_def)

text \<open>An object in use, apart from its counters, and an object that is not in use.\<close>

definition live :: "conn_env \<Rightarrow> bool" where
  "live e \<longleftrightarrow>
     conn e \<noteq> CONN_INIT \<and> conn e \<noteq> CONN_CLOSED \<and> (conn e \<noteq> CONN_CLOSING \<longrightarrow> base e) \<and>
     (base e \<longrightarrow> timer_closes e = 0) \<and> (\<not> base e \<longrightarrow> \<not> in_list e \<and> tcp e = H_CLOSING \<and> \<not> close_cb e) \<and>
     (close_cb e \<longrightarrow> tcp e = H_CLOSING \<and> \<not> has_close_task e) \<and> (has_close_task e \<longrightarrow> tcp e = H_CLOSING) \<and>
     slots e = 1 \<and> wp_active e = 1 \<and> has_owner e"

definition idle :: "conn_env \<Rightarrow> bool" where
  "idle e \<longleftrightarrow> held e = 0 \<and> timer_closes e = 0 \<and> \<not> close_cb e \<and> \<not> in_list e \<and> conn e = CONN_INIT \<and>
     ref_count e = 0 \<and> pending_io e = 0 \<and> slots e = 0 \<and> wp_active e = 0"

definition counted :: "int \<Rightarrow> int \<Rightarrow> conn_env \<Rightarrow> bool" where
  "counted dr dp e \<longleftrightarrow> place e = In_Use \<and> live e \<and>
     ref_count e = int (held e) + dr \<and> pending_io e = int (writes e + timer_closes e) + dp"

definition conn_inv :: "conn_env \<Rightarrow> bool" where
  "conn_inv e \<longleftrightarrow> (if place e = In_Use then counted 0 0 e else idle e)"

lemma destroy_idle:
  assumes "live e" "conn e = CONN_CLOSING" "held e = 0" "writes e + timer_closes e = 0" "place e = In_Use"
  shows "conn_inv (client_destroy room e)"
  using assms by (simp add: client_destroy_closing conn_inv_def idle_def live_def held_def [of e] carried_def)

lemma live_count_update [simp]:
  "live (e\<lparr>ref_count := r\<rparr>) = live e" "live (e\<lparr>pending_io := p\<rparr>) = live e"
  by (simp_all add: live_def)

lemma live_not_closed: "live e \<Longrightarrow> conn e \<noteq> CONN_CLOSED"
  by (simp add: live_def)

lemma counted_inv: "counted 0 0 e \<Longrightarrow> conn_inv e"
  by (simp add: conn_inv_def counted_def)

lemma check_recycle_inv:
  assumes "counted 0 0 e"
  shows "conn_inv (client_check_recycle room e)"
proof (cases "conn e = CONN_CLOSING \<and> held e = 0 \<and> writes e + timer_closes e = 0")
  case True
  with assms have "client_check_recycle room e = client_destroy room e"
    by (simp add: client_check_recycle_def counted_def)
  with True assms show ?thesis by (simp add: destroy_idle counted_def)
next
  case False
  with assms have "client_check_recycle room e = e"
    by (auto simp: client_check_recycle_def counted_def live_not_closed)
  with assms show ?thesis by (simp add: counted_inv)
qed

lemma unref_inv:
  assumes "counted 1 0 e"
  shows "conn_inv (csilk_client_unref room e)"
proof -
  let ?e = "e\<lparr>ref_count := int (held e)\<rparr>"
  have "csilk_client_unref room e = (if held e = 0 then client_check_recycle room ?e else ?e)"
    using assms by (simp add: csilk_client_unref_def ref_sub_def counted_def)
  moreover have "counted 0 0 ?e" using assms by (simp add: counted_def)
  ultimately show ?thesis by (simp only: split: if_split) (blast intro: check_recycle_inv counted_inv)
qed

lemma pending_io_dec_inv:
  assumes "counted 0 1 e"
  shows "conn_inv (client_pending_io_dec room e)"
proof -
  let ?e = "e\<lparr>pending_io := int (writes e + timer_closes e)\<rparr>"
  have "client_pending_io_dec room e = (if writes e + timer_closes e = 0 then client_check_recycle room ?e else ?e)"
    using assms by (simp add: client_pending_io_dec_def Let_def counted_def)
  moreover have "counted 0 0 ?e" using assms by (simp add: counted_def)
  ultimately show ?thesis by (simp only: split: if_split) (blast intro: check_recycle_inv counted_inv)
qed

lemma unref_keep:
  assumes "counted 2 0 e"
  shows "counted 1 0 (csilk_client_unref room e)"
  using assms by (simp add: csilk_client_unref_def ref_sub_def counted_def)

lemma stop_timers_loop_eq:
  "stop_timers_loop hs c =
     (if H_NONE \<in> set hs then None
      else Some (replicate (length hs) H_CLOSING,
        c\<lparr>pending_io := pending_io c + int (length (filter (\<lambda>h. h = H_ACTIVE) hs))\<rparr>))"
  by (induction hs c rule: stop_timers_loop.induct)
    (auto simp: client_pending_io_inc_def split: handle.splits)

text \<open>\<open>on_close\<close> on an open connection: the state before the base reference is released.\<close>

definition closing :: "conn_env \<Rightarrow> conn_env" where
  "closing e = e\<lparr>timer_closes := timer_closes e + length (filter (\<lambda>h. h = H_ACTIVE) (timers e)),
     base := False, conn := CONN_CLOSING, in_list := False, conn_closed := True,
     pending_io := pending_io e + int (length (filter (\<lambda>h. h = H_ACTIVE) (timers e))),
     timers := replicate (length (timers e)) H_CLOSING\<rparr>"

lemma run_on_close_eq:
  assumes "conn e \<noteq> CONN_CLOSED"
  shows "run_on_close room e =
    (if conn e = CONN_CLOSING then Some e
     else if H_NONE \<in> set (timers e) then None
     else Some (csilk_client_unref room (closing e)))"
  using assms
  by (auto simp: run_on_close_def on_close_def client_stop_timers_def stop_timers_loop_eq set_conn_def
      csilk_conn_set_state_closing closing_def)

lemma closing_counted:
  assumes "counted dr 0 e" "\<not> close_cb e" "tcp e = H_CLOSING" "conn e \<noteq> CONN_CLOSING"
  shows "counted (dr + 1) 0 (closing e)"
proof -
  have "base e" "timer_closes e = 0" using assms by (auto simp: counted_def live_def)
  then have "held e = held (closing e) + 1"
    by (simp add: closing_def held_def carried_def)
  moreover have "live (closing e)"
    using assms by (simp add: live_def closing_def counted_def)
  ultimately show ?thesis using assms \<open>timer_closes e = 0\<close>
    by (simp add: counted_def closing_def)
qed

lemma run_on_close_inv:
  assumes "counted 0 0 e" "\<not> close_cb e" "tcp e = H_CLOSING" "run_on_close room e = Some e'"
  shows "conn_inv e'"
proof (cases "conn e = CONN_CLOSING")
  case True
  with assms show ?thesis by (simp add: run_on_close_def on_close_def counted_inv)
next
  case False
  with assms closing_counted [OF assms(1-3) False] show ?thesis
    by (auto simp: run_on_close_eq counted_def live_not_closed split: if_splits intro: unref_inv)
qed

lemma run_on_close_unref_inv:
  assumes "counted 1 0 e" "\<not> close_cb e" "tcp e = H_CLOSING" "run_on_close room e = Some e'"
  shows "conn_inv (csilk_client_unref room e')"
proof (cases "conn e = CONN_CLOSING")
  case True
  with assms show ?thesis by (simp add: run_on_close_def on_close_def unref_inv)
next
  case False
  have "conn e \<noteq> CONN_CLOSED" using assms(1) by (simp add: counted_def live_not_closed)
  with assms(4) False have "e' = csilk_client_unref room (closing e)"
    by (simp add: run_on_close_eq split: if_splits)
  with closing_counted [OF assms(1-3) False] show ?thesis by (simp add: unref_inv unref_keep)
qed

lemma live_set_conn:
  assumes "live e" "base e" "s \<in> {CONN_TLS, CONN_READING, CONN_PROCESSING, CONN_WRITING, CONN_STREAMING, CONN_CLOSING}"
  shows "live (set_conn s e)"
  using assms by (cases s; cases "conn e") (simp_all add: live_def set_conn_def csilk_conn_set_state_def)

lemma set_conn_counted:
  assumes "counted dr dp e" "base e"
    "s \<in> {CONN_TLS, CONN_READING, CONN_PROCESSING, CONN_WRITING, CONN_STREAMING, CONN_CLOSING}"
  shows "counted dr dp (set_conn s e)"
  using assms live_set_conn [of e s] by (auto simp: counted_def set_conn_def)

lemma set_conn_closing_counted:
  assumes "counted dr dp e"
  shows "counted dr dp (set_conn CONN_CLOSING e)"
proof (cases "base e")
  case True
  with assms show ?thesis by (intro set_conn_counted) auto
next
  case False
  with assms have "conn e = CONN_CLOSING" by (auto simp: counted_def live_def)
  with assms show ?thesis by (simp add: set_conn_def counted_def live_def)
qed

text \<open>The generation of the next use of the object.\<close>

definition next_gen :: "u64 \<Rightarrow> u64" where
  "next_gen g = (if g + 1 = 0 then 1 else g + 1)"

lemma accept_tcp_init_fails:
  assumes "conn c = CONN_INIT"
  shows "accept_client room Tcp_Init_Fails c =
    c\<lparr>slots := slots c, place := (if room then In_Pool else Freed), wp_active := wp_active c, conn := CONN_INIT,
      generation := next_gen (generation c), ref_count := 0, pending_io := 0, conn_closed := False, has_owner := False\<rparr>"
  using assms
  by (cases c) (simp add: accept_client_def pool_get_def pool_put_def reset_hot_state_def set_conn_def next_gen_def)

lemma accept_fails:
  assumes "conn c = CONN_INIT"
  shows "accept_client room Accept_Fails c =
    c\<lparr>slots := slots c, place := (if room then In_Pool else Freed), wp_active := wp_active c, conn := CONN_INIT,
      generation := next_gen (generation c), ref_count := 0, pending_io := 0, conn_closed := False, has_owner := False,
      tcp := H_ACTIVE, close_cb := False, in_list := False\<rparr>"
  using assms
  by (cases c) (simp add: accept_client_def pool_get_def pool_put_def reset_hot_state_def set_conn_def next_gen_def)

lemma accept_succeeds:
  assumes "conn c = CONN_INIT" "r \<noteq> Tcp_Init_Fails" "r \<noteq> Accept_Fails"
  shows "accept_client room r c =
    c\<lparr>slots := slots c + 1, place := In_Use, wp_active := wp_active c + 1,
      conn := (if r = Plain_Ok then CONN_READING else CONN_TLS),
      generation := next_gen (generation c), ref_count := 1, pending_io := 0, conn_closed := False, has_owner := True,
      tcp := (if r = Tls_Fails then H_CLOSING else H_ACTIVE), close_cb := (r = Tls_Fails), in_list := True,
      timers := (if r = Tls_Fails then timers c else replicate 4 H_ACTIVE)\<rparr>"
  using assms
  by (cases c; cases r)
    (simp_all add: accept_client_def pool_get_def set_conn_def next_gen_def io_close_def init_timers_def
      csilk_client_ref_def csilk_conn_set_state_def)

lemma idle_no_close_task: "idle e \<Longrightarrow> \<not> has_close_task e"
  by (auto simp: idle_def held_def carried_def has_close_task_def filter_empty_conv)

lemma accept_inv:
  assumes "idle e" "place e = In_Pool" "perform (Accept room r) e = Some e'"
  shows "conn_inv e'"
proof -
  have z: "leases e = 0" "writes e = 0" "carried e = 0" "\<not> base e" "timer_closes e = 0" "conn e = CONN_INIT"
    using assms(1) by (auto simp: idle_def held_def)
  show ?thesis
  proof (cases "r = Tcp_Init_Fails \<or> r = Accept_Fails")
    case True
    have "idle (e'\<lparr>base := base e\<rparr>)" "\<not> base e'" "place e' \<noteq> In_Use"
      using assms(1,3) True z(6) by (auto simp: accept_tcp_init_fails accept_fails idle_def split: if_splits)
    then show ?thesis using z(4) by (simp add: conn_inv_def idle_def held_def carried_def)
  next
    case False
    have "e' = (accept_client room r e)\<lparr>base := True\<rparr>"
      using assms(3) False z(6) by (simp add: accept_succeeds)
    moreover have "held ((accept_client room r e)\<lparr>base := True\<rparr>) = 1"
      using False z by (simp add: accept_succeeds held_def carried_def)
    ultimately show ?thesis
      using False z idle_no_close_task [OF assms(1)] assms(1)
      by (simp add: accept_succeeds conn_inv_def counted_def live_def idle_def)
  qed
qed

lemma live_env_update [simp]:
  "live (e\<lparr>leases := l\<rparr>) = live e" "live (e\<lparr>writes := w\<rparr>) = live e" "live (e\<lparr>limbo := n\<rparr>) = live e"
  by (simp_all add: live_def)

lemma held_env_update:
  "0 < leases e \<Longrightarrow> held e = held (e\<lparr>leases := leases e - 1\<rparr>) + 1"
  "held (e\<lparr>leases := leases e + 1\<rparr>) = held e + 1"
  "0 < writes e \<Longrightarrow> held e = held (e\<lparr>writes := writes e - 1\<rparr>) + 1"
  "held (e\<lparr>writes := writes e + 1\<rparr>) = held e + 1"
  "held (e\<lparr>tasks := tasks e @ [t]\<rparr>) = held e + of_bool (holds_client t)"
  "tasks e = t # ts \<Longrightarrow> held e = held (e\<lparr>tasks := ts\<rparr>) + of_bool (holds_client t)"
  by (simp_all add: held_def carried_def)

lemma held_positive_in_use:
  assumes "conn_inv e" "0 < held e \<or> 0 < timer_closes e \<or> close_cb e"
  shows "counted 0 0 e"
  using assms by (auto simp: conn_inv_def idle_def split: if_splits)

lemma ref_inv: "counted dr dp e \<Longrightarrow> counted (dr + 1) dp (csilk_client_ref e)"
  by (simp add: csilk_client_ref_def counted_def)

lemma io_close_inv:
  assumes "counted 0 0 e" "tcp e \<noteq> H_CLOSING"
  shows "conn_inv (io_close cb e)"
  using assms by (auto simp: io_close_def conn_inv_def counted_def live_def)

lemma release_inv:
  assumes "conn_inv e" "0 < leases e"
  shows "counted 1 0 (e\<lparr>leases := leases e - 1\<rparr>)"
proof -
  have "counted 0 0 e" using assms by (intro held_positive_in_use) (auto simp: held_def)
  with held_env_update(1) [OF assms(2)] show ?thesis by (simp add: counted_def)
qed

lemma release_foreign_inv:
  assumes "conn_inv e" "0 < leases e" "perform Release_Foreign e = Some e'"
  shows "conn_inv e'"
  using release_inv [OF assms(1,2)] assms(3)
  by (auto simp: ref_sub_def counted_def conn_inv_def split: if_splits)

lemma write_done_inv:
  assumes "conn_inv e" "0 < writes e"
  shows "conn_inv (csilk_client_unref room (client_pending_io_dec room (e\<lparr>writes := writes e - 1\<rparr>)))"
proof -
  let ?e = "e\<lparr>writes := writes e - 1\<rparr>"
  have "counted 0 0 e" using assms by (intro held_positive_in_use) (auto simp: held_def)
  with held_env_update(3) [OF assms(2)] assms(2) have c: "counted 1 1 ?e"
    by (simp add: counted_def of_nat_diff)
  then have "counted 1 0 (client_pending_io_dec room ?e)"
    by (auto simp: client_pending_io_dec_def Let_def counted_def client_check_recycle_def)
  then show ?thesis by (rule unref_inv)
qed

lemma live_tasks:
  assumes "live e"
  shows "live (e\<lparr>tasks := tasks e @ [T_Call]\<rparr>)" "live (e\<lparr>tasks := tasks e @ [T_Recycle g]\<rparr>)"
    "tcp e = H_CLOSING \<Longrightarrow> \<not> close_cb e \<Longrightarrow> live (e\<lparr>tasks := tasks e @ [t]\<rparr>)"
    "tasks e = t # ts \<Longrightarrow> live (e\<lparr>tasks := ts\<rparr>)"
  using assms by (auto simp: live_def has_close_task_def)

lemma dispatch_inv:
  assumes "counted 0 0 e" "holds_client t" "t = T_Call \<or> tcp e = H_CLOSING \<and> \<not> close_cb e"
  shows "conn_inv (csilk_dispatch_try t ok e)"
proof -
  have l: "live (csilk_client_ref e)" using assms(1) by (simp add: csilk_client_ref_def counted_def)
  have "live ((csilk_client_ref e)\<lparr>tasks := tasks (csilk_client_ref e) @ [t]\<rparr>)"
    using assms(3) live_tasks(1) [OF l] live_tasks(3) [OF l, of t] by (auto simp: csilk_client_ref_def)
  then show ?thesis
    using assms(1,2) held_env_update(5) [of "csilk_client_ref e" t]
    by (simp add: csilk_dispatch_try_def conn_inv_def counted_def Let_def csilk_client_ref_def)
qed

lemma drain_inv:
  assumes "conn_inv e" "tasks e = t # ts" "drain_task room t (e\<lparr>tasks := ts\<rparr>) = Some e'"
  shows "conn_inv e'"
proof (cases "holds_client t")
  case False
  then obtain g where t: "t = T_Recycle g" by (cases t) auto
  have inv: "conn_inv (e\<lparr>tasks := ts\<rparr>)"
    using assms(1) held_env_update(6) [OF assms(2)] False live_tasks(4) [OF _ assms(2)]
    by (auto simp: conn_inv_def counted_def idle_def)
  show ?thesis
  proof (cases "e' = e\<lparr>tasks := ts\<rparr>")
    case False
    with assms(3) t have *: "e' = client_destroy room (e\<lparr>tasks := ts\<rparr>)" "conn e = CONN_CLOSING"
      "ref_count e \<le> 0" "pending_io e \<le> 0"
      by (auto simp: drain_task_def client_recycle_dispatch_cb_def split: if_splits)
    from inv * have "counted 0 0 (e\<lparr>tasks := ts\<rparr>)"
      by (auto simp: conn_inv_def idle_def split: if_splits)
    with * show ?thesis by (auto simp: counted_def intro!: destroy_idle)
  qed (use inv in simp)
next
  case True
  let ?e = "e\<lparr>tasks := ts\<rparr>"
  have h: "held e = held ?e + 1" using held_env_update(6) [OF assms(2)] True by simp
  have c: "counted 0 0 e" using h by (intro held_positive_in_use [OF assms(1)]) simp
  then have c1: "counted 1 0 ?e" using h live_tasks(4) [OF _ assms(2)] by (simp add: counted_def)
  show ?thesis
  proof (cases t)
    case (T_Close g)
    then have "has_close_task e" using assms(2) by (auto simp: has_close_task_def)
    with c have tc: "tcp ?e = H_CLOSING" "\<not> close_cb ?e" by (auto simp: counted_def live_def)
    from assms(3) T_Close obtain e1 where e1: "on_close_owner room g ?e = Some e1" "e' = csilk_client_unref room e1"
      by (auto simp: drain_task_def)
    then show ?thesis
      using unref_inv [OF c1] run_on_close_unref_inv [OF c1 tc(2,1)]
      by (auto simp: on_close_owner_def split: if_splits)
  qed (use assms(3) True unref_inv [OF c1] in \<open>auto simp: drain_task_def\<close>)
qed

lemma perform_inv:
  assumes inv: "conn_inv e" and en: "enabled ev e" and ev: "perform ev e = Some e'"
  shows "conn_inv e'"
proof -
  have used: "counted 0 0 e" if "place e = In_Use" using inv that by (simp add: conn_inv_def)
  have pos: "counted 0 0 e" if "0 < held e \<or> 0 < timer_closes e \<or> close_cb e"
    using held_positive_in_use [OF inv that] .
  show ?thesis
  proof (cases ev)
    case (Accept room r)
    then show ?thesis using inv en ev accept_inv by (auto simp: conn_inv_def)
  next
    case (Set_State s)
    then have "counted 0 0 (set_conn s e)" using en used by (intro set_conn_counted) auto
    then show ?thesis using Set_State ev by (auto intro: counted_inv)
  next
    case Lease
    then have "counted 0 0 (csilk_client_ref (e\<lparr>leases := leases e + 1\<rparr>))"
      using en used held_env_update(2) [of e] by (simp add: counted_def csilk_client_ref_def)
    then show ?thesis using Lease ev by (auto intro: counted_inv)
  next
    case (Release room)
    then show ?thesis using en ev unref_inv [OF release_inv [OF inv]] by auto
  next
    case Release_Foreign
    then show ?thesis using en ev release_foreign_inv [OF inv] by auto
  next
    case (Check_Foreign ok)
    have "conn_inv (e\<lparr>limbo := n, tasks := tasks e @ [T_Recycle g]\<rparr>)" "conn_inv (e\<lparr>limbo := n\<rparr>)" for n g
      using inv live_tasks(2) [of "e\<lparr>limbo := n\<rparr>" g] held_env_update(5) [of "e\<lparr>limbo := n\<rparr>" "T_Recycle g"]
      by (auto simp: conn_inv_def counted_def idle_def)
    then show ?thesis using Check_Foreign ev by (auto simp: check_recycle_foreign_def split: if_splits)
  next
    case Write
    then have "counted 0 0 (client_pending_io_inc (csilk_client_ref (e\<lparr>writes := writes e + 1\<rparr>)))"
      using en used held_env_update(4) [of e]
      by (simp add: counted_def csilk_client_ref_def client_pending_io_inc_def)
    then show ?thesis using Write ev by (auto intro: counted_inv)
  next
    case (Write_Done room)
    then show ?thesis using en ev write_done_inv [OF inv] by auto
  next
    case Close
    then show ?thesis using en ev inv used io_close_inv by (auto simp: on_idle_timeout_def)
  next
    case Close_No_Callback
    then show ?thesis using en ev inv used io_close_inv by (auto simp: ws_close_echo_def)
  next
    case Close_After_Response
    then have "counted 0 0 (set_conn CONN_CLOSING e)" using en used by (intro set_conn_closing_counted) auto
    then show ?thesis
      using Close_After_Response ev io_close_inv by (auto simp: close_after_response_def Let_def intro: counted_inv)
  next
    case Close_Sse
    then have "counted 0 0 (set_conn CONN_CLOSING e)" using en used by (intro set_conn_closing_counted) auto
    then show ?thesis
      using Close_Sse ev io_close_inv by (auto simp: csilk_sse_close_def Let_def intro: counted_inv)
  next
    case (Close_Callback room)
    then have "counted 0 0 (e\<lparr>close_cb := False\<rparr>)" "tcp e = H_CLOSING"
      using pos en by (auto simp: counted_def live_def)
    then show ?thesis using Close_Callback ev run_on_close_inv [of "e\<lparr>close_cb := False\<rparr>"] by auto
  next
    case (Close_Callback_Foreign ok)
    then have "counted 0 0 (e\<lparr>close_cb := False\<rparr>)" "tcp e = H_CLOSING"
      using pos en by (auto simp: counted_def live_def)
    then have "conn_inv (e\<lparr>close_cb := False\<rparr>)"
      "conn_inv (csilk_dispatch_try (T_Close (generation e)) ok (e\<lparr>close_cb := False\<rparr>))"
      by (simp_all add: counted_inv dispatch_inv)
    then show ?thesis using Close_Callback_Foreign ev by (auto simp: on_close_foreign_def)
  next
    case (Timer_Closed room)
    then have "counted 0 1 (e\<lparr>timer_closes := timer_closes e - 1\<rparr>)"
      using pos en by (auto simp: counted_def live_def of_nat_diff)
    then show ?thesis using Timer_Closed ev pending_io_dec_inv by (auto simp: on_timer_close_def)
  next
    case (Dispatch ok)
    then show ?thesis using en ev used dispatch_inv [of e T_Call ok] by auto
  next
    case (Drain room)
    then obtain t ts where "tasks e = t # ts" using en by (cases "tasks e") auto
    then show ?thesis using Drain ev drain_inv [OF inv] by auto
  qed
qed

lemma conn_reach_inv: "conn_reach A e \<Longrightarrow> conn_inv e"
proof (induction rule: conn_reach.induct)
  case reach_start
  show ?case
    by (simp add: conn_start_def client_alloc_def conn_inv_def idle_def held_def carried_def csilk_client.extend_def)
next
  case (reach_step e ev e')
  then show ?case using perform_inv by blast
qed

section \<open>Connections that are never recycled\<close>

text \<open>A run of events; an event that is not enabled does not happen.\<close>

fun run_events :: "conn_event list \<Rightarrow> conn_env \<Rightarrow> conn_env option" where
  "run_events [] e = Some e"
| "run_events (ev # evs) e =
     (if enabled ev e then case perform ev e of None \<Rightarrow> None | Some e' \<Rightarrow> run_events evs e'
      else run_events evs e)"

text \<open>
  The base reference is still held, and nothing is left that would release it: the connection is
  marked as closing, so that \<open>on_close\<close> does nothing, or its handle is closing without \<open>on_close\<close>.
\<close>

definition stranded :: "conn_env \<Rightarrow> bool" where
  "stranded e \<longleftrightarrow> place e = In_Use \<and> base e \<and>
     (conn e = CONN_CLOSING \<or> tcp e = H_CLOSING \<and> \<not> close_cb e \<and> \<not> has_close_task e)"

lemma unref_held:
  assumes "counted 1 0 e" "0 < held e"
  shows "csilk_client_unref room e = e\<lparr>ref_count := int (held e)\<rparr>"
  using assms by (simp add: csilk_client_unref_def ref_sub_def counted_def)

lemma pending_io_dec_held:
  assumes "counted dr 1 e" "0 < int (held e) + dr"
  shows "client_pending_io_dec room e = e\<lparr>pending_io := int (writes e + timer_closes e)\<rparr>"
  using assms by (simp add: client_pending_io_dec_def Let_def counted_def client_check_recycle_def)

lemma stranded_set_conn: "stranded e \<Longrightarrow> s \<noteq> CONN_CLOSED \<Longrightarrow> stranded (set_conn s e)"
  by (auto simp: stranded_def set_conn_def set_state_stays_closing)

lemma held_base: "base e \<Longrightarrow> 0 < held e"
  by (simp add: held_def)

lemma stranded_drain:
  assumes str: "stranded e" and inv: "counted 0 0 e" and t: "tasks e = t # ts"
    and ev: "drain_task room t (e\<lparr>tasks := ts\<rparr>) = Some e'"
  shows "stranded e' \<and> generation e' = generation e"
proof -
  let ?e = "e\<lparr>tasks := ts\<rparr>"
  have b: "0 < held ?e" "base e" using str by (simp_all add: stranded_def held_def)
  have s: "stranded ?e" using str t by (auto simp: stranded_def has_close_task_def)
  have c: "counted (of_bool (holds_client t)) 0 ?e"
    using inv held_env_update(6) [OF t] live_tasks(4) [OF _ t] by (auto simp: counted_def)
  have keep: "stranded (?e\<lparr>ref_count := r\<rparr>)" for r using s by (simp add: stranded_def)
  show ?thesis
  proof (cases t)
    case (T_Recycle g)
    have "\<not> ref_count e \<le> 0" using inv b(2) by (simp add: counted_def held_def)
    with T_Recycle ev s show ?thesis by (auto simp: drain_task_def client_recycle_dispatch_cb_def split: if_splits)
  next
    case (T_Close g)
    then have "has_close_task e" using t by (auto simp: has_close_task_def)
    then have "conn e = CONN_CLOSING" using str by (auto simp: stranded_def)
    then have "e' = csilk_client_unref room ?e"
      using ev T_Close by (auto simp: drain_task_def on_close_owner_def run_on_close_def on_close_def split: if_splits)
    then show ?thesis using unref_held [of ?e room] c b keep T_Close by simp
  next
    case T_Call
    then have "e' = csilk_client_unref room ?e" using ev by (simp add: drain_task_def)
    then show ?thesis using unref_held [of ?e room] c b keep T_Call by simp
  qed
qed

lemma stranded_step:
  assumes inv: "conn_inv e" and str: "stranded e" and en: "enabled ev e" and ev: "perform ev e = Some e'"
  shows "stranded e' \<and> generation e' = generation e"
proof -
  have c: "counted 0 0 e" using inv str by (simp add: conn_inv_def stranded_def)
  have b: "base e" using str by (simp add: stranded_def)
  have upd: "stranded (e\<lparr>leases := l\<rparr>)" "stranded (e\<lparr>writes := w\<rparr>)" "stranded (e\<lparr>limbo := n\<rparr>)"
    "stranded (e\<lparr>leases := l, ref_count := r\<rparr>)" "stranded (e\<lparr>writes := w, pending_io := p, ref_count := r\<rparr>)"
    "stranded (e\<lparr>writes := w, ref_count := r, pending_io := p\<rparr>)" "stranded (e\<lparr>leases := l, ref_count := r, limbo := n\<rparr>)"
    "stranded (e\<lparr>limbo := n, tasks := tasks e @ [T_Recycle g]\<rparr>)" "stranded (e\<lparr>ref_count := r, tasks := tasks e @ [T_Call]\<rparr>)"
    for l w n r p g
    using str by (auto simp: stranded_def has_close_task_def)
  show ?thesis
  proof (cases ev)
    case (Release room)
    then have "counted 1 0 (e\<lparr>leases := leases e - 1\<rparr>)" using en release_inv [OF inv] by simp
    then have "e' = e\<lparr>leases := leases e - 1, ref_count := int (held (e\<lparr>leases := leases e - 1\<rparr>))\<rparr>"
      using Release ev unref_held [of "e\<lparr>leases := leases e - 1\<rparr>" room] b held_base [of "e\<lparr>leases := leases e - 1\<rparr>"] by simp
    then show ?thesis using upd by simp
  next
    case Release_Foreign
    then show ?thesis using ev upd by (auto simp: ref_sub_def Let_def split: if_splits)
  next
    case (Write_Done room)
    let ?e = "e\<lparr>writes := writes e - 1\<rparr>"
    have "counted 1 1 ?e" using en Write_Done c held_env_update(3) [of e] by (simp add: counted_def of_nat_diff)
    then have p: "client_pending_io_dec room ?e = ?e\<lparr>pending_io := int (writes ?e + timer_closes ?e)\<rparr>" (is "_ = ?p")
      by (intro pending_io_dec_held) auto
    have "counted 1 0 ?p" using \<open>counted 1 1 ?e\<close> by (simp add: counted_def)
    then have u: "csilk_client_unref room ?p = ?p\<lparr>ref_count := int (held ?p)\<rparr>"
      by (intro unref_held) (use b in \<open>simp_all add: held_base\<close>)
    have "e' = csilk_client_unref room (client_pending_io_dec room ?e)" using Write_Done ev by simp
    also have "\<dots> = ?p\<lparr>ref_count := int (held ?p)\<rparr>" by (simp only: p u)
    finally show ?thesis using upd by simp
  next
    case (Close_Callback room)
    then have "conn e = CONN_CLOSING" using en str by (auto simp: stranded_def)
    then show ?thesis using Close_Callback ev str by (auto simp: run_on_close_def on_close_def stranded_def)
  next
    case (Close_Callback_Foreign ok)
    then have "conn e = CONN_CLOSING" using en str by (auto simp: stranded_def)
    then show ?thesis using Close_Callback_Foreign ev str by (auto simp: on_close_foreign_def stranded_def)
  next
    case (Drain room)
    then obtain t ts where "tasks e = t # ts" using en by (cases "tasks e") auto
    then show ?thesis using Drain ev stranded_drain [OF str c] by simp
  next
    case (Timer_Closed room)
    then show ?thesis using en c b by (simp add: counted_def live_def)
  next
    case (Accept room r)
    then show ?thesis using en str by (simp add: stranded_def)
  next
    case (Set_State s)
    then show ?thesis using en ev str stranded_set_conn [of e s] by (auto simp: set_conn_def)
  next
    case Lease
    then show ?thesis using ev upd by (auto simp: csilk_client_ref_def)
  next
    case (Check_Foreign ok)
    then show ?thesis using ev upd by (auto simp: check_recycle_foreign_def split: if_splits)
  next
    case Write
    then show ?thesis using ev upd by (auto simp: csilk_client_ref_def client_pending_io_inc_def)
  next
    case Close
    then show ?thesis using ev str by (auto simp: on_idle_timeout_def io_close_def stranded_def split: if_splits)
  next
    case Close_No_Callback
    then show ?thesis using ev str by (auto simp: ws_close_echo_def io_close_def stranded_def split: if_splits)
  next
    case Close_After_Response
    then show ?thesis using ev str stranded_set_conn [of e CONN_CLOSING]
      by (auto simp: close_after_response_def io_close_def set_conn_def csilk_conn_set_state_closing stranded_def Let_def split: if_splits)
  next
    case Close_Sse
    then show ?thesis using ev str stranded_set_conn [of e CONN_CLOSING]
      by (auto simp: csilk_sse_close_def io_close_def set_conn_def csilk_conn_set_state_closing stranded_def Let_def split: if_splits)
  next
    case (Dispatch ok)
    then show ?thesis using ev upd str by (auto simp: csilk_dispatch_try_def csilk_client_ref_def Let_def)
  qed
qed

lemma stranded_run:
  assumes "conn_inv e" "stranded e" "run_events evs e = Some e'"
  shows "conn_inv e' \<and> stranded e' \<and> generation e' = generation e"
  using assms
proof (induction evs e arbitrary: e' rule: run_events.induct)
  case (2 ev evs e)
  show ?case
  proof (cases "enabled ev e")
    case True
    then obtain e1 where e1: "perform ev e = Some e1" "run_events evs e1 = Some e'"
      using "2.prems"(3) by (auto split: option.splits)
    from stranded_step [OF "2.prems"(1,2) True e1(1)] perform_inv [OF "2.prems"(1) True e1(1)]
      "2.IH"(1) [OF True e1(1) _ _ e1(2)] show ?thesis by simp
  qed (use 2 in simp)
qed simp

section \<open>Recycling\<close>












section \<open>Undefined behaviour\<close>

text \<open>The free list always has room, and the TLS set-up of an accepted connection does not fail.\<close>

fun steady :: "conn_event \<Rightarrow> bool" where
  "steady (Accept room r) = (room \<and> r \<noteq> Tls_Fails)"
| "steady (Release room) = room"
| "steady (Write_Done room) = room"
| "steady (Close_Callback room) = room"
| "steady (Timer_Closed room) = room"
| "steady (Drain room) = room"
| "steady _ = True"

definition sound :: "conn_env \<Rightarrow> bool" where
  "sound e \<longleftrightarrow> place e \<noteq> Freed \<and> (place e = In_Use \<longrightarrow> H_NONE \<notin> set (timers e))"

lemma sound_update [simp]:
  "sound (e\<lparr>conn := x1\<rparr>) = sound e" "sound (e\<lparr>ref_count := x2\<rparr>) = sound e"
  "sound (e\<lparr>pending_io := x3\<rparr>) = sound e" "sound (e\<lparr>tcp := x5\<rparr>) = sound e" "sound (e\<lparr>close_cb := x6\<rparr>) = sound e"
  "sound (e\<lparr>timer_closes := x14\<rparr>) = sound e" "sound (e\<lparr>limbo := x15\<rparr>) = sound e"
  "sound (e\<lparr>leases := x16\<rparr>) = sound e" "sound (e\<lparr>writes := x17\<rparr>) = sound e" "sound (e\<lparr>base := x18\<rparr>) = sound e"
  "sound (e\<lparr>tasks := x19\<rparr>) = sound e"
  by (simp_all add: sound_def)

lemma sound_destroy: "sound e \<Longrightarrow> sound (client_destroy True e)"
  by (cases "conn e = CONN_CLOSING") (simp add: client_destroy_closing sound_def, simp add: client_destroy_def)

lemma sound_not_freed: "sound e \<Longrightarrow> place e \<noteq> Freed"
  by (simp add: sound_def)

lemma sound_check_recycle: "sound e \<Longrightarrow> sound (client_check_recycle True e)"
  by (simp add: client_check_recycle_def sound_destroy)

lemma sound_unref: "sound e \<Longrightarrow> sound (csilk_client_unref True e)"
  by (simp add: csilk_client_unref_def ref_sub_def Let_def sound_check_recycle)

lemma sound_dec: "sound e \<Longrightarrow> sound (client_pending_io_dec True e)"
  by (simp add: client_pending_io_dec_def Let_def sound_check_recycle)

lemma sound_run_on_close:
  assumes "sound e" "conn_inv e" "place e = In_Use"
  shows "\<exists>e'. run_on_close True e = Some e' \<and> sound e'"
proof -
  have "conn e \<noteq> CONN_CLOSED" using assms(2,3) by (simp add: conn_inv_def counted_def live_def)
  moreover have "H_NONE \<notin> set (timers e)" "sound (closing e)"
    using assms(1,3) by (simp_all add: sound_def closing_def)
  ultimately show ?thesis using assms(1) by (simp add: run_on_close_eq sound_unref)
qed

lemma sound_drain:
  assumes "sound e" "conn_inv e" "tasks e = t # ts"
  shows "\<exists>e'. drain_task True t (e\<lparr>tasks := ts\<rparr>) = Some e' \<and> sound e'"
proof (cases t)
  case (T_Close g)
  let ?e = "e\<lparr>tasks := ts\<rparr>"
  have "0 < held e" using assms(3) T_Close by (simp add: held_def carried_def)
  then have c: "counted 0 0 e" using held_positive_in_use [OF assms(2)] by blast
  have "H_NONE \<notin> set (timers e)" "sound (closing ?e)"
    using assms(1) c by (simp_all add: sound_def closing_def counted_def)
  moreover have "conn ?e \<noteq> CONN_CLOSED" using c by (simp add: counted_def live_def)
  ultimately show ?thesis
    using T_Close assms(1) run_on_close_eq [of ?e True]
    by (simp add: drain_task_def on_close_owner_def sound_unref)
qed (use assms(1) in \<open>auto simp: drain_task_def client_recycle_dispatch_cb_def sound_unref sound_destroy sound_not_freed\<close>)

lemma sound_accept:
  assumes "sound e" "conn_inv e" "place e = In_Pool" "r \<noteq> Tls_Fails"
  shows "\<exists>e'. perform (Accept True r) e = Some e' \<and> sound e'"
proof -
  have "conn e = CONN_INIT" using assms(2,3) by (simp add: conn_inv_def idle_def)
  then show ?thesis using assms(4)
    by (cases r) (simp_all add: accept_tcp_init_fails accept_fails accept_succeeds sound_def)
qed

lemma sound_step:
  assumes "sound e" "conn_inv e" "steady ev" "enabled ev e"
  shows "\<exists>e'. perform ev e = Some e' \<and> sound e'"
proof (cases ev)
  case (Accept room r)
  then show ?thesis using assms sound_accept by simp
next
  case (Drain room)
  then obtain t ts where "tasks e = t # ts" using assms(4) by (cases "tasks e") auto
  then show ?thesis using Drain assms sound_drain by simp
next
  case (Close_Callback room)
  then have "counted 0 0 e" using assms held_positive_in_use by simp
  then have "place (e\<lparr>close_cb := False\<rparr>) = In_Use" "conn_inv (e\<lparr>close_cb := False\<rparr>)"
    by (auto simp: counted_def live_def conn_inv_def)
  then show ?thesis using Close_Callback assms sound_run_on_close [of "e\<lparr>close_cb := False\<rparr>"] by simp
next
  case Release_Foreign
  then show ?thesis using assms by (simp add: ref_sub_def Let_def)
next
  case (Check_Foreign ok)
  then show ?thesis using assms(1) by (simp add: check_recycle_foreign_def sound_def)
qed (use assms in \<open>simp_all add: sound_unref sound_dec on_timer_close_def set_conn_def csilk_client_ref_def
    client_pending_io_inc_def on_idle_timeout_def ws_close_echo_def close_after_response_def csilk_sse_close_def
    io_close_def on_close_foreign_def csilk_dispatch_try_def Let_def\<close>)

lemma steady_sound: "conn_reach (Collect steady) e \<Longrightarrow> sound e"
proof (induction rule: conn_reach.induct)
  case reach_start
  show ?case by (simp add: conn_start_def client_alloc_def sound_def csilk_client.extend_def)
next
  case (reach_step e ev e')
  then show ?case using sound_step [of e ev] conn_reach_inv by fastforce
qed

section \<open>Properties\<close>

lemma run_reach: "conn_reach A e \<Longrightarrow> set evs \<subseteq> A \<Longrightarrow> run_events evs e = Some e' \<Longrightarrow> conn_reach A e'"
proof (induction evs e arbitrary: e' rule: run_events.induct)
  case (2 ev evs e)
  then show ?case by (auto split: if_splits option.splits intro: reach_step)
qed simp

lemmas conn_eval = conn_start_def client_alloc_def csilk_client.extend_def accept_client_def pool_get_def
  pool_put_def reset_hot_state_def set_conn_def csilk_conn_set_state_def csilk_client_ref_def init_timers_def
  io_close_def on_idle_timeout_def run_on_close_def on_close_def client_stop_timers_def client_pending_io_inc_def
  csilk_client_unref_def ref_sub_def client_check_recycle_def client_destroy_def on_timer_close_def
  client_pending_io_dec_def Let_def check_recycle_foreign_def close_after_response_def drain_task_def
  client_recycle_dispatch_cb_def






text \<open>
  C8. Three ways of closing lose the connection object for good: \<open>_csilk_handle_post_response\<close>
  for a response without keep-alive and \<open>csilk_sse_close\<close> request the state \<open>CONN_CLOSING\<close> before
  they close the handle with \<open>on_close\<close>, which then returns at once; the close echo of a WebSocket
  connection closes the handle without \<open>on_close\<close>. Whatever happens afterwards, the object is never
  recycled: it still serves the same connection and its slot counts as an active connection.
\<close>
theorem conn_close_strands:
  assumes "conn_reach UNIV e" "place e = In_Use" "conn e \<noteq> CONN_CLOSING" "tcp e \<noteq> H_CLOSING"
    "ev \<in> {Close_After_Response, Close_Sse, Close_No_Callback}" "run_events (ev # evs) e = Some e'"
  shows "place e' = In_Use \<and> slots e' = 1 \<and> generation e' = generation e"
proof -
  have inv: "conn_inv e" using conn_reach_inv [OF assms(1)] .
  with assms(2,3) have b: "base e" "conn e \<noteq> CONN_CLOSED" and c: "counted 0 0 e"
    by (auto simp: conn_inv_def counted_def live_def)
  have "\<not> has_close_task e" using c assms(4) by (auto simp: counted_def live_def)
  obtain e1 where e1: "perform ev e = Some e1" "enabled ev e" "run_events evs e1 = Some e'"
    using assms(2,5,6) b by auto
  have "stranded e1" "generation e1 = generation e"
    using assms(2,4,5) e1(1) b \<open>\<not> has_close_task e\<close>
    by (auto simp: stranded_def close_after_response_def csilk_sse_close_def ws_close_echo_def io_close_def
        set_conn_def csilk_conn_set_state_closing)
  with stranded_run [OF perform_inv [OF inv e1(2,1)] _ e1(3)] show ?thesis
    by (auto simp: stranded_def conn_inv_def counted_def live_def)
qed

theorem conn_close_strands_witness:
  "\<exists>e e'. conn_reach UNIV e \<and>
     run_events [Close_After_Response, Close_Callback True] e = Some e' \<and> \<not> close_cb e' \<and> place e' = In_Use \<and> slots e' = 1"
proof -
  define e where "e = the (run_events [Accept True Plain_Ok] conn_start)"
  have r: "run_events [Accept True Plain_Ok] conn_start = Some e" by (simp add: e_def conn_eval)
  have e: "place e = In_Use" "conn e \<noteq> CONN_CLOSING" "tcp e \<noteq> H_CLOSING" by (simp_all add: e_def conn_eval)
  have reach: "conn_reach UNIV e" by (intro run_reach [OF reach_start _ r]) simp
  obtain e' where e': "run_events [Close_After_Response, Close_Callback True] e = Some e'" "\<not> close_cb e'"
    by (simp add: e_def conn_eval)
  show ?thesis using conn_close_strands [OF reach e _ e'(1)] reach e' by blast
qed

text \<open>
  With room in the free list and no failing TLS set-up there is no undefined behaviour: nobody
  touches a freed object and no uninitialised timer is closed.
\<close>
lemma conn_memory_safe:
  assumes "conn_reach (Collect steady) e" "steady ev" "enabled ev e"
  shows "perform ev e \<noteq> None"
  using sound_step [OF steady_sound [OF assms(1)] conn_reach_inv [OF assms(1)] assms(2,3)] by auto


text \<open>A TLS set-up that fails on a new object closes timers that were never initialised.\<close>
lemma conn_tls_failure_undefined:
  "run_events [Accept True Tls_Fails, Close_Callback True] conn_start = None"
  by (simp add: conn_eval numeral_eq_Suc)

text \<open>After a failed accept the object is in the pool with its TCP handle still active in the event loop.\<close>
lemma conn_accept_failure_leaves_handle:
  "\<exists>e. run_events [Accept True Accept_Fails] conn_start = Some e \<and> place e = In_Pool \<and> tcp e = H_ACTIVE"
  by (simp add: conn_eval)

end
