(* ===== verification/Websocket.thy ===== *)
theory Websocket
  imports Byte_Order Base64 Conn_Life
begin

text \<open>
  WebSocket frames (\<open>protocols/websocket.c\<close>): the upgrade handshake, sending data and close frames,
  and the parser that the read callback of a connection runs on the bytes of one read. The client
  object is that of \<open>Conn_Life\<close>; a context records what the functions do to the outside: the
  buffers handed to the TCP handle and the calls of the message callbacks.

  SHA-1 is a parameter (the source calls OpenSSL), and so are the size of the write queue and the
  result of a write, which the event library reports.
\<close>

unbundle bit_operations_syntax

definition SIZE_MAX :: nat where
  "SIZE_MAX = 2 ^ 64 - 1"

record ws_ctx =
  internal_client :: "csilk_client option"
  max_write_buffer_size :: nat
  write_high_water_mark :: nat
  write_paused :: bool
  is_websocket :: bool
  on_ws_send :: bool
  on_ws_message :: bool
  observed :: "(string \<times> int) list"
  messages :: "(string \<times> nat) list"
  wire :: "string list"

text \<open>What the event library answers during a call.\<close>

record ws_io =
  queue_before :: nat
  queue_after :: nat
  write_result :: int
  pool_room :: bool

section \<open>The handshake\<close>

definition WS_GUID :: string where
  "WS_GUID = ''258EAFA5-E914-47DA-95CA-C5AB0DC85B11''"

text \<open>\<open>snprintf\<close> of a string into a buffer of \<open>n\<close> bytes, the terminator included.\<close>

definition snprintf_s :: "nat \<Rightarrow> string \<Rightarrow> string" where
  "snprintf_s n s = take (n - 1) s"

text \<open>The status and the headers the handshake sets, and the context; without a key it answers 400.\<close>

definition csilk_ws_handshake ::
    "(string \<Rightarrow> string) \<Rightarrow> string option \<Rightarrow> ws_ctx \<Rightarrow> nat \<times> (string \<times> string) list \<times> ws_ctx" where
  "csilk_ws_handshake sha1 key c =
     (case key of
        None \<Rightarrow> (400, [], c)
      | Some key \<Rightarrow>
          let combined = snprintf_s 256 (key @ WS_GUID);
              digest = sha1 combined;
              accept_key = csilk_base64_encode digest;
              hs = [(''Upgrade'', ''websocket''), (''Connection'', ''Upgrade''),
                    (''Sec-WebSocket-Accept'', accept_key)];
              c = c\<lparr>is_websocket := True\<rparr>;
              c = c\<lparr>internal_client := map_option (set_conn CONN_STREAMING) (internal_client c)\<rparr>
          in (101, hs, c))"

section \<open>Sending\<close>

definition ws_header_len :: "nat \<Rightarrow> nat" where
  "ws_header_len len = (if 125 < len \<and> len \<le> 65535 then 4 else if 65535 < len then 10 else 2)"

definition ws_header :: "nat \<Rightarrow> int \<Rightarrow> string" where
  "ws_header len opcode =
     (let b0 = char_of (0x80 OR nat (opcode AND 0x0F)) in
      if len \<le> 125 then [b0, char_of len]
      else if len \<le> 65535 then [b0, char_of (126 :: nat), char_of (drop_bit 8 len AND 0xFF), char_of (len AND 0xFF)]
      else b0 # char_of (127 :: nat) # map (\<lambda>i. char_of (drop_bit (56 - i * 8) len AND 0xFF)) [0..<8])"

text \<open>
  Handing a buffer to the TCP handle: a reference and an outstanding I/O are taken before the call
  and given back when it fails. The length of the buffer is cut to an unsigned int.
\<close>

definition ws_write :: "ws_io \<Rightarrow> string \<Rightarrow> csilk_client \<Rightarrow> csilk_client \<times> string list \<times> bool" where
  "ws_write io frame cl =
     (let cl = client_pending_io_inc (csilk_client_ref cl) in
      if write_result io < 0
      then (csilk_client_unref (pool_room io) (client_pending_io_dec (pool_room io) cl), [], False)
      else (cl, [take (length frame mod 2 ^ 32) frame], True))"

definition csilk_ws_send :: "heap \<Rightarrow> ws_io \<Rightarrow> ws_ctx \<Rightarrow> string \<Rightarrow> int \<Rightarrow> int \<times> ws_ctx \<times> heap" where
  "csilk_ws_send al io c payload opcode =
     (let len = length payload;
          c = (if on_ws_send c then c\<lparr>observed := observed c @ [(payload, opcode)]\<rparr> else c)
      in case internal_client c of
           None \<Rightarrow> (- 1, c, al)
         | Some cl \<Rightarrow>
             let cl = set_conn CONN_STREAMING cl;
                 c = c\<lparr>internal_client := Some cl\<rparr>;
                 header_len = ws_header_len len
             in if SIZE_MAX - header_len < len then (- 1, c, al)
                else let frame_len = header_len + len in
                if 0 < max_write_buffer_size c \<and>
                   max_write_buffer_size c < (queue_before io + frame_len) mod 2 ^ 64 then (- 1, c, al)
                else case malloc al of (ok, al) \<Rightarrow>
                if \<not> ok then (- 1, c, al)
                else let frame = ws_header len opcode @ payload in
                case malloc al of (ok, al) \<Rightarrow>
                if \<not> ok then (- 1, c, al)
                else case ws_write io frame cl of (cl, out, sent) \<Rightarrow>
                  let c = c\<lparr>internal_client := Some cl, wire := wire c @ out\<rparr> in
                  if \<not> sent then (- 1, c, al)
                  else if 0 < write_high_water_mark c \<and> write_high_water_mark c \<le> queue_after io
                  then (0, c\<lparr>write_paused := True\<rparr>, al)
                  else (1, c, al))"

definition ws_close_payload :: "u16 \<Rightarrow> string option \<Rightarrow> string" where
  "ws_close_payload status_code reason =
     (if 0 < status_code
      then [char_of (unat (drop_bit 8 status_code AND 0xFF)), char_of (unat (status_code AND 0xFF))] else []) @
     (case reason of None \<Rightarrow> [] | Some r \<Rightarrow> r)"

definition csilk_ws_close :: "heap \<Rightarrow> ws_io \<Rightarrow> ws_ctx \<Rightarrow> u16 \<Rightarrow> string option \<Rightarrow> ws_ctx \<times> heap" where
  "csilk_ws_close al io c status_code reason =
     (case internal_client c of
        None \<Rightarrow> (c, al)
      | Some cl \<Rightarrow>
          let reason_len = (case reason of None \<Rightarrow> 0 | Some r \<Rightarrow> length r);
              payload_len = (if 0 < status_code then 2 + reason_len else reason_len)
          in if 125 < payload_len then (c, al)
             else case malloc al of (ok, al) \<Rightarrow>
             if \<not> ok then (c, al)
             else let frame = char_of (0x88 :: nat) # char_of payload_len # ws_close_payload status_code reason in
             case malloc al of (ok, al) \<Rightarrow>
             if \<not> ok then (c, al)
             else case ws_write io frame cl of (cl, out, _) \<Rightarrow>
               (c\<lparr>internal_client := Some cl, wire := wire c @ out\<rparr>, al))"

section \<open>Parsing\<close>

definition CSILK_WS_MAX_FRAME_PAYLOAD :: nat where
  "CSILK_WS_MAX_FRAME_PAYLOAD = 64 * 1024 * 1024"

text \<open>The length field and the offset behind it, if the bytes read reach that far.\<close>

definition ws_length :: "string \<Rightarrow> (nat \<times> nat) option" where
  "ws_length buf =
     (let payload_len = byte (buf ! 1) AND 0x7F in
      if payload_len = 126
      then (if length buf < 4 then None else Some (push_bit 8 (byte (buf ! 2)) OR byte (buf ! 3), 4))
      else if payload_len = 127
      then (if length buf < 10 then None else Some (unat (shift_in 0 (take 8 (drop 2 buf))), 10))
      else Some (payload_len, 2))"

definition char_xor :: "char \<Rightarrow> char \<Rightarrow> char" where
  "char_xor a b = char_of (byte a XOR byte b)"

fun unmask :: "string \<Rightarrow> nat \<Rightarrow> string \<Rightarrow> string" where
  "unmask key i [] = []"
| "unmask key i (b # bs) = char_xor b (key ! (i mod 4)) # unmask key (i + 1) bs"

text \<open>The opcode and the payload of the frame at the start of a buffer; \<open>None\<close> where the parser returns early.\<close>

definition ws_frame :: "heap \<Rightarrow> string \<Rightarrow> (nat \<times> string) option \<times> heap" where
  "ws_frame al buf =
     (if length buf < 2 then (None, al)
      else let opcode = byte (buf ! 0) AND 0x0F;
               masked = drop_bit 7 (byte (buf ! 1)) AND 0x01 = 1
      in case ws_length buf of
           None \<Rightarrow> (None, al)
         | Some (payload_len, offset) \<Rightarrow>
             if masked \<and> length buf < offset + 4 then (None, al)
             else let key = (if masked then take 4 (drop offset buf) else replicate 4 NUL);
                      offset = (if masked then offset + 4 else offset)
             in if CSILK_WS_MAX_FRAME_PAYLOAD < payload_len \<or> SIZE_MAX - offset - 1 < payload_len then (None, al)
                else if length buf < offset + payload_len then (None, al)
                else case malloc al of (ok, al) \<Rightarrow>
                if \<not> ok then (None, al)
                else let payload = take payload_len (drop offset buf);
                         payload = (if masked then unmask key 0 payload else payload)
                in (Some (opcode, payload), al))"

definition close_code :: "string \<Rightarrow> u16" where
  "close_code payload =
     (if 2 \<le> length payload then push_bit 8 (of_nat (byte (payload ! 0))) OR of_nat (byte (payload ! 1)) else 1005)"

definition csilk_ws_parse_frame :: "heap \<Rightarrow> ws_io \<Rightarrow> ws_ctx \<Rightarrow> string \<Rightarrow> ws_ctx \<times> heap" where
  "csilk_ws_parse_frame al io c buf =
     (case ws_frame al buf of
        (None, al) \<Rightarrow> (c, al)
      | (Some (opcode, payload), al) \<Rightarrow>
          if opcode = 0x08
          then case csilk_ws_close al io c (close_code payload) None of (c, al) \<Rightarrow>
            (c\<lparr>internal_client := map_option ws_close_echo (internal_client c)\<rparr>, al)
          else if on_ws_message c then (c\<lparr>messages := messages c @ [(payload, opcode)]\<rparr>, al)
          else (c, al))"

text \<open>The WebSocket branch of \<open>on_read\<close>: one read is given to the parser once.\<close>

definition on_read_websocket :: "heap \<Rightarrow> ws_io \<Rightarrow> ws_ctx \<Rightarrow> string \<Rightarrow> ws_ctx \<times> heap" where
  "on_read_websocket al io c bytes =
     (let c = c\<lparr>internal_client := map_option (set_conn CONN_STREAMING) (internal_client c)\<rparr>
      in csilk_ws_parse_frame al io c bytes)"

section \<open>Bits\<close>

lemma byte_char_xor: "byte (char_xor a b) = byte a XOR byte b"
proof -
  have "take_bit 8 (byte a XOR byte b) = take_bit 8 (byte a) XOR take_bit 8 (byte b)" by simp
  also have "\<dots> = byte a XOR byte b" using byte_less [of a] byte_less [of b] by (simp add: take_bit_nat_eq_self)
  finally show ?thesis by (simp add: char_xor_def take_bit_eq_mod)
qed

lemma char_xor_twice [simp]: "char_xor (char_xor a b) b = a"
proof -
  have "byte (char_xor (char_xor a b) b) = byte a" by (simp add: byte_char_xor ac_simps)
  then show ?thesis by simp
qed

text \<open>The masking of RFC 6455: byte \<open>i\<close> of the payload with byte \<open>i mod 4\<close> of the key.\<close>

definition mask_payload :: "string \<Rightarrow> string \<Rightarrow> string" where
  "mask_payload key p = map (\<lambda>i. char_xor (p ! i) (key ! (i mod 4))) [0..<length p]"

lemma length_mask_payload [simp]: "length (mask_payload key p) = length p"
  by (simp add: mask_payload_def)

lemma unmask_nth: "unmask key i p = map (\<lambda>j. char_xor (p ! j) (key ! ((i + j) mod 4))) [0..<length p]"
proof (induction key i p rule: unmask.induct)
  case (2 key i b bs)
  have "[0..<length (b # bs)] = 0 # map Suc [0..<length bs]" by (simp add: map_Suc_upt upt_conv_Cons del: upt_Suc)
  then show ?case using 2 by (simp add: comp_def del: upt_Suc)
qed simp

lemma unmask_mask_payload: "unmask key 0 (mask_payload key p) = p"
  by (rule nth_equalityI) (simp_all add: unmask_nth mask_payload_def)

section \<open>Frames as the protocol defines them\<close>

text \<open>A final frame of RFC 6455 with the given opcode, masked with a key or not masked.\<close>

definition len_field :: "nat \<Rightarrow> nat" where
  "len_field len = (if len \<le> 125 then len else if len \<le> 65535 then 126 else 127)"

definition len_ext :: "nat \<Rightarrow> string" where
  "len_ext len = (if len \<le> 125 then [] else if len \<le> 65535 then be_bytes 2 len else be_bytes 8 len)"

definition rfc_frame :: "string option \<Rightarrow> nat \<Rightarrow> string \<Rightarrow> string" where
  "rfc_frame key opcode p =
     char_of (128 + opcode) # char_of ((if key = None then 0 else 128) + len_field (length p)) # len_ext (length p) @
     (case key of None \<Rightarrow> p | Some k \<Rightarrow> k @ mask_payload k p)"

lemma len_field_less: "len_field len < 128"
  by (simp add: len_field_def)

lemma length_len_ext: "length (len_ext len) = (if len \<le> 125 then 0 else if len \<le> 65535 then 2 else 8)"
  by (simp add: len_ext_def)

lemma be_bytes_2: "be_bytes 2 v = [char_of (v div 256 mod 256), char_of (v mod 256)]"
  by (simp add: be_bytes_def numeral_2_eq_2)

lemma b1_fields:
  assumes "m < 128"
  shows "byte (char_of ((if mk then 128 else 0) + m)) AND 0x7F = m"
    "(drop_bit 7 (byte (char_of ((if mk then 128 else 0) + m))) AND 0x01 = 1) = mk"
  using assms by (auto simp: nat_and_masks drop_bit_eq_div)

text \<open>Of the header the parser needs the two bytes and the extended length.\<close>

lemma ws_length_frame:
  assumes "len < 2 ^ 64"
  shows "ws_length (b0 # char_of ((if mk then 128 else 0) + len_field len) # len_ext len @ rest) =
    Some (len, 2 + length (len_ext len))"
proof -
  have f: "byte (char_of ((if mk then 128 else 0) + len_field len)) AND 0x7F = len_field len"
    by (rule b1_fields(1) [OF len_field_less])
  consider "len \<le> 125" | "125 < len" "len \<le> 65535" | "65535 < len" by linarith
  then show ?thesis
  proof cases
    case 1
    with f show ?thesis by (simp add: ws_length_def len_field_def len_ext_def)
  next
    case 2
    have "push_bit 8 (len div 256 mod 256) OR len mod 256 = len div 256 mod 256 * 256 + len mod 256"
      using or_high_bit(1) [of "len mod 256" 8 "len div 256 mod 256"] by (simp add: push_bit_eq_mult ac_simps)
    also have "\<dots> = len" using 2(2) by (simp add: div_mod_decomp)
    finally show ?thesis using f 2 by (simp add: ws_length_def len_field_def len_ext_def be_bytes_2)
  next
    case 3
    have "be_nat (be_bytes 8 len) = len" using assms by (simp add: be_nat_be_bytes)
    then show ?thesis using f 3 by (simp add: ws_length_def len_field_def len_ext_def unat_shift_in)
  qed
qed


lemma ws_frame_reads:
  assumes "opcode < 16" "length p \<le> CSILK_WS_MAX_FRAME_PAYLOAD" "case key of None \<Rightarrow> True | Some k \<Rightarrow> length k = 4"
  shows "ws_frame al (rfc_frame key opcode p @ rest) =
    (case malloc al of (ok, al) \<Rightarrow> (if ok then Some (opcode, p) else None, al))"
proof -
  let ?mk = "key \<noteq> None" and ?len = "length p"
  define tl where "tl = (case key of None \<Rightarrow> p | Some k \<Rightarrow> k @ mask_payload k p) @ rest"
  have l: "?len < 2 ^ 64" using assms(2) by (simp add: CSILK_WS_MAX_FRAME_PAYLOAD_def)
  have buf: "rfc_frame key opcode p @ rest =
      char_of (128 + opcode) # char_of ((if ?mk then 128 else 0) + len_field ?len) # len_ext ?len @ tl" (is "_ = ?buf")
    by (simp add: rfc_frame_def tl_def)
  note wl = ws_length_frame [OF l, of "char_of (128 + opcode)" ?mk tl]
  have op: "byte (?buf ! 0) AND 0x0F = opcode" using assms(1) by (simp add: nat_and_masks) presburger
  have mk: "(drop_bit 7 (byte (?buf ! 1)) AND 0x01 = 1) = ?mk" using b1_fields(2) [OF len_field_less] by simp
  have lim: "\<not> CSILK_WS_MAX_FRAME_PAYLOAD < ?len" "\<not> SIZE_MAX - offset - 1 < ?len" if "offset \<le> 14" for offset
    using assms(2) that by (auto simp: CSILK_WS_MAX_FRAME_PAYLOAD_def SIZE_MAX_def)
  have ext: "length (len_ext ?len) \<le> 8" by (simp add: length_len_ext)
  show ?thesis
  proof (cases key)
    case None
    have "drop (2 + length (len_ext ?len)) ?buf = p @ rest" using None by (simp add: tl_def)
    moreover have "\<not> length ?buf < 2 + length (len_ext ?len) + ?len" using None by (simp add: tl_def)
    ultimately show ?thesis
      unfolding buf using None wl op mk lim(1) [of 0] lim(2) [of "2 + length (len_ext ?len)"] ext
      by (simp add: ws_frame_def Let_def split: prod.split del: nth_Cons_0)
  next
    case (Some k)
    then have k: "length k = 4" using assms(3) by simp
    have d: "drop (2 + length (len_ext ?len)) ?buf = k @ mask_payload k p @ rest" using Some by (simp add: tl_def)
    then have d2: "drop (2 + length (len_ext ?len) + 4) ?buf = mask_payload k p @ rest"
      by (metis add.commute append_eq_conv_conj drop_drop k)
    have "\<not> length ?buf < 2 + length (len_ext ?len) + 4 + ?len" "\<not> length ?buf < 2 + length (len_ext ?len) + 4"
      using Some k by (simp_all add: tl_def)
    then show ?thesis
      unfolding buf using Some wl op mk lim(1) [of 0] lim(2) [of "2 + length (len_ext ?len) + 4"] ext d d2 k
      by (simp add: ws_frame_def Let_def unmask_mask_payload split: prod.split del: nth_Cons_0)
  qed
qed




lemma length_ws_header: "length (ws_header len opcode) = ws_header_len len"
  by (simp add: ws_header_def ws_header_len_def Let_def)

section \<open>Properties\<close>




definition ws_demo :: ws_ctx where
  "ws_demo = \<lparr>internal_client = Some (client_alloc\<lparr>conn := CONN_STREAMING, tcp := H_ACTIVE\<rparr>), max_write_buffer_size = 0,
     write_high_water_mark = 0, write_paused = False, is_websocket = True, on_ws_send = False, on_ws_message = True,
     observed = [], messages = [], wire = []\<rparr>"

definition io_ok :: ws_io where
  "io_ok = \<lparr>queue_before = 0, queue_after = 0, write_result = 0, pool_room = True\<rparr>"




lemma ws_write_ok:
  assumes "0 \<le> write_result io" "length frame < 2 ^ 32"
  shows "ws_write io frame cl = (client_pending_io_inc (csilk_client_ref cl), [frame], True)"
  using assms by (simp add: ws_write_def)



text \<open>A frame of \<open>2 ^ 32\<close> bytes or rest is announced in full but cut to its length modulo \<open>2 ^ 32\<close>.\<close>
lemma ws_send_cuts_huge_frame:
  assumes "internal_client c = Some cl" "max_write_buffer_size c = 0" "0 \<le> write_result io" "write_high_water_mark c = 0"
    "length p = 2 ^ 32"
  shows "\<exists>c' frame. csilk_ws_send [] io c p opcode = (1, c', []) \<and> wire c' = wire c @ [frame] \<and> length frame = 10"
proof -
  have h: "ws_header_len 4294967296 = 10" by (simp add: ws_header_len_def)
  have "length (ws_header (2 ^ 32) opcode @ p) mod 2 ^ 32 = 10"
    using assms(5) by (simp add: length_ws_header h)
  then show ?thesis
    using assms by (simp add: csilk_ws_send_def ws_write_def Let_def SIZE_MAX_def h length_ws_header)
qed

text \<open>
  A close frame of the client is answered with a close frame of the same code and the handle is
  closed without \<open>on_close\<close>: the event of \<open>Conn_Life\<close> that strands the connection.
\<close>
lemma ws_close_frame_echo:
  assumes "internal_client c = Some cl" "tcp cl \<noteq> H_CLOSING" "0 \<le> write_result io" "length key = 4"
    "length p \<le> 125" "0 < close_code p"
    "on_read_websocket [] io c (rfc_frame (Some key) 8 p) = (c', al')"
  shows "wire c' = wire c @ [char_of (0x88 :: nat) # char_of (2 :: nat) # ws_close_payload (close_code p) None] \<and>
    (\<exists>cl'. internal_client c' = Some cl' \<and> tcp cl' = H_CLOSING \<and> \<not> close_cb cl')"
proof -
  have f: "ws_frame [] (rfc_frame (Some key) 8 p) = (Some (8, p), [])"
    using ws_frame_reads [of 8 p "Some key" "[]" "[]"] assms(4,5) by (simp add: CSILK_WS_MAX_FRAME_PAYLOAD_def)
  have w: "ws_write io (char_of (0x88 :: nat) # char_of (2 :: nat) # ws_close_payload (close_code p) None) x =
      (client_pending_io_inc (csilk_client_ref x), [char_of (0x88 :: nat) # char_of (2 :: nat) # ws_close_payload (close_code p) None], True)"
    for x using assms(3) by (intro ws_write_ok) (simp_all add: ws_close_payload_def)
  show ?thesis
    using assms(1,2,6,7) f w
    by (auto simp: on_read_websocket_def csilk_ws_parse_frame_def csilk_ws_close_def Let_def ws_close_echo_def
        io_close_def client_pending_io_inc_def csilk_client_ref_def set_conn_def simp flip: numeral_2_eq_2)
qed

text \<open>Without a status the reserved code 1005 is sent, which RFC 6455 forbids in a close frame.\<close>
lemma ws_close_without_status_sends_1005:
  "wire (fst (on_read_websocket [] io_ok ws_demo (rfc_frame (Some ''abcd'') 8 []))) =
     [[char_of (0x88 :: nat), char_of (2 :: nat), char_of (3 :: nat), char_of (237 :: nat)]]"
proof -
  have f: "ws_frame [] (rfc_frame (Some ''abcd'') 8 []) = (Some (8, []), [])"
    using ws_frame_reads [of 8 "[]" "Some ''abcd''" "[]" "[]"] by (simp add: CSILK_WS_MAX_FRAME_PAYLOAD_def)
  show ?thesis
    by (simp add: on_read_websocket_def csilk_ws_parse_frame_def f csilk_ws_close_def ws_demo_def ws_write_def io_ok_def
        close_code_def ws_close_payload_def Let_def)
qed

text \<open>The accept key fits its buffer of 32 bytes, and a client key of rest than 219 bytes is hashed cut off.\<close>
lemma ws_handshake_answer:
  assumes "\<And>s. length (sha1 s) = 20"
  shows "csilk_ws_handshake sha1 (Some key) c =
      (101, [(''Upgrade'', ''websocket''), (''Connection'', ''Upgrade''),
         (''Sec-WebSocket-Accept'', csilk_base64_encode (sha1 (take 255 (key @ WS_GUID))))],
       c\<lparr>is_websocket := True, internal_client := map_option (set_conn CONN_STREAMING) (internal_client c)\<rparr>)"
    "length (csilk_base64_encode (sha1 s)) + 1 \<le> 32"
  using assms by (simp_all add: csilk_ws_handshake_def snprintf_s_def Let_def encode_eq length_enc_pad [simplified])

end
