(* ===== verification/Arena.thy ===== *)
theory Arena
  imports Csilk_Prelude "HOL-Library.Multiset"
begin

text \<open>
  The arena (bump) allocator of \<open>core/primitives/arena.c\<close>: chunks obtained from the system or from
  the thread-local free lists, the bump pointer, reset and free, for any number of arenas of one
  thread. Addresses are natural numbers and the arithmetic of \<open>size_t\<close> and \<open>uintptr_t\<close> is written
  out modulo \<open>2 ^ 64\<close>; the address 0 is NULL. The debug build with red zones is not modelled.

  \<^item> The system allocator (\<open>posix_memalign\<close>) answers from a list of addresses: the next address is
    the result if it can be one, that is, if it is a multiple of 64 and the region lies in the user
    half of the address space and overlaps no region in use; otherwise the allocation fails.
  \<^item> \<open>handed\<close> records the blocks that were returned to the callers and not given up by a reset or a
    free of their arena.
\<close>

definition SIZE_LIMIT :: nat where
  "SIZE_LIMIT = 2 ^ 64"

definition round_up :: "nat \<Rightarrow> nat \<Rightarrow> nat" where
  "round_up k n = (n + (k - 1)) div k * k"

text \<open>The difference of two values of \<open>size_t\<close>.\<close>

definition size_sub :: "nat \<Rightarrow> nat \<Rightarrow> nat" where
  "size_sub x y = (x + (SIZE_LIMIT - y)) mod SIZE_LIMIT"

text \<open>\<open>sizeof(csilk_arena_chunk_t)\<close>: the header is padded to a cache line.\<close>

definition CHUNK_HEADER :: nat where
  "CHUNK_HEADER = 64"

record chunk =
  cdata :: nat
  csize :: nat
  cused :: nat

record arena =
  self :: nat
  ptr :: nat
  end_ptr :: nat
  chunks :: "chunk list"
  default_chunk_size :: nat
  max_total_bytes :: nat
  total_allocated :: nat
  align_64 :: bool

record sys =
  tls_tiers :: "chunk list list"
  regions :: "(nat \<times> nat) list"
  answers :: "nat list"

section \<open>The system\<close>

definition disjoint_regions :: "nat \<times> nat \<Rightarrow> nat \<times> nat \<Rightarrow> bool" where
  "disjoint_regions r s \<longleftrightarrow> fst r + snd r \<le> fst s \<or> fst s + snd s \<le> fst r"

definition posix_memalign :: "nat \<Rightarrow> sys \<Rightarrow> nat option \<times> sys" where
  "posix_memalign n s =
     (case answers s of
        [] \<Rightarrow> (None, s)
      | a # as \<Rightarrow>
          (if 0 < a \<and> a mod 64 = 0 \<and> a + n \<le> 2 ^ 47 \<and> list_all (disjoint_regions (a, n)) (regions s)
           then (Some a, s\<lparr>answers := as, regions := (a, n) # regions s\<rparr>)
           else (None, s\<lparr>answers := as\<rparr>)))"

definition arena_aligned_alloc :: "nat \<Rightarrow> sys \<Rightarrow> nat option \<times> sys" where
  "arena_aligned_alloc n s =
     (if SIZE_LIMIT - 1 - (64 - 1) < n then (None, s)
      else posix_memalign (round_up 64 n) s)"

definition sys_free :: "nat \<Rightarrow> sys \<Rightarrow> sys" where
  "sys_free a s = s\<lparr>regions := filter (\<lambda>r. fst r \<noteq> a) (regions s)\<rparr>"

text \<open>Freeing a chunk: its region starts with the header.\<close>

definition free_chunk :: "chunk \<Rightarrow> sys \<Rightarrow> sys" where
  "free_chunk c s = sys_free (cdata c - CHUNK_HEADER) s"

section \<open>The thread-local free lists\<close>

definition tier_sizes :: "nat list" where
  "tier_sizes = [4096, 16384, 65536]"

definition arena_size_to_tier :: "nat \<Rightarrow> nat option" where
  "arena_size_to_tier n =
     (if n = 4096 then Some 0 else if n = 16384 then Some 1 else if n = 65536 then Some 2 else None)"

definition MAX_TLS_CHUNKS_PER_TIER :: nat where
  "MAX_TLS_CHUNKS_PER_TIER = 8"

definition CSILK_MAX_TLS_CHUNKS :: nat where
  "CSILK_MAX_TLS_CHUNKS = 16"

definition arena_get_total_tls_chunk_count :: "sys \<Rightarrow> nat" where
  "arena_get_total_tls_chunk_count s = sum_list (map length (tls_tiers s))"

text \<open>Giving a chunk back: to the free list of its tier if there is room, else to the system.\<close>

definition release_chunk :: "chunk \<Rightarrow> sys \<Rightarrow> sys" where
  "release_chunk c s =
     (case arena_size_to_tier (csize c) of
        Some t \<Rightarrow>
          (if length (tls_tiers s ! t) < MAX_TLS_CHUNKS_PER_TIER \<and>
              arena_get_total_tls_chunk_count s < CSILK_MAX_TLS_CHUNKS
           then s\<lparr>tls_tiers := (tls_tiers s)[t := c\<lparr>cused := 0\<rparr> # tls_tiers s ! t]\<rparr>
           else free_chunk c s)
      | None \<Rightarrow> free_chunk c s)"

definition csilk_arena_flush_free_list :: "sys \<Rightarrow> sys" where
  "csilk_arena_flush_free_list s =
     (fold free_chunk (concat (tls_tiers s)) s)\<lparr>tls_tiers := replicate 3 []\<rparr>"

section \<open>Arenas\<close>

text \<open>\<open>self\<close> is the address of the arena structure, of one cache line.\<close>

definition csilk_arena_new :: "nat \<Rightarrow> sys \<Rightarrow> arena option \<times> sys" where
  "csilk_arena_new n s =
     (case arena_aligned_alloc 64 s of
        (None, s) \<Rightarrow> (None, s)
      | (Some p, s) \<Rightarrow>
          (Some \<lparr>self = p, ptr = 0, end_ptr = 0, chunks = [], default_chunk_size = (if 0 < n then n else 4096),
             max_total_bytes = 0, total_allocated = 0, align_64 = False\<rparr>, s))"

definition csilk_arena_set_alignment :: "bool \<Rightarrow> arena \<Rightarrow> arena" where
  "csilk_arena_set_alignment enabled a = a\<lparr>align_64 := enabled\<rparr>"

definition csilk_arena_set_max_bytes :: "nat \<Rightarrow> arena \<Rightarrow> arena" where
  "csilk_arena_set_max_bytes max_bytes a = a\<lparr>max_total_bytes := max_bytes, total_allocated := 0\<rparr>"

text \<open>\<open>arena->head->used = arena->ptr - arena->head->data\<close>.\<close>

definition save_used :: "arena \<Rightarrow> arena" where
  "save_used a =
     (case chunks a of
        [] \<Rightarrow> a
      | c # cs \<Rightarrow> (if ptr a = 0 then a else a\<lparr>chunks := c\<lparr>cused := ptr a - cdata c\<rparr> # cs\<rparr>))"

text \<open>A chunk for \<open>chunk_size\<close> bytes: from the free list of the tier, or from the system.\<close>

definition take_chunk :: "nat \<Rightarrow> sys \<Rightarrow> chunk option \<times> sys" where
  "take_chunk chunk_size s =
     (case arena_size_to_tier chunk_size of
        Some t \<Rightarrow>
          (case tls_tiers s ! t of
             c # cs \<Rightarrow> (Some (c\<lparr>csize := chunk_size\<rparr>), s\<lparr>tls_tiers := (tls_tiers s)[t := cs]\<rparr>)
           | [] \<Rightarrow>
               (case arena_aligned_alloc (CHUNK_HEADER + chunk_size) s of
                  (None, s) \<Rightarrow> (None, s)
                | (Some a, s) \<Rightarrow> (Some \<lparr>cdata = a + CHUNK_HEADER, csize = chunk_size, cused = 0\<rparr>, s)))
      | None \<Rightarrow>
          (case arena_aligned_alloc (CHUNK_HEADER + chunk_size) s of
             (None, s) \<Rightarrow> (None, s)
           | (Some a, s) \<Rightarrow> (Some \<lparr>cdata = a + CHUNK_HEADER, csize = chunk_size, cused = 0\<rparr>, s)))"

definition arena_alloc_slow :: "arena \<Rightarrow> nat \<Rightarrow> nat \<Rightarrow> sys \<Rightarrow> nat \<times> arena \<times> sys" where
  "arena_alloc_slow a n alignment s =
     (if SIZE_LIMIT - 1 - (alignment - 1) < n then (0, a, s)
      else let aligned_size = round_up alignment n;
               a = save_used a;
               chunk_size = (if default_chunk_size a < aligned_size then aligned_size else default_chunk_size a);
               chunk_size = (if 8 < alignment \<and> chunk_size < aligned_size \<and> chunk_size \<le> SIZE_LIMIT - 1 - alignment
                             then aligned_size + alignment else chunk_size)
      in if SIZE_LIMIT - 1 - CHUNK_HEADER < chunk_size then (0, a, s)
         else if 0 < max_total_bytes a \<and>
                 size_sub (max_total_bytes a) (total_allocated a) < chunk_size then (0, a, s)
         else case take_chunk chunk_size s of
                (None, s) \<Rightarrow> (0, a, s)
              | (Some c, s) \<Rightarrow>
                  if SIZE_LIMIT - 1 - total_allocated a < chunk_size then (0, a, release_chunk c s)
                  else let aligned_base = round_up alignment (cdata c);
                           p = aligned_base + aligned_size;
                           c = c\<lparr>cused := p - cdata c\<rparr>
                       in (aligned_base,
                           a\<lparr>chunks := c # chunks a, total_allocated := total_allocated a + chunk_size,
                             ptr := p, end_ptr := cdata c + chunk_size\<rparr>, s))"

text \<open>The result 1 of an empty request is no address: nothing may be stored there.\<close>

definition csilk_arena_alloc :: "arena \<Rightarrow> nat \<Rightarrow> sys \<Rightarrow> nat \<times> arena \<times> sys" where
  "csilk_arena_alloc a n s =
     (if n = 0 then (1, a, s)
      else if \<not> align_64 a
      then (if SIZE_LIMIT - 1 - 7 < n then (0, a, s)
            else let aligned_size = round_up 8 n;
                     cur = ptr a;
                     nxt = (cur + aligned_size) mod SIZE_LIMIT
                 in if nxt \<le> end_ptr a \<and> cur \<noteq> 0 then (cur, a\<lparr>ptr := nxt\<rparr>, s)
                    else arena_alloc_slow a n 8 s)
      else (if SIZE_LIMIT - 1 - 63 < n then (0, a, s)
            else let aligned_size = round_up 64 n;
                     cur = ptr a;
                     aligned_cur = round_up 64 cur mod SIZE_LIMIT;
                     nxt = (aligned_cur + aligned_size) mod SIZE_LIMIT
                 in if nxt \<le> end_ptr a \<and> cur \<noteq> 0 then (aligned_cur, a\<lparr>ptr := nxt\<rparr>, s)
                    else arena_alloc_slow a n 64 s))"

definition csilk_arena_calloc :: "arena \<Rightarrow> nat \<Rightarrow> nat \<Rightarrow> sys \<Rightarrow> nat \<times> arena \<times> sys" where
  "csilk_arena_calloc a cnt n s =
     (if 0 < cnt \<and> (SIZE_LIMIT - 1) div cnt < n then (0, a, s)
      else csilk_arena_alloc a (cnt * n) s)"

fun release_all :: "chunk list \<Rightarrow> sys \<Rightarrow> sys" where
  "release_all [] s = s"
| "release_all (c # cs) s = release_all cs (release_chunk c s)"

definition csilk_arena_free :: "arena \<Rightarrow> sys \<Rightarrow> sys" where
  "csilk_arena_free a s = sys_free (self a) (release_all (chunks (save_used a)) s)"

definition csilk_arena_reset :: "arena \<Rightarrow> sys \<Rightarrow> arena \<times> sys" where
  "csilk_arena_reset a s =
     (case chunks a of
        h # cs \<Rightarrow>
          (a\<lparr>chunks := [h\<lparr>cused := 0\<rparr>], ptr := cdata h, end_ptr := cdata h + csize h, total_allocated := csize h\<rparr>,
           release_all cs s)
      | [] \<Rightarrow> (a\<lparr>ptr := 0, end_ptr := 0, total_allocated := 0\<rparr>, s))"

fun sum_saturated :: "nat list \<Rightarrow> nat \<Rightarrow> nat" where
  "sum_saturated [] t = t"
| "sum_saturated (n # ns) t = sum_saturated ns (if SIZE_LIMIT - 1 - t < n then SIZE_LIMIT - 1 else t + n)"

definition csilk_arena_get_stats :: "arena \<Rightarrow> nat \<times> nat" where
  "csilk_arena_get_stats a =
     (sum_saturated (map csize (chunks (save_used a))) 0, sum_saturated (map cused (chunks (save_used a))) 0)"

definition csilk_arena_contains :: "arena \<Rightarrow> nat \<Rightarrow> bool" where
  "csilk_arena_contains a p \<longleftrightarrow> p \<noteq> 0 \<and> list_ex (\<lambda>ch. cdata ch \<le> p \<and> p < cdata ch + csize ch) (chunks a)"

section \<open>A program that uses arenas\<close>

record world =
  arenas :: "arena option list"
  system :: sys
  handed :: "(nat \<times> nat \<times> nat) list"

datatype arena_op = New nat | Alloc nat nat | Set_Alignment nat bool | Set_Max nat nat | Reset nat | Free nat | Flush

text \<open>\<open>on_arena i f w\<close>: apply \<open>f\<close> to the arena \<open>i\<close>, if there is one.\<close>

definition on_arena :: "nat \<Rightarrow> (arena \<Rightarrow> world) \<Rightarrow> world \<Rightarrow> world" where
  "on_arena i f w = (if i < length (arenas w) then case arenas w ! i of None \<Rightarrow> w | Some a \<Rightarrow> f a else w)"

definition give_up :: "nat \<Rightarrow> (nat \<times> nat \<times> nat) list \<Rightarrow> (nat \<times> nat \<times> nat) list" where
  "give_up i bs = filter (\<lambda>b. fst b \<noteq> i) bs"

fun arena_step :: "arena_op \<Rightarrow> world \<Rightarrow> world" where
  "arena_step (New n) w =
     (case csilk_arena_new n (system w) of (a, s) \<Rightarrow> w\<lparr>arenas := arenas w @ [a], system := s\<rparr>)"
| "arena_step (Alloc i n) w = on_arena i (\<lambda>a.
     case csilk_arena_alloc a n (system w) of (p, a', s) \<Rightarrow>
       w\<lparr>arenas := (arenas w)[i := Some a'], system := s,
         handed := (if n = 0 \<or> p = 0 then handed w else (i, p, n) # handed w)\<rparr>) w"
| "arena_step (Set_Alignment i b) w = on_arena i (\<lambda>a.
     w\<lparr>arenas := (arenas w)[i := Some (csilk_arena_set_alignment b a)]\<rparr>) w"
| "arena_step (Set_Max i n) w = on_arena i (\<lambda>a.
     w\<lparr>arenas := (arenas w)[i := Some (csilk_arena_set_max_bytes n a)]\<rparr>) w"
| "arena_step (Reset i) w = on_arena i (\<lambda>a.
     case csilk_arena_reset a (system w) of (a', s) \<Rightarrow>
       w\<lparr>arenas := (arenas w)[i := Some a'], system := s, handed := give_up i (handed w)\<rparr>) w"
| "arena_step (Free i) w = on_arena i (\<lambda>a.
     w\<lparr>arenas := (arenas w)[i := None], system := csilk_arena_free a (system w), handed := give_up i (handed w)\<rparr>) w"
| "arena_step Flush w = w\<lparr>system := csilk_arena_flush_free_list (system w)\<rparr>"

definition no_arenas :: "nat list \<Rightarrow> world" where
  "no_arenas as = \<lparr>arenas = [], system = \<lparr>tls_tiers = [[], [], []], regions = [], answers = as\<rparr>, handed = []\<rparr>"

definition arena_run :: "nat list \<Rightarrow> arena_op list \<Rightarrow> world" where
  "arena_run as ops = fold arena_step ops (no_arenas as)"

section \<open>Regions and chunks\<close>

lemma round_up_bounds:
  assumes "0 < k"
  shows "n \<le> round_up k n" "round_up k n < n + k"
proof -
  have e: "round_up k n + (n + (k - 1)) mod k = n + (k - 1)"
    unfolding round_up_def by (rule div_mult_mod_eq)
  have "(n + (k - 1)) mod k < k" using assms by simp
  with e assms show "n \<le> round_up k n" "round_up k n < n + k" by linarith+
qed

lemma round_up_mod [simp]: "round_up k n mod k = 0"
  by (simp add: round_up_def)

lemma round_up_id:
  assumes "0 < k" "n mod k = 0"
  shows "round_up k n = n"
proof -
  obtain m where m: "n = k * m" using assms(2) by (auto simp: mod_eq_0_iff_dvd elim: dvdE)
  obtain q where q: "round_up k n = k * q" by (metis round_up_def mult.commute)
  have "k * m \<le> k * q" "k * q < k * (m + 1)" using round_up_bounds [OF assms(1), of n] m q by simp_all
  then have "m \<le> q" "q < m + 1" using assms(1) by (metis mult_le_cancel1, metis mult_less_cancel1)
  then show ?thesis using m q by simp
qed

abbreviation span :: "chunk \<Rightarrow> nat \<times> nat" where
  "span c \<equiv> (cdata c, csize c)"

text \<open>A span of bytes that is the data of a chunk of some region in use.\<close>

definition good_span :: "(nat \<times> nat) list \<Rightarrow> nat \<times> nat \<Rightarrow> bool" where
  "good_span rs d \<longleftrightarrow> (\<exists>r \<in> set rs. fst d = fst r + CHUNK_HEADER \<and> CHUNK_HEADER + snd d \<le> snd r)"

definition good_regions :: "(nat \<times> nat) list \<Rightarrow> bool" where
  "good_regions rs \<longleftrightarrow> sorted_wrt disjoint_regions rs \<and>
     list_all (\<lambda>r. 0 < fst r \<and> fst r mod 64 = 0 \<and> 0 < snd r \<and> fst r + snd r \<le> 2 ^ 47) rs"

definition tls_ok :: "chunk list list \<Rightarrow> bool" where
  "tls_ok ts \<longleftrightarrow> length ts = 3 \<and> (\<forall>t < 3. \<forall>c \<in> set (ts ! t). csize c = tier_sizes ! t)"

text \<open>
  The system in order: \<open>hs\<close> are the addresses of the arena structures, \<open>ds\<close> the spans of the chunks
  of the arenas; together with the cached chunks they start at different regions in use.
\<close>

definition starts :: "nat list \<Rightarrow> (nat \<times> nat) list \<Rightarrow> sys \<Rightarrow> nat list" where
  "starts hs ds s = hs @ map (\<lambda>d. fst d - CHUNK_HEADER) (ds @ map span (concat (tls_tiers s)))"

definition sys_inv :: "sys \<Rightarrow> nat list \<Rightarrow> (nat \<times> nat) list \<Rightarrow> bool" where
  "sys_inv s hs ds \<longleftrightarrow> good_regions (regions s) \<and> tls_ok (tls_tiers s) \<and> distinct (starts hs ds s) \<and>
     set hs \<subseteq> fst ` set (regions s) \<and> list_all (good_span (regions s)) (ds @ map span (concat (tls_tiers s)))"

lemma sys_inv_perm:
  assumes "sys_inv s hs ds" "mset hs = mset hs'" "mset ds = mset ds'"
  shows "sys_inv s hs' ds'"
proof -
  have "mset (starts hs ds s) = mset (starts hs' ds' s)" using assms(2,3) by (simp add: starts_def)
  then have "distinct (starts hs ds s) = distinct (starts hs' ds' s)" by (metis mset_eq_imp_distinct_iff)
  moreover have "set hs = set hs'" "set ds = set ds'" using assms(2,3) by (metis set_mset_mset)+
  ultimately show ?thesis using assms(1) by (simp add: sys_inv_def list_all_iff)
qed

lemma disjoint_regions_sym: "disjoint_regions r s = disjoint_regions s r"
  by (auto simp: disjoint_regions_def)

lemma good_region_start:
  assumes "good_regions rs" "r \<in> set rs" "r' \<in> set rs" "fst r = fst r'"
  shows "r = r'"
proof (rule ccontr)
  assume "r \<noteq> r'"
  then obtain i j where "i < length rs" "j < length rs" "rs ! i = r" "rs ! j = r'" "i \<noteq> j"
    using assms(2,3) by (metis in_set_conv_nth)
  then have "disjoint_regions r r'"
    using assms(1) disjoint_regions_sym by (metis good_regions_def linorder_neqE_nat sorted_wrt_nth_less)
  then show False using assms by (auto simp: disjoint_regions_def good_regions_def list_all_iff)
qed

lemma good_regions_disjoint:
  assumes "good_regions rs" "r \<in> set rs" "r' \<in> set rs" "fst r \<noteq> fst r'"
  shows "disjoint_regions r r'"
proof -
  obtain i j where "i < length rs" "j < length rs" "rs ! i = r" "rs ! j = r'" "i \<noteq> j"
    using assms(2-4) by (metis in_set_conv_nth)
  then show ?thesis
    using assms(1) disjoint_regions_sym by (metis good_regions_def linorder_neqE_nat sorted_wrt_nth_less)
qed

lemma good_regions_filter: "good_regions rs \<Longrightarrow> good_regions (filter P rs)"
  by (auto simp: good_regions_def list_all_iff sorted_wrt_filter)

lemma spans_disjoint:
  assumes "good_regions rs" "good_span rs d" "good_span rs e" "fst d - CHUNK_HEADER \<noteq> fst e - CHUNK_HEADER"
  shows "disjoint_regions d e"
proof -
  from assms(2,3) obtain r r' where r: "r \<in> set rs" "fst d = fst r + CHUNK_HEADER" "CHUNK_HEADER + snd d \<le> snd r"
    and r': "r' \<in> set rs" "fst e = fst r' + CHUNK_HEADER" "CHUNK_HEADER + snd e \<le> snd r'"
    by (auto simp: good_span_def)
  with good_regions_disjoint [OF assms(1) r(1) r'(1)] assms(4) show ?thesis
    by (auto simp: disjoint_regions_def)
qed

lemma memalign_regions:
  assumes "posix_memalign n s = (Some a, s')" "0 < n" "good_regions (regions s)"
  shows "regions s' = (a, n) # regions s" "tls_tiers s' = tls_tiers s" "good_regions (regions s')" "a \<notin> fst ` set (regions s)"
    "0 < a" "a mod 64 = 0"
proof -
  show r: "regions s' = (a, n) # regions s" and "tls_tiers s' = tls_tiers s" and "0 < a" "a mod 64 = 0"
    using assms(1) by (auto simp: posix_memalign_def split: list.splits if_splits)
  have d: "list_all (disjoint_regions (a, n)) (regions s)" "a + n \<le> 2 ^ 47"
    using assms(1) by (auto simp: posix_memalign_def split: list.splits if_splits)
  then show "good_regions (regions s')"
    using assms(2,3) r \<open>0 < a\<close> \<open>a mod 64 = 0\<close> by (auto simp: good_regions_def list_all_iff)
  show "a \<notin> fst ` set (regions s)"
    using d assms(2,3) by (fastforce simp: list_all_iff disjoint_regions_def good_regions_def)
qed

lemma good_span_Cons: "good_span rs d \<Longrightarrow> good_span (r # rs) d"
  by (auto simp: good_span_def)

lemma good_span_start: "good_span rs d \<Longrightarrow> fst d - CHUNK_HEADER \<in> fst ` set rs"
  by (force simp: good_span_def)

lemma starts_in_regions:
  assumes "sys_inv s hs ds"
  shows "set (starts hs ds s) \<subseteq> fst ` set (regions s)"
proof -
  have "fst d - CHUNK_HEADER \<in> fst ` set (regions s)" if "d \<in> set (ds @ map span (concat (tls_tiers s)))" for d
    using assms that by (intro good_span_start) (auto simp: sys_inv_def list_all_iff simp del: set_append set_map)
  moreover have "set (starts hs ds s) =
      set hs \<union> (\<lambda>d. fst d - CHUNK_HEADER) ` set (ds @ map span (concat (tls_tiers s)))"
    by (simp only: starts_def set_append [of hs] set_map [of "\<lambda>d. fst d - CHUNK_HEADER"])
  ultimately show ?thesis using assms by (auto simp: sys_inv_def simp del: set_append set_map)
qed

lemma alloc_region:
  assumes inv: "sys_inv s hs ds" and alloc: "arena_aligned_alloc n s = (Some a, s')" and n: "0 < n"
  shows "sys_inv s' (a # hs) ds" "0 < a" "a mod 64 = 0"
    "n = CHUNK_HEADER + k \<Longrightarrow> sys_inv s' hs ((a + CHUNK_HEADER, k) # ds)"
proof -
  have al: "posix_memalign (round_up 64 n) s = (Some a, s')" and pos: "0 < round_up 64 n" and ge: "n \<le> round_up 64 n"
    using alloc n round_up_bounds(1) [of 64 n] by (auto simp: arena_aligned_alloc_def split: if_splits)
  have g: "good_regions (regions s)" using inv by (simp add: sys_inv_def)
  note r = memalign_regions [OF al pos g]
  show "0 < a" "a mod 64 = 0" using r by auto
  have fresh: "a \<notin> set (starts hs ds s)" using starts_in_regions [OF inv] r(4) by blast
  have st: "starts hs' ds' s' = starts hs' ds' s" for hs' ds' by (simp add: starts_def r(2))
  have sp: "list_all (good_span (regions s')) (ds @ map span (concat (tls_tiers s')))"
    using inv by (auto simp: sys_inv_def r(1,2) simp del: list.pred_map elim!: list.pred_mono_strong intro: good_span_Cons)
  show "sys_inv s' (a # hs) ds"
    using inv fresh r(3) sp by (auto simp: sys_inv_def st r(1,2)) (simp add: starts_def)
  show "sys_inv s' hs ((a + CHUNK_HEADER, k) # ds)" if "n = CHUNK_HEADER + k"
  proof -
    have "good_span (regions s') (a + CHUNK_HEADER, k)" using ge that by (simp add: r(1) good_span_def)
    moreover have "distinct (starts hs ((a + CHUNK_HEADER, k) # ds) s')"
      using inv fresh by (auto simp: st sys_inv_def) (auto simp: starts_def)
    moreover have "set hs \<subseteq> fst ` set (regions s')" using inv by (auto simp: sys_inv_def r(1))
    ultimately show ?thesis using inv sp r(3) by (simp add: sys_inv_def r(2))
  qed
qed

lemma sys_free_inv:
  assumes inv: "sys_inv s hs ds" and fresh: "a \<notin> set (starts hs ds s)"
  shows "sys_inv (sys_free a s) hs ds"
proof -
  have "good_span (regions (sys_free a s)) d" if "d \<in> set (ds @ map span (concat (tls_tiers s)))" for d
  proof -
    have "fst d - CHUNK_HEADER \<noteq> a" using that fresh by (force simp: starts_def)
    moreover have "good_span (regions s) d" using inv that by (auto simp: sys_inv_def list_all_iff)
    ultimately show ?thesis by (auto simp: good_span_def sys_free_def)
  qed
  moreover have "set hs \<subseteq> fst ` set (regions (sys_free a s))"
    using inv fresh by (auto simp: sys_inv_def sys_free_def starts_def image_iff)
  ultimately show ?thesis
    using inv by (auto simp: sys_inv_def list_all_iff good_regions_filter starts_def sys_free_def)
qed

lemma sys_inv_move:
  assumes "sys_inv s hs ds" "regions s' = regions s" "tls_ok (tls_tiers s')"
    "mset (ds' @ map span (concat (tls_tiers s'))) = mset (ds @ map span (concat (tls_tiers s)))"
  shows "sys_inv s' hs ds'"
proof -
  let ?xs = "ds @ map span (concat (tls_tiers s))" and ?ys = "ds' @ map span (concat (tls_tiers s'))"
  have "mset (starts hs ds' s') = mset (starts hs ds s)"
    unfolding starts_def mset_append [of hs] mset_map [of "\<lambda>d. fst d - CHUNK_HEADER"] assms(4) ..
  then have "distinct (starts hs ds' s') = distinct (starts hs ds s)" by (metis mset_eq_imp_distinct_iff)
  moreover have "set ?ys = set ?xs" using assms(4) by (metis set_mset_mset)
  ultimately show ?thesis using assms(1-3) unfolding sys_inv_def list_all_iff by simp
qed

lemma mset_concat_update:
  assumes "t < length ts"
  shows "mset (concat (ts[t := x # ts ! t])) = add_mset x (mset (concat ts))"
    "ts ! t = x # xs \<Longrightarrow> mset (concat ts) = add_mset x (mset (concat (ts[t := xs])))"
proof -
  have c: "mset (concat ts) = mset (concat (take t ts)) + mset (ts ! t) + mset (concat (drop (Suc t) ts))"
    using arg_cong [OF id_take_nth_drop [OF assms], of "\<lambda>x. mset (concat x)"] by (simp del: append_take_drop_id)
  have u: "mset (concat (ts[t := ys])) = mset (concat (take t ts)) + mset ys + mset (concat (drop (Suc t) ts))" for ys
    using assms by (simp add: upd_conv_take_nth_drop)
  show "mset (concat (ts[t := x # ts ! t])) = add_mset x (mset (concat ts))" by (simp add: u c)
  show "mset (concat ts) = add_mset x (mset (concat (ts[t := xs])))" if "ts ! t = x # xs" using that by (simp add: u c)
qed

lemma tier_of: "arena_size_to_tier n = Some t \<Longrightarrow> t < 3 \<and> n = tier_sizes ! t"
  by (auto simp: arena_size_to_tier_def tier_sizes_def split: if_splits)

lemma tls_ok_update:
  assumes "tls_ok ts" "t < 3" "\<And>c. c \<in> set cs \<Longrightarrow> csize c = tier_sizes ! t"
  shows "tls_ok (ts[t := cs])"
  using assms by (auto simp: tls_ok_def nth_list_update)

lemma free_chunk_inv:
  assumes "sys_inv s hs (span c # ds)"
  shows "sys_inv (free_chunk c s) hs ds"
proof -
  have "sys_inv s hs ds" "cdata c - CHUNK_HEADER \<notin> set (starts hs ds s)"
    using assms by (auto simp: sys_inv_def starts_def)
  then show ?thesis unfolding free_chunk_def by (rule sys_free_inv)
qed

lemma release_chunk_inv:
  assumes inv: "sys_inv s hs (span c # ds)"
  shows "sys_inv (release_chunk c s) hs ds"
proof (cases "arena_size_to_tier (csize c)")
  case None
  then show ?thesis using free_chunk_inv [OF inv] by (simp add: release_chunk_def)
next
  case (Some t)
  note t = tier_of [OF Some]
  let ?ts = "(tls_tiers s)[t := c\<lparr>cused := 0\<rparr> # tls_tiers s ! t]"
  have ok: "tls_ok (tls_tiers s)" using inv by (simp add: sys_inv_def)
  have "tls_ok ?ts" using ok t by (intro tls_ok_update) (auto simp: tls_ok_def)
  moreover have "t < length (tls_tiers s)" using ok t by (simp add: tls_ok_def)
  ultimately have "sys_inv (s\<lparr>tls_tiers := ?ts\<rparr>) hs ds"
    by (intro sys_inv_move [OF inv]) (simp_all add: mset_concat_update)
  then show ?thesis using Some free_chunk_inv [OF inv] by (simp add: release_chunk_def)
qed

lemma release_all_inv: "sys_inv s hs (map span cs @ ds) \<Longrightarrow> sys_inv (release_all cs s) hs ds"
  by (induction cs s rule: release_all.induct) (auto intro: release_chunk_inv)

lemma take_chunk_inv:
  assumes inv: "sys_inv s hs ds" and tk: "take_chunk n s = (r, s')"
  shows "case r of None \<Rightarrow> sys_inv s' hs ds | Some c \<Rightarrow> sys_inv s' hs (span c # ds) \<and> csize c = n"
proof -
  have fresh: "case r of None \<Rightarrow> sys_inv s' hs ds | Some c \<Rightarrow> sys_inv s' hs (span c # ds) \<and> csize c = n"
    if "(case arena_aligned_alloc (CHUNK_HEADER + n) s of (None, s) \<Rightarrow> (None, s)
         | (Some a, s) \<Rightarrow> (Some \<lparr>cdata = a + CHUNK_HEADER, csize = n, cused = 0\<rparr>, s)) = (r, s')"
  proof (cases "arena_aligned_alloc (CHUNK_HEADER + n) s")
    case (Pair ra s1)
    show ?thesis
    proof (cases ra)
      case None
      then have "regions s1 = regions s" "tls_tiers s1 = tls_tiers s"
        using Pair by (auto simp: arena_aligned_alloc_def posix_memalign_def split: if_splits list.splits)
      then have "sys_inv s1 hs ds" using inv by (simp add: sys_inv_def starts_def)
      then show ?thesis using that Pair None by auto
    next
      case (Some a)
      then show ?thesis
        using that Pair alloc_region(4) [OF inv, of "CHUNK_HEADER + n" a s1 n] by (auto simp: CHUNK_HEADER_def)
    qed
  qed
  show ?thesis
  proof (cases "arena_size_to_tier n")
    case None
    then show ?thesis using tk by (intro fresh) (simp add: take_chunk_def)
  next
    case (Some t)
    note t = tier_of [OF Some]
    have ok: "tls_ok (tls_tiers s)" using inv by (simp add: sys_inv_def)
    then have lt: "t < length (tls_tiers s)" using t by (simp add: tls_ok_def)
    show ?thesis
    proof (cases "tls_tiers s ! t")
      case Nil
      then show ?thesis using tk Some by (intro fresh) (simp add: take_chunk_def)
    next
      case (Cons c cs)
      then have r: "r = Some (c\<lparr>csize := n\<rparr>)" "s' = s\<lparr>tls_tiers := (tls_tiers s)[t := cs]\<rparr>"
        using tk Some by (simp_all add: take_chunk_def)
      have "csize c = n" using ok t Cons by (auto simp: tls_ok_def)
      moreover have "tls_ok ((tls_tiers s)[t := cs])" using ok t Cons by (intro tls_ok_update) (auto simp: tls_ok_def)
      ultimately show ?thesis
        using mset_concat_update(2) [OF lt Cons] r by (auto intro!: sys_inv_move [OF inv])
    qed
  qed
qed

lemma flush_inv:
  assumes "sys_inv s hs ds"
  shows "sys_inv (csilk_arena_flush_free_list s) hs ds"
proof -
  have "sys_inv ((fold free_chunk cs s)\<lparr>tls_tiers := replicate 3 []\<rparr>) hs ds"
    if "sys_inv (s\<lparr>tls_tiers := replicate 3 []\<rparr>) hs (map span cs @ ds)" for cs s
    using that
  proof (induction cs arbitrary: s)
    case (Cons c cs)
    have "free_chunk c (s\<lparr>tls_tiers := replicate 3 []\<rparr>) = (free_chunk c s)\<lparr>tls_tiers := replicate 3 []\<rparr>"
      by (simp add: free_chunk_def sys_free_def)
    then have "sys_inv ((free_chunk c s)\<lparr>tls_tiers := replicate 3 []\<rparr>) hs (map span cs @ ds)"
      using free_chunk_inv [of "s\<lparr>tls_tiers := replicate 3 []\<rparr>" hs c "map span cs @ ds"] Cons.prems by simp
    from Cons.IH [OF this] show ?case by simp
  qed simp
  moreover have "sys_inv (s\<lparr>tls_tiers := replicate 3 []\<rparr>) hs (map span (concat (tls_tiers s)) @ ds)"
    by (intro sys_inv_move [OF assms]) (simp_all add: tls_ok_def concat_replicate_trivial)
  ultimately show ?thesis by (simp add: csilk_arena_flush_free_list_def)
qed

section \<open>One arena\<close>

abbreviation spans :: "arena \<Rightarrow> (nat \<times> nat) list" where
  "spans a \<equiv> map span (chunks a)"

text \<open>The bump pointer lies in the first chunk.\<close>

definition arena_inv :: "arena \<Rightarrow> bool" where
  "arena_inv a \<longleftrightarrow> ptr a mod 8 = 0 \<and>
     (case spans a of
        [] \<Rightarrow> ptr a = 0 \<and> end_ptr a = 0
      | d # _ \<Rightarrow> fst d \<le> ptr a \<and> ptr a \<le> end_ptr a \<and> end_ptr a = fst d + snd d)"

lemma good_span_aligned:
  assumes "good_regions rs" "good_span rs d"
  shows "fst d mod 64 = 0" "0 < fst d" "fst d + snd d \<le> 2 ^ 47"
proof -
  obtain r where r: "r \<in> set rs" "fst d = fst r + 64" "64 + snd d \<le> snd r"
    using assms(2) by (auto simp: good_span_def CHUNK_HEADER_def)
  then have "fst r mod 64 = 0" "fst r + snd r \<le> 2 ^ 47" using assms(1) by (auto simp: good_regions_def list_all_iff)
  with r show "fst d mod 64 = 0" "0 < fst d" "fst d + snd d \<le> 2 ^ 47" by (simp_all add: mod_add_eq [symmetric])
qed

lemma sys_inv_span:
  assumes "sys_inv s hs ds" "d \<in> set ds"
  shows "fst d mod 64 = 0" "0 < fst d" "fst d + snd d \<le> 2 ^ 47"
  using assms good_span_aligned [of "regions s" d] by (auto simp: sys_inv_def list_all_iff)

lemma save_used_simps [simp]:
  "spans (save_used a) = spans a" "ptr (save_used a) = ptr a" "end_ptr (save_used a) = end_ptr a"
  "default_chunk_size (save_used a) = default_chunk_size a" "max_total_bytes (save_used a) = max_total_bytes a"
  "total_allocated (save_used a) = total_allocated a" "align_64 (save_used a) = align_64 a" "self (save_used a) = self a"
  by (auto simp: save_used_def split: list.split)

definition chunk_size_for :: "nat \<Rightarrow> nat \<Rightarrow> arena \<Rightarrow> nat" where
  "chunk_size_for alignment n a = max (default_chunk_size a) (round_up alignment n)"

text \<open>The slow path: no result and an unchanged arena, or the start of a new chunk.\<close>

lemma slow_cases:
  assumes "arena_alloc_slow a n alignment s = (p, a', s')" "sys_inv s hs (spans a @ ds)" "alignment = 8 \<or> alignment = 64"
  obtains (fail) "p = 0" "a' = a \<or> a' = save_used a" "sys_inv s' hs (spans a @ ds)"
  | (new) c where "p = cdata c" "chunks a' = c # chunks (save_used a)" "sys_inv s' hs (spans a' @ ds)"
      "csize c = chunk_size_for alignment n a" "ptr a' = cdata c + round_up alignment n"
      "end_ptr a' = cdata c + csize c" "self a' = self a" "align_64 a' = align_64 a"
      "max_total_bytes a' = max_total_bytes a" "default_chunk_size a' = default_chunk_size a"
      "total_allocated a' = total_allocated a + csize c"
      "\<not> (0 < max_total_bytes a \<and> size_sub (max_total_bytes a) (total_allocated a) < csize c)"
proof -
  let ?cs = "chunk_size_for alignment n a"
  obtain r s1 where tk: "take_chunk ?cs s = (r, s1)" by fastforce
  note inv1 = take_chunk_inv [OF assms(2) tk]
  have unfolded: "arena_alloc_slow a n alignment s =
     (if SIZE_LIMIT - 1 - (alignment - 1) < n then (0, a, s)
      else if SIZE_LIMIT - 1 - CHUNK_HEADER < ?cs then (0, save_used a, s)
      else if 0 < max_total_bytes a \<and> size_sub (max_total_bytes a) (total_allocated a) < ?cs
      then (0, save_used a, s)
      else case r of
             None \<Rightarrow> (0, save_used a, s1)
           | Some c \<Rightarrow>
               if SIZE_LIMIT - 1 - total_allocated a < ?cs then (0, save_used a, release_chunk c s1)
               else let p = round_up alignment (cdata c) + round_up alignment n in
                 (round_up alignment (cdata c),
                  (save_used a)\<lparr>chunks := c\<lparr>cused := p - cdata c\<rparr> # chunks (save_used a),
                    total_allocated := total_allocated a + ?cs, ptr := p, end_ptr := cdata c + ?cs\<rparr>, s1))"
  proof (cases "default_chunk_size a < round_up alignment n")
    case True
    then have "?cs = round_up alignment n" by (simp add: chunk_size_for_def)
    with True tk show ?thesis by (cases r) (simp_all add: arena_alloc_slow_def Let_def)
  next
    case False
    then have "?cs = default_chunk_size a" by (simp add: chunk_size_for_def)
    with False tk show ?thesis by (cases r) (simp_all add: arena_alloc_slow_def Let_def)
  qed
  let ?lim = "0 < max_total_bytes a \<and> size_sub (max_total_bytes a) (total_allocated a) < ?cs"
  let ?early = "SIZE_LIMIT - 1 - (alignment - 1) < n \<or> SIZE_LIMIT - 1 - CHUNK_HEADER < ?cs \<or> ?lim"
  consider "?early" | "\<not> ?early" "r = None" | c where "\<not> ?early" "r = Some c" "SIZE_LIMIT - 1 - total_allocated a < ?cs"
    | c where "\<not> ?early" "r = Some c" "\<not> SIZE_LIMIT - 1 - total_allocated a < ?cs"
    by (cases r) blast+
  then show thesis
  proof cases
    case 1
    with assms(1,2) unfolded fail show thesis by (auto split: if_splits)
  next
    case 2
    with assms(1) unfolded inv1 fail show thesis by (auto split: if_splits)
  next
    case (3 c)
    with inv1 have "sys_inv (release_chunk c s1) hs (spans a @ ds)" by (auto intro: release_chunk_inv)
    with 3 assms(1) unfolded fail show thesis by (auto split: if_splits)
  next
    case (4 c)
    then have c: "p = round_up alignment (cdata c)" "s' = s1"
      and a': "a' = (save_used a)\<lparr>chunks := c\<lparr>cused := p + round_up alignment n - cdata c\<rparr> # chunks (save_used a),
          total_allocated := total_allocated a + ?cs, ptr := p + round_up alignment n, end_ptr := cdata c + ?cs\<rparr>"
      using assms(1) unfolded by (auto simp: Let_def split: if_splits)
    have i1: "sys_inv s1 hs (span c # spans a @ ds)" "csize c = ?cs" using inv1 4(2) by auto
    have m: "cdata c mod 64 = 0" using sys_inv_span(1) [OF i1(1), of "span c"] by simp
    then have "cdata c mod 8 = 0" by presburger
    with m have "round_up alignment (cdata c) = cdata c" using assms(3) by (auto simp: round_up_id)
    then have p: "p = cdata c" using c(1) by simp
    show thesis
    proof (rule new [of "c\<lparr>cused := p + round_up alignment n - cdata c\<rparr>"])
      show "sys_inv s' hs (spans a' @ ds)" using i1(1) c(2) a' by simp
    qed (use p a' i1(2) 4(1) in simp_all)
  qed
qed

text \<open>What a successful or failing allocation does to one arena.\<close>

definition alloc_result :: "arena \<Rightarrow> nat \<Rightarrow> nat \<Rightarrow> arena \<Rightarrow> bool" where
  "alloc_result a n p a' \<longleftrightarrow> self a' = self a \<and> arena_inv a' \<and>
     (p = 0 \<and> spans a' = spans a \<and> ptr a' = ptr a \<or>
      0 < p \<and> p mod 8 = 0 \<and> (align_64 a \<longrightarrow> p mod 64 = 0) \<and> p + n \<le> ptr a' \<and>
      (spans a' = spans a \<and> ptr a \<le> p \<or> (\<exists>k. spans a' = (p, k) # spans a)))"

lemma arena_inv_save_used: "arena_inv (save_used a) = arena_inv a"
  by (simp add: arena_inv_def split: list.split)

lemma mod_8_of_64: "(x :: nat) mod 64 = 0 \<Longrightarrow> x mod 8 = 0"
  by presburger

lemma round_up_mod_8: "k = 8 \<or> k = 64 \<Longrightarrow> round_up k n mod 8 = 0"
  using round_up_mod [of k n] mod_8_of_64 by auto

lemma slow_result:
  assumes "arena_alloc_slow a n alignment s = (p, a', s')" "arena_inv a" "sys_inv s hs (spans a @ ds)"
    "alignment = 8 \<or> alignment = 64"
  shows "alloc_result a n p a' \<and> sys_inv s' hs (spans a' @ ds)"
  using assms(1,3,4)
proof (cases rule: slow_cases)
  case fail
  then show ?thesis using assms(2) by (auto simp: alloc_result_def arena_inv_save_used)
next
  case (new c)
  have c: "cdata c mod 64 = 0" "0 < cdata c" using sys_inv_span(1,2) [OF new(3), of "span c"] new(2) by simp_all
  have r: "n \<le> round_up alignment n" "round_up alignment n \<le> csize c"
    using round_up_bounds(1) [of alignment n] assms(4) new(4) by (auto simp: chunk_size_for_def)
  have "(cdata c + round_up alignment n) mod 8 = 0"
    using mod_8_of_64 [OF c(1)] round_up_mod_8 [OF assms(4), of n] by presburger
  moreover have "spans a' = span c # spans a" using new(2) by simp
  ultimately show ?thesis
    using new c r mod_8_of_64 [OF c(1)] by (simp add: alloc_result_def arena_inv_def)
qed

lemma fast_result:
  assumes "arena_inv a" "sys_inv s hs (spans a @ ds)" "ptr a \<noteq> 0" "n \<le> 2 ^ 63" "k = 8 \<or> k = 64"
    "align_64 a \<longrightarrow> k = 64" "cur = round_up k (ptr a)" "(cur + round_up k n) mod SIZE_LIMIT \<le> end_ptr a"
  shows "alloc_result a n cur (a\<lparr>ptr := (cur + round_up k n) mod SIZE_LIMIT\<rparr>)"
proof -
  obtain d ds' where d: "spans a = d # ds'" using assms(1,3) by (cases "spans a") (auto simp: arena_inv_def)
  then have p: "fst d \<le> ptr a" "ptr a \<le> end_ptr a" "end_ptr a = fst d + snd d" "ptr a mod 8 = 0"
    using assms(1) by (simp_all add: arena_inv_def)
  have "end_ptr a \<le> 2 ^ 47" using sys_inv_span(3) [OF assms(2), of d] d p(3) by simp
  moreover have "ptr a \<le> cur" "cur < ptr a + k" "n \<le> round_up k n" "round_up k n < n + k"
    using assms(5,7) round_up_bounds by auto
  ultimately have lt: "cur + round_up k n < SIZE_LIMIT" using p(2) assms(4,5) by (auto simp: SIZE_LIMIT_def)
  have "cur mod 8 = 0" "k = 64 \<longrightarrow> cur mod 64 = 0" using assms(5,7) round_up_mod_8 round_up_mod by auto
  moreover have "(cur + round_up k n) mod 8 = 0"
    using \<open>cur mod 8 = 0\<close> round_up_mod_8 [OF assms(5), of n] by presburger
  ultimately show ?thesis
    using lt assms(3,6,8) d p \<open>ptr a \<le> cur\<close> \<open>n \<le> round_up k n\<close> by (simp add: alloc_result_def arena_inv_def)
qed

lemma alloc_result_holds:
  assumes "csilk_arena_alloc a n s = (p, a', s')" "arena_inv a" "sys_inv s hs (spans a @ ds)" "0 < n" "n \<le> 2 ^ 63"
  shows "alloc_result a n p a' \<and> sys_inv s' hs (spans a' @ ds)"
proof -
  define k where "k = (if align_64 a then 64 else 8 :: nat)"
  define cur where "cur = round_up k (ptr a)"
  have k: "k = 8 \<or> k = 64" by (simp add: k_def)
  have lim: "\<not> SIZE_LIMIT - 1 - 7 < n" "\<not> SIZE_LIMIT - 1 - 63 < n" using assms(5) by (auto simp: SIZE_LIMIT_def)
  have below: "ptr a < SIZE_LIMIT - 64"
  proof (cases "spans a")
    case (Cons d ds')
    then have "ptr a \<le> fst d + snd d" using assms(2) by (simp add: arena_inv_def)
    also have "\<dots> \<le> 2 ^ 47" using sys_inv_span(3) [OF assms(3), of d] Cons by simp
    finally show ?thesis by (simp add: SIZE_LIMIT_def)
  qed (use assms(2) in \<open>simp add: arena_inv_def SIZE_LIMIT_def\<close>)
  have cur: "align_64 a \<Longrightarrow> round_up 64 (ptr a) mod SIZE_LIMIT = cur" "\<not> align_64 a \<Longrightarrow> ptr a = cur"
    using below round_up_bounds(2) [of 64 "ptr a"] assms(2) by (auto simp: cur_def k_def arena_inv_def round_up_id)
  have eq: "csilk_arena_alloc a n s =
      (if (cur + round_up k n) mod SIZE_LIMIT \<le> end_ptr a \<and> ptr a \<noteq> 0
       then (cur, a\<lparr>ptr := (cur + round_up k n) mod SIZE_LIMIT\<rparr>, s) else arena_alloc_slow a n k s)"
    using assms(4) lim cur by (simp add: csilk_arena_alloc_def k_def Let_def)
  show ?thesis
  proof (cases "(cur + round_up k n) mod SIZE_LIMIT \<le> end_ptr a \<and> ptr a \<noteq> 0")
    case True
    then have r: "p = cur" "a' = a\<lparr>ptr := (cur + round_up k n) mod SIZE_LIMIT\<rparr>" "s' = s" using assms(1) eq by auto
    have "alloc_result a n cur (a\<lparr>ptr := (cur + round_up k n) mod SIZE_LIMIT\<rparr>)"
      using True by (intro fast_result [OF assms(2,3) _ assms(5) k _ cur_def]) (auto simp: k_def)
    then show ?thesis using assms(3) r by simp
  next
    case False
    then have "arena_alloc_slow a n k s = (p, a', s')" using assms(1) eq by (auto split: if_splits)
    then show ?thesis by (rule slow_result [OF _ assms(2,3) k])
  qed
qed

section \<open>All arenas\<close>

definition in_span :: "nat \<times> nat \<Rightarrow> nat \<times> nat \<Rightarrow> bool" where
  "in_span d b \<longleftrightarrow> fst d \<le> fst b \<and> fst b + snd b \<le> fst d + snd d"

text \<open>A block of an arena: in one of its chunks, in the first one below the bump pointer.\<close>

definition block_in :: "arena \<Rightarrow> nat \<times> nat \<Rightarrow> bool" where
  "block_in a b \<longleftrightarrow> (\<exists>d \<in> set (spans a). in_span d b \<and> (d = hd (spans a) \<longrightarrow> fst b + snd b \<le> ptr a))"

lemma sys_inv_starts_differ:
  assumes "sys_inv s hs (xs @ ys)" "d \<in> set xs" "e \<in> set ys"
  shows "fst d - CHUNK_HEADER \<noteq> fst e - CHUNK_HEADER"
proof -
  let ?f = "\<lambda>d. fst d - CHUNK_HEADER"
  have "?f ` set xs \<inter> ?f ` set ys = {}" using assms(1) by (auto simp: sys_inv_def starts_def)
  then show ?thesis using assms(2,3) by blast
qed

lemma sys_inv_disjoint:
  assumes "sys_inv s hs (xs @ ys)" "d \<in> set xs" "e \<in> set ys"
  shows "disjoint_regions d e"
proof -
  have "good_span (regions s) d" "good_span (regions s) e" "good_regions (regions s)"
    using assms by (auto simp: sys_inv_def list_all_iff)
  with sys_inv_starts_differ [OF assms] show ?thesis by (intro spans_disjoint)
qed

lemma disjoint_in_spans:
  assumes "disjoint_regions d e" "in_span d b" "in_span e c"
  shows "disjoint_regions b c"
  using assms by (auto simp: disjoint_regions_def in_span_def)

text \<open>The new block lies in the first chunk.\<close>

lemma new_block_in:
  assumes "alloc_result a n p a'" "arena_inv a" "p \<noteq> 0"
  obtains d rest where "spans a' = d # rest" "in_span d (p, n)" "p + n \<le> ptr a'"
    "spans a = d # rest \<and> ptr a \<le> p \<or> spans a = rest"
proof -
  have r: "arena_inv a'" "p + n \<le> ptr a'" "spans a' = spans a \<and> ptr a \<le> p \<or> (\<exists>k. spans a' = (p, k) # spans a)"
    using assms(1,3) by (auto simp: alloc_result_def)
  have "spans a' \<noteq> []" using r assms(3) by (auto simp: arena_inv_def)
  then obtain d rest where d: "spans a' = d # rest" by (meson neq_Nil_conv)
  then have le: "ptr a' \<le> fst d + snd d" using r(1) by (simp add: arena_inv_def)
  have "fst d \<le> p" using r(3)
  proof
    assume "spans a' = spans a \<and> ptr a \<le> p"
    then show ?thesis using d assms(2) by (auto simp: arena_inv_def)
  next
    assume "\<exists>k. spans a' = (p, k) # spans a"
    then show ?thesis using d by auto
  qed
  then have "in_span d (p, n)" using le r(2) by (simp add: in_span_def)
  with that d r show thesis by auto
qed

lemma new_block_disjoint:
  assumes res: "alloc_result a n p a'" "arena_inv a" "p \<noteq> 0" and inv: "sys_inv s' hs (spans a' @ ds)"
    and old: "block_in a b \<or> (\<exists>d \<in> set ds. in_span d b)"
  shows "disjoint_regions (p, n) b"
proof -
  obtain d rest where d: "spans a' = d # rest" "in_span d (p, n)"
    and sp: "spans a = d # rest \<and> ptr a \<le> p \<or> spans a = rest"
    by (rule new_block_in [OF res])
  obtain e where e: "in_span e b" "e = d \<and> fst b + snd b \<le> p \<or> e \<in> set (rest @ ds)"
  proof -
    assume that: "\<And>e. in_span e b \<Longrightarrow> e = d \<and> fst b + snd b \<le> p \<or> e \<in> set (rest @ ds) \<Longrightarrow> thesis"
    from old show thesis
    proof
      assume "block_in a b"
      then obtain e where e: "e \<in> set (spans a)" "in_span e b" "e = hd (spans a) \<longrightarrow> fst b + snd b \<le> ptr a"
        unfolding block_in_def by blast
      show thesis using sp e by (intro that [OF e(2)]) auto
    next
      assume "\<exists>e \<in> set ds. in_span e b"
      then show thesis using that by auto
    qed
  qed
  from e(2) show ?thesis
  proof
    assume "e = d \<and> fst b + snd b \<le> p"
    then show ?thesis by (simp add: disjoint_regions_def)
  next
    assume "e \<in> set (rest @ ds)"
    then have "disjoint_regions d e" using inv d(1) sys_inv_disjoint [of s' hs "[d]" "rest @ ds"] by simp
    then show ?thesis using disjoint_in_spans d(2) e(1) by blast
  qed
qed

lemma block_in_keep:
  assumes "alloc_result a n p a'" "arena_inv a" "sys_inv s' hs (spans a' @ ds)" "block_in a b"
  shows "block_in a' b"
proof -
  obtain d where d: "d \<in> set (spans a)" "in_span d b" "d = hd (spans a) \<longrightarrow> fst b + snd b \<le> ptr a"
    using assms(4) unfolding block_in_def by blast
  have "spans a' = spans a \<and> ptr a \<le> ptr a' \<or> (\<exists>k. spans a' = (p, k) # spans a)"
    using assms(1) unfolding alloc_result_def by (elim conjE disjE) simp_all
  then show ?thesis
  proof
    assume same: "spans a' = spans a \<and> ptr a \<le> ptr a'"
    show ?thesis unfolding block_in_def by (rule bexI [of _ d]) (use d same in auto)
  next
    assume "\<exists>k. spans a' = (p, k) # spans a"
    then obtain k where k: "spans a' = (p, k) # spans a" ..
    have "d \<noteq> (p, k)" using sys_inv_starts_differ [of s' hs "[(p, k)]" "spans a @ ds" "(p, k)" d] assms(3) k d(1) by auto
    with d k show ?thesis unfolding block_in_def by (intro bexI [of _ d]) auto
  qed
qed

lemma block_in_new:
  assumes "alloc_result a n p a'" "arena_inv a" "p \<noteq> 0"
  shows "block_in a' (p, n)"
  by (rule new_block_in [OF assms]) (auto simp: block_in_def)

fun the_arenas :: "arena option list \<Rightarrow> arena list" where
  "the_arenas [] = []"
| "the_arenas (None # os) = the_arenas os"
| "the_arenas (Some a # os) = a # the_arenas os"

lemma the_arenas_append [simp]: "the_arenas (xs @ ys) = the_arenas xs @ the_arenas ys"
  by (induction xs rule: the_arenas.induct) simp_all

lemma the_arenas_mem: "a \<in> set (the_arenas os) \<longleftrightarrow> Some a \<in> set os"
  by (induction os rule: the_arenas.induct) auto

definition block_ok :: "arena option list \<Rightarrow> nat \<times> nat \<times> nat \<Rightarrow> bool" where
  "block_ok os x \<longleftrightarrow> (case x of (i, b) \<Rightarrow>
     i < length os \<and> 0 < snd b \<and> fst b mod 8 = 0 \<and> (\<exists>a. os ! i = Some a \<and> block_in a b))"

definition world_inv :: "world \<Rightarrow> bool" where
  "world_inv w \<longleftrightarrow>
     sys_inv (system w) (map self (the_arenas (arenas w))) (concat (map spans (the_arenas (arenas w)))) \<and>
     list_all arena_inv (the_arenas (arenas w)) \<and> list_all (block_ok (arenas w)) (handed w) \<and>
     sorted_wrt (\<lambda>x y. disjoint_regions (snd x) (snd y)) (handed w)"

text \<open>The arena at a position, and all the others.\<close>

lemma arena_at:
  assumes "i < length os" "os ! i = Some a"
  obtains xs ys where "the_arenas os = xs @ a # ys"
    "\<And>a'. the_arenas (os[i := Some a']) = xs @ a' # ys" "the_arenas (os[i := None]) = xs @ ys"
    "\<And>j a'. j < length os \<Longrightarrow> j \<noteq> i \<Longrightarrow> os ! j = Some a' \<Longrightarrow> a' \<in> set (xs @ ys)"
proof -
  let ?xs = "take i os" and ?ys = "drop (Suc i) os"
  have "os = ?xs @ os ! i # ?ys" using assms(1) by (rule id_take_nth_drop)
  then have "the_arenas os = the_arenas ?xs @ a # the_arenas ?ys"
    using assms(2) by (metis the_arenas.simps(3) the_arenas_append)
  moreover have "the_arenas (os[i := Some a']) = the_arenas ?xs @ a' # the_arenas ?ys" for a'
    using assms(1) by (simp add: upd_conv_take_nth_drop)
  moreover have "the_arenas (os[i := None]) = the_arenas ?xs @ the_arenas ?ys"
    using assms(1) by (simp add: upd_conv_take_nth_drop)
  moreover have "a' \<in> set (the_arenas ?xs @ the_arenas ?ys)" if j: "j < length os" "j \<noteq> i" "os ! j = Some a'" for j a'
  proof (cases "j < i")
    case True
    then have "Some a' \<in> set ?xs" using j by (metis assms(1) in_set_conv_nth length_take min.absorb4 nth_take)
    then show ?thesis by (simp add: the_arenas_mem)
  next
    case False
    then have "?ys ! (j - Suc i) = Some a'" "j - Suc i < length ?ys" using j by auto
    then have "Some a' \<in> set ?ys" by (metis nth_mem)
    then show ?thesis by (simp add: the_arenas_mem)
  qed
  ultimately show thesis by (rule that)
qed

lemma world_arena:
  assumes "world_inv w" "i < length (arenas w)" "arenas w ! i = Some a"
  obtains xs ys where "the_arenas (arenas w) = xs @ a # ys"
    "\<And>a'. the_arenas ((arenas w)[i := Some a']) = xs @ a' # ys" "the_arenas ((arenas w)[i := None]) = xs @ ys"
    "sys_inv (system w) (self a # map self (xs @ ys)) (spans a @ concat (map spans (xs @ ys)))"
    "arena_inv a" "list_all arena_inv (xs @ ys)"
    "\<And>j a'. j < length (arenas w) \<Longrightarrow> j \<noteq> i \<Longrightarrow> arenas w ! j = Some a' \<Longrightarrow> a' \<in> set (xs @ ys)"
proof -
  obtain xs ys where os: "the_arenas (arenas w) = xs @ a # ys"
    "\<And>a'. the_arenas ((arenas w)[i := Some a']) = xs @ a' # ys" "the_arenas ((arenas w)[i := None]) = xs @ ys"
    "\<And>j a'. j < length (arenas w) \<Longrightarrow> j \<noteq> i \<Longrightarrow> arenas w ! j = Some a' \<Longrightarrow> a' \<in> set (xs @ ys)"
    using arena_at [OF assms(2,3)] by blast
  have "sys_inv (system w) (self a # map self (xs @ ys)) (spans a @ concat (map spans (xs @ ys)))"
    using assms(1) os(1) by (auto simp: world_inv_def elim!: sys_inv_perm)
  with os assms(1) that show thesis by (simp add: world_inv_def)
qed

text \<open>An invariant system for an arena in front is one for the arena at its place.\<close>

lemma sys_inv_back:
  "sys_inv s (self a # map self (xs @ ys)) (spans a @ concat (map spans (xs @ ys))) \<Longrightarrow>
   sys_inv s (map self (xs @ a # ys)) (concat (map spans (xs @ a # ys)))"
  by (erule sys_inv_perm) simp_all

lemma block_ok_update:
  assumes "block_ok os (j, b)" "os ! i = Some a" "j = i \<Longrightarrow> block_in a b \<Longrightarrow> block_in a' b"
  shows "block_ok (os[i := Some a']) (j, b)"
  using assms by (cases "j = i") (auto simp: block_ok_def)

lemma alloc_world_inv:
  assumes inv: "world_inv w" and i: "i < length (arenas w)" "arenas w ! i = Some a" and n: "0 < n" "n \<le> 2 ^ 63"
    and al: "csilk_arena_alloc a n (system w) = (p, a', s)"
  shows "world_inv (w\<lparr>arenas := (arenas w)[i := Some a'], system := s,
    handed := (if p = 0 then handed w else (i, p, n) # handed w)\<rparr>)"
proof -
  from inv i obtain xs ys where os: "\<And>a'. the_arenas ((arenas w)[i := Some a']) = xs @ a' # ys"
    and sys: "sys_inv (system w) (self a # map self (xs @ ys)) (spans a @ concat (map spans (xs @ ys)))"
    and ai: "arena_inv a" "list_all arena_inv (xs @ ys)"
    and others: "\<And>j a'. j < length (arenas w) \<Longrightarrow> j \<noteq> i \<Longrightarrow> arenas w ! j = Some a' \<Longrightarrow> a' \<in> set (xs @ ys)"
    by (rule world_arena) blast
  let ?ds = "concat (map spans (xs @ ys))"
  have res: "alloc_result a n p a'" and sys': "sys_inv s (self a # map self (xs @ ys)) (spans a' @ ?ds)"
    using alloc_result_holds [OF al ai(1) sys n] by auto
  have a': "arena_inv a'" "self a' = self a" using res by (auto simp: alloc_result_def)
  have blocks: "list_all (block_ok ((arenas w)[i := Some a'])) (handed w)"
    unfolding list_all_iff
  proof
    fix x assume "x \<in> set (handed w)"
    then have "block_ok (arenas w) (fst x, snd x)" using inv by (simp add: world_inv_def list_all_iff)
    then have "block_ok ((arenas w)[i := Some a']) (fst x, snd x)"
      using i(2) by (rule block_ok_update) (rule block_in_keep [OF res ai(1) sys'])
    then show "block_ok ((arenas w)[i := Some a']) x" by simp
  qed
  have new: "disjoint_regions (p, n) (snd x)" if "p \<noteq> 0" "x \<in> set (handed w)" for x
  proof -
    obtain j b where x: "x = (j, b)" by (cases x)
    have "block_ok (arenas w) (j, b)" using inv that(2) x by (simp add: world_inv_def list_all_iff)
    then obtain aj where aj: "j < length (arenas w)" "arenas w ! j = Some aj" "block_in aj b" by (auto simp: block_ok_def)
    have "block_in a b \<or> (\<exists>d \<in> set ?ds. in_span d b)"
    proof (cases "j = i")
      case False
      then have "aj \<in> set (xs @ ys)" using others aj by blast
      then have "spans aj \<in> set (map spans (xs @ ys))" unfolding set_map [of spans] by (rule imageI)
      then have "set (spans aj) \<subseteq> set ?ds" unfolding set_concat by (rule UN_upper)
      then show ?thesis using aj(3) unfolding block_in_def by blast
    qed (use aj i in simp)
    then show ?thesis using new_block_disjoint [OF res ai(1) that(1) sys'] x by simp
  qed
  have "block_ok ((arenas w)[i := Some a']) (i, p, n)" if "p \<noteq> 0"
    using block_in_new [OF res ai(1) that] res n i that by (auto simp: block_ok_def alloc_result_def)
  moreover have "sys_inv s (map self (xs @ a' # ys)) (concat (map spans (xs @ a' # ys)))"
    using sys' a'(2) sys_inv_back [of s a' xs ys] by simp
  ultimately show ?thesis
    using inv new blocks ai(2) a'(1) by (auto simp: world_inv_def os list_all_iff)
qed

lemma give_up_ok:
  assumes "list_all (block_ok os) bs"
  shows "list_all (block_ok (os[i := x])) (give_up i bs)"
  using assms by (auto simp: list_all_iff give_up_def block_ok_def)

lemma give_up_sorted: "sorted_wrt P bs \<Longrightarrow> sorted_wrt P (give_up i bs)"
  by (simp add: give_up_def sorted_wrt_filter)

lemma reset_world_inv:
  assumes inv: "world_inv w" and i: "i < length (arenas w)" "arenas w ! i = Some a"
    and re: "csilk_arena_reset a (system w) = (a', s)"
  shows "world_inv (w\<lparr>arenas := (arenas w)[i := Some a'], system := s, handed := give_up i (handed w)\<rparr>)"
proof -
  from inv i obtain xs ys where os: "\<And>a'. the_arenas ((arenas w)[i := Some a']) = xs @ a' # ys"
    and sys: "sys_inv (system w) (self a # map self (xs @ ys)) (spans a @ concat (map spans (xs @ ys)))"
    and ai: "list_all arena_inv (xs @ ys)"
    by (rule world_arena) blast
  let ?hs = "self a # map self (xs @ ys)" and ?ds = "concat (map spans (xs @ ys))"
  have "sys_inv s ?hs (spans a' @ ?ds) \<and> arena_inv a' \<and> self a' = self a"
  proof (cases "chunks a")
    case Nil
    then show ?thesis using re sys by (auto simp: csilk_arena_reset_def arena_inv_def)
  next
    case (Cons h cs)
    then have r: "chunks a' = [h\<lparr>cused := 0\<rparr>]" "s = release_all cs (system w)" "ptr a' = cdata h"
      "end_ptr a' = cdata h + csize h" "self a' = self a"
      using re by (auto simp: csilk_arena_reset_def)
    have "sys_inv (system w) ?hs (map span cs @ span h # ?ds)"
      using sys Cons by (auto elim!: sys_inv_perm)
    then have "sys_inv s ?hs (span h # ?ds)" using r(2) release_all_inv by simp
    moreover have "cdata h mod 8 = 0" using sys_inv_span(1) [OF sys, of "span h"] Cons mod_8_of_64 by simp
    ultimately show ?thesis using r by (simp add: arena_inv_def)
  qed
  then have "sys_inv s (map self (xs @ a' # ys)) (concat (map spans (xs @ a' # ys)))" "arena_inv a'"
    using sys_inv_back [of s a' xs ys] by auto
  then show ?thesis
    using inv ai by (auto simp: world_inv_def os intro: give_up_ok give_up_sorted)
qed

lemma free_world_inv:
  assumes inv: "world_inv w" and i: "i < length (arenas w)" "arenas w ! i = Some a"
  shows "world_inv (w\<lparr>arenas := (arenas w)[i := None], system := csilk_arena_free a (system w), handed := give_up i (handed w)\<rparr>)"
proof -
  from inv i obtain xs ys where os: "the_arenas ((arenas w)[i := None]) = xs @ ys"
    and sys: "sys_inv (system w) (self a # map self (xs @ ys)) (spans a @ concat (map spans (xs @ ys)))"
    and ai: "list_all arena_inv (xs @ ys)"
    by (rule world_arena) blast
  let ?s = "release_all (chunks (save_used a)) (system w)" and ?ds = "concat (map spans (xs @ ys))"
  have "sys_inv (system w) (self a # map self (xs @ ys)) (spans (save_used a) @ ?ds)" using sys by simp
  then have "sys_inv ?s (self a # map self (xs @ ys)) ?ds" by (rule release_all_inv)
  then have "sys_inv ?s (map self (xs @ ys)) ?ds" "self a \<notin> set (starts (map self (xs @ ys)) ?ds ?s)"
    by (auto simp: sys_inv_def starts_def)
  then have "sys_inv (csilk_arena_free a (system w)) (map self (xs @ ys)) ?ds"
    unfolding csilk_arena_free_def by (rule sys_free_inv)
  then show ?thesis using inv ai os by (auto simp: world_inv_def intro: give_up_ok give_up_sorted)
qed

fun modest :: "arena_op \<Rightarrow> bool" where
  "modest (Alloc i n) = (n \<le> 2 ^ 63)"
| "modest _ = True"

lemma field_update_inv:
  assumes inv: "world_inv w" and i: "i < length (arenas w)" "arenas w ! i = Some a"
    and same: "spans a' = spans a" "ptr a' = ptr a" "end_ptr a' = end_ptr a" "self a' = self a"
  shows "world_inv (w\<lparr>arenas := (arenas w)[i := Some a']\<rparr>)"
proof -
  from inv i obtain xs ys where os: "\<And>a'. the_arenas ((arenas w)[i := Some a']) = xs @ a' # ys"
    and sys: "sys_inv (system w) (self a # map self (xs @ ys)) (spans a @ concat (map spans (xs @ ys)))"
    and ai: "arena_inv a" "list_all arena_inv (xs @ ys)"
    by (rule world_arena) blast
  have "sys_inv (system w) (map self (xs @ a' # ys)) (concat (map spans (xs @ a' # ys)))"
    using sys sys_inv_back [of "system w" a' xs ys] same by simp
  moreover have "arena_inv a'" using ai(1) unfolding arena_inv_def same .
  moreover have "block_ok ((arenas w)[i := Some a']) x" if "x \<in> set (handed w)" for x
  proof -
    have "block_ok (arenas w) (fst x, snd x)" using inv that by (simp add: world_inv_def list_all_iff)
    then have "block_ok ((arenas w)[i := Some a']) (fst x, snd x)"
      using i(2) by (rule block_ok_update) (simp add: block_in_def same)
    then show ?thesis by simp
  qed
  ultimately show ?thesis using inv ai(2) by (auto simp: world_inv_def os list_all_iff)
qed

lemma new_world_inv:
  assumes inv: "world_inv w" and new: "csilk_arena_new n (system w) = (r, s)"
  shows "world_inv (w\<lparr>arenas := arenas w @ [r], system := s\<rparr>)"
proof -
  let ?as = "the_arenas (arenas w)"
  obtain q s1 where al: "arena_aligned_alloc 64 (system w) = (q, s1)" by fastforce
  have sys: "sys_inv (system w) (map self ?as) (concat (map spans ?as))" using inv by (simp add: world_inv_def)
  have "sys_inv s (map self (the_arenas (arenas w @ [r]))) (concat (map spans (the_arenas (arenas w @ [r])))) \<and>
      list_all arena_inv (the_arenas (arenas w @ [r]))"
  proof (cases q)
    case None
    then have "regions s1 = regions (system w)" "tls_tiers s1 = tls_tiers (system w)"
      using al by (auto simp: arena_aligned_alloc_def posix_memalign_def split: if_splits list.splits)
    then have "sys_inv s1 (map self ?as) (concat (map spans ?as))" using sys by (simp add: sys_inv_def starts_def)
    then show ?thesis using new al None inv by (auto simp: csilk_arena_new_def world_inv_def)
  next
    case (Some p)
    have "sys_inv s1 (p # map self ?as) (concat (map spans ?as))" using alloc_region(1) [OF sys, of 64 p s1] al Some by simp
    then have "sys_inv s1 (map self ?as @ [p]) (concat (map spans ?as))" by (rule sys_inv_perm) simp_all
    then show ?thesis using new al Some inv by (auto simp: csilk_arena_new_def world_inv_def arena_inv_def)
  qed
  moreover have "block_ok (arenas w @ [r]) x" if "block_ok (arenas w) x" for x
    using that by (auto simp: block_ok_def nth_append)
  ultimately show ?thesis using inv by (auto simp: world_inv_def list_all_iff)
qed

lemma step_inv:
  assumes "world_inv w" "modest op"
  shows "world_inv (arena_step op w)"
proof (cases op)
  case (New n)
  then show ?thesis using new_world_inv [OF assms(1)] by (simp split: prod.split)
next
  case (Alloc i n)
  then show ?thesis
    using assms alloc_world_inv [OF assms(1)] csilk_arena_alloc_def
    by (cases "n = 0") (auto simp: on_arena_def csilk_arena_alloc_def [of _ 0] split: option.split prod.split
        intro: field_update_inv)
next
  case (Set_Alignment i b)
  then show ?thesis using assms(1)
    by (auto simp: on_arena_def csilk_arena_set_alignment_def split: option.split intro: field_update_inv)
next
  case (Set_Max i n)
  then show ?thesis using assms(1)
    by (auto simp: on_arena_def csilk_arena_set_max_bytes_def split: option.split intro: field_update_inv)
next
  case (Reset i)
  then show ?thesis using assms(1) by (auto simp: on_arena_def split: option.split prod.split intro: reset_world_inv)
next
  case (Free i)
  then show ?thesis using assms(1) by (auto simp: on_arena_def split: option.split intro: free_world_inv)
next
  case Flush
  then show ?thesis using assms(1) flush_inv by (auto simp: world_inv_def)
qed

lemma arena_run_inv: "list_all modest ops \<Longrightarrow> world_inv (arena_run as ops)"
proof -
  assume ops: "list_all modest ops"
  have "world_inv w \<Longrightarrow> world_inv (fold arena_step ops w)" for w
    using ops by (induction ops arbitrary: w) (auto intro: step_inv)
  moreover have "world_inv (no_arenas as)"
    by (auto simp: world_inv_def no_arenas_def sys_inv_def good_regions_def tls_ok_def starts_def
        less_Suc_eq numeral_3_eq_3)
  ultimately show ?thesis by (simp add: arena_run_def)
qed

section \<open>Properties\<close>

lemma block_in_region:
  assumes "world_inv w" "block_ok (arenas w) (i, b)"
  shows "\<exists>r \<in> set (regions (system w)). fst r + CHUNK_HEADER \<le> fst b \<and> fst b + snd b \<le> fst r + snd r"
proof -
  obtain a d where a: "i < length (arenas w)" "arenas w ! i = Some a" and d: "d \<in> set (spans a)" "in_span d b"
    using assms(2) by (auto simp: block_ok_def block_in_def)
  from assms(1) a obtain xs ys
    where "sys_inv (system w) (self a # map self (xs @ ys)) (spans a @ concat (map spans (xs @ ys)))"
    by (rule world_arena) blast
  then have "good_span (regions (system w)) d" using d(1) by (auto simp: sys_inv_def list_all_iff)
  then obtain r where "r \<in> set (regions (system w))" "fst d = fst r + CHUNK_HEADER" "CHUNK_HEADER + snd d \<le> snd r"
    by (auto simp: good_span_def)
  with d(2) show ?thesis by (intro bexI [of _ r]) (auto simp: in_span_def)
qed

lemmas arena_eval = arena_run_def no_arenas_def on_arena_def csilk_arena_new_def arena_aligned_alloc_def
  posix_memalign_def round_up_def SIZE_LIMIT_def csilk_arena_alloc_def arena_alloc_slow_def take_chunk_def
  arena_size_to_tier_def save_used_def size_sub_def CHUNK_HEADER_def Let_def disjoint_regions_def give_up_def
  csilk_arena_reset_def csilk_arena_set_max_bytes_def

text \<open>
  C9. Memory safety of the arenas: whatever arenas a program creates, allocates from, resets, frees
  and flushes, in any order, with requests of at most \<open>2 ^ 63\<close> bytes and whatever the system allocator
  answers, the blocks handed out and not given up overlap nowhere, also across arenas and after chunks
  moved through the thread-local free lists; each block is aligned to 8 bytes and lies behind the
  chunk header in a region that the system allocated and that is not freed.
\<close>
theorem arena_blocks_disjoint:
  assumes "list_all modest ops"
  shows "sorted_wrt (\<lambda>x y. disjoint_regions (snd x) (snd y)) (handed (arena_run as ops)) \<and>
    list_all (\<lambda>(i, b, n). b mod 8 = 0 \<and>
      list_ex (\<lambda>(r, k). r + CHUNK_HEADER \<le> b \<and> b + n \<le> r + k) (regions (system (arena_run as ops))))
      (handed (arena_run as ops))"
proof -
  let ?w = "arena_run as ops"
  have inv: "world_inv ?w" using arena_run_inv [OF assms] .
  have "(case x of (i, b, n) \<Rightarrow> b mod 8 = 0 \<and>
      list_ex (\<lambda>(r, k). r + CHUNK_HEADER \<le> b \<and> b + n \<le> r + k) (regions (system ?w)))" if x: "x \<in> set (handed ?w)" for x
  proof -
    obtain i b n where x': "x = (i, b, n)" by (cases x)
    then have ok: "block_ok (arenas ?w) (i, (b, n))" using inv x by (simp add: world_inv_def list_all_iff)
    from block_in_region [OF inv ok] show ?thesis
      using ok x' by (fastforce simp: block_ok_def list_ex_iff)
  qed
  then show ?thesis using inv by (simp add: world_inv_def list_all_iff)
qed

theorem arena_blocks_disjoint_witness:
  "map (\<lambda>x. fst (snd x)) (handed (arena_run [64, 128, 65536] [New 0, Alloc 0 5, Alloc 0 10, Reset 0, Alloc 0 3, Alloc 0 9])) =
     [200, 192] \<and>
   sorted_wrt (\<lambda>x y. disjoint_regions (snd x) (snd y))
     (handed (arena_run [64, 128, 65536] [New 0, Alloc 0 5, Alloc 0 10, Reset 0, Alloc 0 3, Alloc 0 9]))"
proof
  show "map (\<lambda>x. fst (snd x)) (handed (arena_run [64, 128, 65536] [New 0, Alloc 0 5, Alloc 0 10, Reset 0, Alloc 0 3, Alloc 0 9])) =
     [200, 192]"
    by (simp add: arena_eval)
  show "sorted_wrt (\<lambda>x y. disjoint_regions (snd x) (snd y))
     (handed (arena_run [64, 128, 65536] [New 0, Alloc 0 5, Alloc 0 10, Reset 0, Alloc 0 3, Alloc 0 9]))"
    using arena_blocks_disjoint [of "[New 0, Alloc 0 5, Alloc 0 10, Reset 0, Alloc 0 3, Alloc 0 9]" "[64, 128, 65536]"]
    by simp
qed

text \<open>An arena whose counter tells the size of its chunks, within its limit.\<close>

definition within_limit :: "arena \<Rightarrow> bool" where
  "within_limit a \<longleftrightarrow> total_allocated a = sum_list (map csize (chunks a)) \<and>
     (0 < max_total_bytes a \<longrightarrow> total_allocated a \<le> max_total_bytes a) \<and> max_total_bytes a < SIZE_LIMIT"

lemma map_csize_save_used [simp]: "map csize (chunks (save_used a)) = map csize (chunks a)"
  by (auto simp: save_used_def split: list.split)

lemma within_limit_save_used: "within_limit (save_used a) = within_limit a"
  by (simp add: within_limit_def)

lemma size_sub_le: "y \<le> x \<Longrightarrow> x < SIZE_LIMIT \<Longrightarrow> size_sub x y = x - y"
proof -
  assume le: "y \<le> x" "x < SIZE_LIMIT"
  then have "x + (SIZE_LIMIT - y) = (x - y) + SIZE_LIMIT" by simp
  then have "size_sub x y = (x - y) mod SIZE_LIMIT" unfolding size_sub_def by (metis mod_add_self2)
  then show ?thesis using le by simp
qed

lemma slow_within_limit:
  assumes "within_limit a" "arena_alloc_slow a n alignment s = (p, a', s')" "sys_inv s hs (spans a @ ds)"
    "alignment = 8 \<or> alignment = 64"
  shows "within_limit a'"
  using assms(2-4)
proof (cases rule: slow_cases)
  case fail
  then show ?thesis using assms(1) within_limit_save_used by auto
next
  case (new c)
  have "total_allocated a + csize c \<le> max_total_bytes a" if "0 < max_total_bytes a"
    using new(12) that assms(1) size_sub_le [of "total_allocated a" "max_total_bytes a"] by (auto simp: within_limit_def)
  then show ?thesis using assms(1) new by (simp add: within_limit_def)
qed

text \<open>
  C40. The limit of an arena holds: in an arena whose counter is right and within its limit (a new
  arena whose limit was set before the first allocation), every allocation, successful or not, and
  every reset leave the sizes of all its chunks together within the limit.
\<close>
theorem arena_limit_kept:
  assumes "within_limit a" "sys_inv s hs (spans a @ ds)"
  shows "within_limit (fst (snd (csilk_arena_alloc a n s))) \<and> within_limit (fst (csilk_arena_reset a s))"
proof
  have "within_limit (a\<lparr>ptr := x\<rparr>)" for x using assms(1) unfolding within_limit_def by auto
  moreover have "within_limit (fst (snd (arena_alloc_slow a n k s)))" if "k = 8 \<or> k = 64" for k
    using slow_within_limit [OF assms(1) _ assms(2) that] by (metis prod.collapse)
  ultimately show "within_limit (fst (snd (csilk_arena_alloc a n s)))"
    using assms(1) by (simp add: csilk_arena_alloc_def Let_def)
  show "within_limit (fst (csilk_arena_reset a s))"
    using assms(1) by (cases "chunks a") (auto simp: csilk_arena_reset_def within_limit_def)
qed

lemma set_max_within_limit:
  assumes "chunks a = []" "m < SIZE_LIMIT"
  shows "within_limit (csilk_arena_set_max_bytes m a)"
  using assms by (simp add: within_limit_def csilk_arena_set_max_bytes_def)

definition limited_arena :: arena where
  "limited_arena = \<lparr>self = 64, ptr = 0, end_ptr = 0, chunks = [], default_chunk_size = 4096, max_total_bytes = 8192,
     total_allocated = 0, align_64 = False\<rparr>"

definition small_sys :: sys where
  "small_sys = \<lparr>tls_tiers = [[], [], []], regions = [(64, 64)], answers = [128]\<rparr>"

theorem arena_limit_kept_witness:
  "within_limit (fst (snd (csilk_arena_alloc limited_arena 100 small_sys)))"
proof -
  have "within_limit limited_arena" by (simp add: within_limit_def SIZE_LIMIT_def limited_arena_def)
  moreover have "sys_inv small_sys [64] (spans limited_arena @ [])"
    by (simp add: sys_inv_def good_regions_def tls_ok_def starts_def less_Suc_eq numeral_3_eq_3 small_sys_def limited_arena_def)
  ultimately show ?thesis using arena_limit_kept by blast
qed

text \<open>
  A limit that is set when the arena already has a chunk larger than the limit is lost by the next
  reset: the difference of limit and counter wraps around, and every request fits.
\<close>
lemma arena_limit_lost_by_reset:
  "fst (snd (hd (handed (arena_run [64, 128, 65536] [New 0, Alloc 0 8, Set_Max 0 1000, Reset 0, Alloc 0 8192])))) = 65600"
  by (simp add: arena_eval)

text \<open>A request that wraps the bump pointer around the address space succeeds.\<close>
lemma arena_huge_request_succeeds:
  "fst (csilk_arena_alloc \<lparr>self = 64, ptr = 256, end_ptr = 4288, chunks = [\<lparr>cdata = 192, csize = 4096, cused = 64\<rparr>],
     default_chunk_size = 4096, max_total_bytes = 0, total_allocated = 4096, align_64 = False\<rparr> (2 ^ 64 - 256) s) = 256"
  by (simp add: csilk_arena_alloc_def round_up_def SIZE_LIMIT_def Let_def)

end
