(* ===== verification/Rcu.thy ===== *)
theory Rcu
  imports Csilk_Prelude
begin

text \<open>
  The replacement of the router while requests are served (\<open>core/server/server_rcu.c\<close>, used by
  \<open>core/config/hot_reload.c\<close> and, for its grace periods, by \<open>core/config/hooks.c\<close>): readers publish
  the epoch at which they entered in a slot of their own, \<open>csilk_server_set_router_full\<close> swaps the
  router, advances the epoch and puts the old router on the retired list, and
  \<open>_csilk_reload_try_reclaim\<close> frees what no reader can still hold.

  The state is that of the reload manager of one server with the program points and local variables
  of the threads. A step is one atomic access (accesses of a thread to data only it uses are joined
  with the next one), and \<open>rcu_run\<close> executes any interleaving of readers, a writer that holds
  \<open>config_mutex\<close>, a thread that waits for a grace period and the thread that holds
  \<open>reclaim_lock\<close>, under sequential consistency. Routers, library handles and paths are addresses
  (0 for NULL); a lease is a router pointer returned by \<open>csilk_server_router_acquire\<close> with its
  token. Epochs and depths are natural numbers: their 64 and 32 bits do not overflow. The following
  is assumed of the callers and stands in the conditions of the steps: a router is published once, a
  lease is released by the thread that took it, and a thread ends without leases. The acquisition of
  a slot is one step, at its successful compare-exchange.

  The list of the freed records \<open>reclaimed\<close> and of the routers \<open>published\<close> so far are kept for the
  statements only.
\<close>

definition CSILK_RELOAD_MAX_READERS :: nat where
  "CSILK_RELOAD_MAX_READERS = 256"

definition UINT64_MAX :: nat where
  "UINT64_MAX = 2 ^ 64 - 1"

record rcu_slot =
  active_epoch :: nat
  owner_tid :: nat
  nesting_depth :: nat

record retired_router =
  old_router :: nat
  dl_handle :: nat
  tmp_path :: nat
  retired_epoch :: nat

record lease =
  lease_id :: nat
  lease_slot :: "nat option"
  lease_router :: nat

text \<open>Where a thread is inside \<open>csilk_server_router_acquire\<close>; the number is that of its slot.\<close>

datatype reader_pc = Outside | Entering nat | Epoch_Read nat nat | Entered nat

text \<open>
  Where the holder of \<open>config_mutex\<close> is inside \<open>csilk_server_set_router_full\<close>, with its local
  variables \<open>old_router\<close>, \<open>dl_handle\<close>, \<open>tmp_path\<close> and \<open>retired_epoch\<close>.
\<close>

datatype writer_pc = No_Writer | Swapped nat nat nat | Advanced nat nat nat nat | Old_Retired | Writer_Reclaims

datatype reclaim_phase = Locked | Static_Slots | Overflow_Slots | Retired_List | Put_Back

text \<open>The local variables of the one thread that holds \<open>reclaim_lock\<close>.\<close>

record reclaim =
  by_writer :: bool
  phase :: reclaim_phase
  current_epoch :: nat
  min_active_epoch :: nat
  has_active_readers :: bool
  todo :: "nat list"
  work :: "retired_router list"
  retain :: "retired_router list"

datatype grace_pc = No_Grace | Waiting nat bool "nat list" | Grace_Over | Grace_Reclaims

record rcu =
  router :: nat
  global_epoch :: nat
  slots :: "rcu_slot list"
  retired :: "retired_router list"
  retired_count :: nat
  reclaimer :: "reclaim option"
  writer :: writer_pc
  grace :: grace_pc
  readers :: "nat \<Rightarrow> reader_pc"
  leases :: "lease list"
  next_lease :: nat
  published :: "nat list"
  reclaimed :: "retired_router list"

definition free_slot :: rcu_slot where
  "free_slot = \<lparr>active_epoch = 0, owner_tid = 0, nesting_depth = 0\<rparr>"

definition csilk_reload_mgr_init :: "nat \<Rightarrow> rcu" where
  "csilk_reload_mgr_init r = \<lparr>router = r, global_epoch = 1, slots = replicate CSILK_RELOAD_MAX_READERS free_slot,
     retired = [], retired_count = 0, reclaimer = None, writer = No_Writer, grace = No_Grace,
     readers = (\<lambda>t. Outside), leases = [], next_lease = 0, published = [r], reclaimed = []\<rparr>"

definition upd_slot :: "nat \<Rightarrow> (rcu_slot \<Rightarrow> rcu_slot) \<Rightarrow> rcu \<Rightarrow> rcu" where
  "upd_slot k f s = s\<lparr>slots := (slots s)[k := f (slots s ! k)]\<rparr>"

section \<open>Readers\<close>

text \<open>The numbers of the static slots in the order in which the thread \<open>t\<close> probes them.\<close>

definition probe_order :: "nat \<Rightarrow> nat list" where
  "probe_order t = map (\<lambda>i. (t mod CSILK_RELOAD_MAX_READERS + i) mod CSILK_RELOAD_MAX_READERS) [0..<CSILK_RELOAD_MAX_READERS]"

text \<open>The numbers of the overflow slots from the head of their list, the slot allocated last first.\<close>

definition overflow_order :: "rcu \<Rightarrow> nat list" where
  "overflow_order s = rev [CSILK_RELOAD_MAX_READERS..<length (slots s)]"

definition claim_rcu_slot :: "nat \<Rightarrow> nat \<Rightarrow> rcu \<Rightarrow> rcu" where
  "claim_rcu_slot t k s = upd_slot k (\<lambda>sl. sl\<lparr>owner_tid := t, active_epoch := 0, nesting_depth := 0\<rparr>) s"

definition acquire_rcu_slot :: "nat \<Rightarrow> bool \<Rightarrow> rcu \<Rightarrow> nat option \<times> rcu" where
  "acquire_rcu_slot t calloc_ok s =
     (case find (\<lambda>k. owner_tid (slots s ! k) = t) (probe_order t) of
        Some k \<Rightarrow> (Some k, s)
      | None \<Rightarrow>
     (case find (\<lambda>k. owner_tid (slots s ! k) = 0) (probe_order t) of
        Some k \<Rightarrow> (Some k, claim_rcu_slot t k s)
      | None \<Rightarrow>
     (case find (\<lambda>k. owner_tid (slots s ! k) = t \<or> owner_tid (slots s ! k) = 0) (overflow_order s) of
        Some k \<Rightarrow> (Some k, if owner_tid (slots s ! k) = t then s else claim_rcu_slot t k s)
      | None \<Rightarrow>
     (if calloc_ok then (Some (length (slots s)), s\<lparr>slots := slots s @ [free_slot\<lparr>owner_tid := t\<rparr>]\<rparr>)
      else (None, s)))))"

definition new_lease :: "nat option \<Rightarrow> rcu \<Rightarrow> rcu" where
  "new_lease k s = s\<lparr>leases := \<lparr>lease_id = next_lease s, lease_slot = k, lease_router = router s\<rparr> # leases s,
     next_lease := next_lease s + 1\<rparr>"

definition acquire_begin :: "nat \<Rightarrow> bool \<Rightarrow> rcu \<Rightarrow> rcu" where
  "acquire_begin t calloc_ok s =
     (case acquire_rcu_slot t calloc_ok s of
        (None, s) \<Rightarrow> new_lease None s
      | (Some k, s) \<Rightarrow>
          let depth = nesting_depth (slots s ! k);
              s = upd_slot k (\<lambda>sl. sl\<lparr>nesting_depth := depth + 1\<rparr>) s
          in s\<lparr>readers := (readers s)(t := if depth = 0 then Entering k else Entered k)\<rparr>)"

definition csilk_server_router_release :: "lease \<Rightarrow> rcu \<Rightarrow> rcu" where
  "csilk_server_router_release l s =
     (let s = s\<lparr>leases := remove1 l (leases s)\<rparr>
      in case lease_slot l of
           None \<Rightarrow> s
         | Some k \<Rightarrow>
             let depth = nesting_depth (slots s ! k)
             in upd_slot k (\<lambda>sl. sl\<lparr>nesting_depth := depth - 1,
                  active_epoch := if depth \<le> 1 then 0 else active_epoch sl\<rparr>) s)"

definition rcu_thread_exit :: "nat \<Rightarrow> rcu \<Rightarrow> rcu" where
  "rcu_thread_exit t s = s\<lparr>slots := map (\<lambda>sl. if owner_tid sl = t then free_slot else sl) (slots s)\<rparr>"

text \<open>A thread that has no lease and is not about to take one.\<close>

definition thread_idle :: "nat \<Rightarrow> rcu \<Rightarrow> bool" where
  "thread_idle t s \<longleftrightarrow> t \<noteq> 0 \<and> readers s t = Outside \<and>
     list_all (\<lambda>l. case lease_slot l of None \<Rightarrow> True | Some k \<Rightarrow> owner_tid (slots s ! k) \<noteq> t) (leases s)"

section \<open>Reclamation\<close>

definition static_order :: "nat list" where
  "static_order = [0..<CSILK_RELOAD_MAX_READERS]"

definition reclaim_lock :: "bool \<Rightarrow> rcu \<Rightarrow> rcu" where
  "reclaim_lock w s = s\<lparr>reclaimer := Some \<lparr>by_writer = w, phase = Locked, current_epoch = 0,
     min_active_epoch = UINT64_MAX, has_active_readers = False, todo = [], work = [], retain = []\<rparr>\<rparr>"

text \<open>One slot of the scan.\<close>

definition scan_slot :: "nat \<Rightarrow> reclaim \<Rightarrow> reclaim" where
  "scan_slot r_epoch c =
     (if r_epoch \<noteq> 0
      then c\<lparr>has_active_readers := True,
             min_active_epoch := if r_epoch < min_active_epoch c then r_epoch else min_active_epoch c\<rparr>
      else c)"

text \<open>One retired router: freed if no reader can have it, else kept.\<close>

definition reclaim_one :: "retired_router \<Rightarrow> retired_router list \<Rightarrow> reclaim \<Rightarrow> rcu \<Rightarrow> rcu" where
  "reclaim_one x xs c s =
     (if retired_epoch x < min_active_epoch c
      then s\<lparr>reclaimed := x # reclaimed s, reclaimer := Some (c\<lparr>work := xs\<rparr>)\<rparr>
      else s\<lparr>reclaimer := Some (c\<lparr>work := xs, retain := x # retain c\<rparr>)\<rparr>)"

text \<open>The next atomic access of \<open>_csilk_reload_try_reclaim\<close> by the holder of the lock.\<close>

definition reclaim_step :: "reclaim \<Rightarrow> rcu \<Rightarrow> rcu" where
  "reclaim_step c s =
     (case phase c of
        Locked \<Rightarrow> s\<lparr>reclaimer := Some (c\<lparr>current_epoch := global_epoch s, phase := Static_Slots, todo := static_order\<rparr>)\<rparr>
      | Static_Slots \<Rightarrow>
          (case todo c of
             k # ks \<Rightarrow> s\<lparr>reclaimer := Some (scan_slot (active_epoch (slots s ! k)) (c\<lparr>todo := ks\<rparr>))\<rparr>
           | [] \<Rightarrow> s\<lparr>reclaimer := Some (c\<lparr>phase := Overflow_Slots, todo := overflow_order s\<rparr>)\<rparr>)
      | Overflow_Slots \<Rightarrow>
          (case todo c of
             k # ks \<Rightarrow> s\<lparr>reclaimer := Some (scan_slot (active_epoch (slots s ! k)) (c\<lparr>todo := ks\<rparr>))\<rparr>
           | [] \<Rightarrow>
               s\<lparr>reclaimer := Some (c\<lparr>phase := Retired_List, work := retired s,
                   min_active_epoch := if has_active_readers c then min_active_epoch c else current_epoch c + 2\<rparr>),
                 retired := []\<rparr>)
      | Retired_List \<Rightarrow>
          (case work c of
             x # xs \<Rightarrow> reclaim_one x xs c s
           | [] \<Rightarrow> s\<lparr>retired := retain c @ retired s, reclaimer := Some (c\<lparr>phase := Put_Back\<rparr>)\<rparr>)
      | Put_Back \<Rightarrow>
          s\<lparr>retired_count := length (retain c), reclaimer := None,
            writer := if by_writer c then No_Writer else writer s,
            grace := if by_writer c then grace s else No_Grace\<rparr>)"

section \<open>Writers\<close>

definition swap_router :: "nat \<Rightarrow> nat \<Rightarrow> nat \<Rightarrow> rcu \<Rightarrow> rcu" where
  "swap_router r dl tmp s = s\<lparr>router := r, published := r # published s, writer := Swapped (router s) dl tmp\<rparr>"

definition advance_epoch :: "nat \<Rightarrow> nat \<Rightarrow> nat \<Rightarrow> rcu \<Rightarrow> rcu" where
  "advance_epoch old dl tmp s =
     s\<lparr>global_epoch := global_epoch s + 1, writer := Advanced old dl tmp (global_epoch s)\<rparr>"

definition retire_old :: "nat \<Rightarrow> nat \<Rightarrow> nat \<Rightarrow> nat \<Rightarrow> bool \<Rightarrow> rcu \<Rightarrow> rcu" where
  "retire_old old dl tmp e calloc_ok s =
     (let s = s\<lparr>writer := Old_Retired\<rparr>
      in if (old \<noteq> 0 \<or> dl \<noteq> 0 \<or> tmp \<noteq> 0) \<and> calloc_ok
         then s\<lparr>retired := \<lparr>old_router = old, dl_handle = dl, tmp_path = tmp, retired_epoch = e\<rparr> # retired s,
                retired_count := retired_count s + 1\<rparr>
         else s)"

definition writer_reclaim :: "rcu \<Rightarrow> rcu" where
  "writer_reclaim s =
     (case reclaimer s of
        Some c \<Rightarrow> s\<lparr>writer := No_Writer\<rparr>
      | None \<Rightarrow> reclaim_lock True (s\<lparr>writer := Writer_Reclaims\<rparr>))"

section \<open>Waiting for a grace period\<close>

text \<open>One load of the loop of \<open>csilk_server_wait_grace_period\<close>; a reader of an old epoch starts it again.\<close>

definition grace_step :: "nat \<Rightarrow> bool \<Rightarrow> nat list \<Rightarrow> rcu \<Rightarrow> rcu" where
  "grace_step target overflow ks s =
     (case ks of
        k # ks \<Rightarrow>
          let r_epoch = active_epoch (slots s ! k)
          in if r_epoch \<noteq> 0 \<and> r_epoch \<le> target then s\<lparr>grace := Waiting target False static_order\<rparr>
             else s\<lparr>grace := Waiting target overflow ks\<rparr>
      | [] \<Rightarrow>
          if overflow then s\<lparr>grace := Grace_Over\<rparr> else s\<lparr>grace := Waiting target True (overflow_order s)\<rparr>)"

definition grace_reclaim :: "rcu \<Rightarrow> rcu" where
  "grace_reclaim s =
     (case reclaimer s of
        Some c \<Rightarrow> s\<lparr>grace := No_Grace\<rparr>
      | None \<Rightarrow> reclaim_lock False (s\<lparr>grace := Grace_Reclaims\<rparr>))"

section \<open>The interleaved system\<close>

datatype rcu_event =
    Acquire nat bool | Load_Epoch nat | Store_Epoch nat | Load_Router nat | Release lease | Thread_Exit nat
  | Set_Router nat nat nat | Advance_Epoch | Retire bool | Writer_Reclaim
  | Reclaim_Step | Bump_Epoch | Grace_Begin | Grace_Step | Grace_Reclaim

fun rcu_step :: "rcu_event \<Rightarrow> rcu \<Rightarrow> rcu option" where
  "rcu_step (Acquire t ok) s = (if t \<noteq> 0 \<and> readers s t = Outside then Some (acquire_begin t ok s) else None)"
| "rcu_step (Load_Epoch t) s =
     (case readers s t of
        Entering k \<Rightarrow> Some (s\<lparr>readers := (readers s)(t := Epoch_Read k (global_epoch s))\<rparr>) | _ \<Rightarrow> None)"
| "rcu_step (Store_Epoch t) s =
     (case readers s t of
        Epoch_Read k e \<Rightarrow>
          Some (upd_slot k (\<lambda>sl. sl\<lparr>active_epoch := e\<rparr>) (s\<lparr>readers := (readers s)(t := Entered k)\<rparr>)) | _ \<Rightarrow> None)"
| "rcu_step (Load_Router t) s =
     (case readers s t of
        Entered k \<Rightarrow> Some (new_lease (Some k) (s\<lparr>readers := (readers s)(t := Outside)\<rparr>)) | _ \<Rightarrow> None)"
| "rcu_step (Release l) s =
     (if l \<in> set (leases s) \<and> (case lease_slot l of None \<Rightarrow> True | Some k \<Rightarrow> readers s (owner_tid (slots s ! k)) = Outside)
      then Some (csilk_server_router_release l s) else None)"
| "rcu_step (Thread_Exit t) s = (if thread_idle t s then Some (rcu_thread_exit t s) else None)"
| "rcu_step (Set_Router r dl tmp) s =
     (if writer s = No_Writer \<and> r \<noteq> 0 \<and> r \<notin> set (published s) then Some (swap_router r dl tmp s) else None)"
| "rcu_step Advance_Epoch s =
     (case writer s of Swapped old dl tmp \<Rightarrow> Some (advance_epoch old dl tmp s) | _ \<Rightarrow> None)"
| "rcu_step (Retire ok) s =
     (case writer s of Advanced old dl tmp e \<Rightarrow> Some (retire_old old dl tmp e ok s) | _ \<Rightarrow> None)"
| "rcu_step Writer_Reclaim s = (if writer s = Old_Retired then Some (writer_reclaim s) else None)"
| "rcu_step Reclaim_Step s = (case reclaimer s of Some c \<Rightarrow> Some (reclaim_step c s) | None \<Rightarrow> None)"
| "rcu_step Bump_Epoch s = Some (s\<lparr>global_epoch := global_epoch s + 1\<rparr>)"
| "rcu_step Grace_Begin s =
     (if grace s = No_Grace then Some (s\<lparr>grace := Waiting (global_epoch s) False static_order\<rparr>) else None)"
| "rcu_step Grace_Step s =
     (case grace s of Waiting target ov ks \<Rightarrow> Some (grace_step target ov ks s) | _ \<Rightarrow> None)"
| "rcu_step Grace_Reclaim s = (if grace s = Grace_Over then Some (grace_reclaim s) else None)"

fun rcu_run :: "rcu_event list \<Rightarrow> rcu \<Rightarrow> rcu option" where
  "rcu_run [] s = Some s"
| "rcu_run (e # es) s = (case rcu_step e s of None \<Rightarrow> None | Some s' \<Rightarrow> rcu_run es s')"

section \<open>Slots and leases\<close>











lemma probe_order_bound: "k \<in> set (probe_order t) \<Longrightarrow> k < CSILK_RELOAD_MAX_READERS"
  by (auto simp: probe_order_def CSILK_RELOAD_MAX_READERS_def)



section \<open>Steps of readers\<close>



lemma upd_slot_simps [simp]:
  "slots (upd_slot k f s) = (slots s)[k := f (slots s ! k)]" "readers (upd_slot k f s) = readers s"
  "leases (upd_slot k f s) = leases s" "global_epoch (upd_slot k f s) = global_epoch s" "router (upd_slot k f s) = router s"
  "writer (upd_slot k f s) = writer s" "retired (upd_slot k f s) = retired s" "reclaimer (upd_slot k f s) = reclaimer s"
  "reclaimed (upd_slot k f s) = reclaimed s" "published (upd_slot k f s) = published s" "grace (upd_slot k f s) = grace s"
  "next_lease (upd_slot k f s) = next_lease s"
  by (simp_all add: upd_slot_def)













section \<open>Protection of the routers in use\<close>










section \<open>Steps of the writer and of the reclamation\<close>







lemma scan_slot_simps [simp]:
  "by_writer (scan_slot e c) = by_writer c" "phase (scan_slot e c) = phase c" "todo (scan_slot e c) = todo c"
  "work (scan_slot e c) = work c" "retain (scan_slot e c) = retain c"
  by (simp_all add: scan_slot_def)










section \<open>Safety of the interleaved system\<close>









text \<open>The first reader of a new manager gets the slot at which its probe starts.\<close>

lemma readers_pos [simp]: "0 < CSILK_RELOAD_MAX_READERS" "Suc 0 < CSILK_RELOAD_MAX_READERS" "CSILK_RELOAD_MAX_READERS \<noteq> Suc 0"
  by (simp_all add: CSILK_RELOAD_MAX_READERS_def)

lemma first_slot:
  assumes "slots s = replicate CSILK_RELOAD_MAX_READERS free_slot" "t \<noteq> 0"
  shows "acquire_rcu_slot t ok s = (Some (t mod CSILK_RELOAD_MAX_READERS), claim_rcu_slot t (t mod CSILK_RELOAD_MAX_READERS) s)"
proof -
  let ?k = "t mod CSILK_RELOAD_MAX_READERS"
  have free: "owner_tid (slots s ! j) = 0" if "j \<in> set (probe_order t)" for j
    using probe_order_bound [OF that] assms(1) by (simp add: free_slot_def)
  have none: "find (\<lambda>j. owner_tid (slots s ! j) = t) (probe_order t) = None"
    using free assms(2) by (auto simp: find_None_iff)
  obtain js where js: "probe_order t = ?k # js"
    using upt_conv_Cons [of 0 CSILK_RELOAD_MAX_READERS] readers_pos by (simp add: probe_order_def)
  have "find (\<lambda>j. owner_tid (slots s ! j) = 0) (probe_order t) = Some ?k" using free js by simp
  then show ?thesis using none by (simp add: acquire_rcu_slot_def)
qed

lemma rcu_run_append: "rcu_run (es @ fs) s = (case rcu_run es s of None \<Rightarrow> None | Some s' \<Rightarrow> rcu_run fs s')"
  by (induction es arbitrary: s) (auto split: option.split)

text \<open>A complete read: the first reader takes a lease on the current router.\<close>

lemma first_lease:
  assumes "slots s = replicate CSILK_RELOAD_MAX_READERS free_slot" "readers s = (\<lambda>t. Outside)"
  shows "rcu_run [Acquire 1 True, Load_Epoch 1, Store_Epoch 1, Load_Router 1] s =
    Some (new_lease (Some 1) (s\<lparr>slots := (slots s)[1 := \<lparr>active_epoch = global_epoch s, owner_tid = 1, nesting_depth = 1\<rparr>]\<rparr>))"
  using assms first_slot [OF assms(1), of 1 True]
  by (cases s) (simp add: acquire_begin_def Let_def claim_rcu_slot_def upd_slot_def free_slot_def new_lease_def fun_upd_idem)

text \<open>Scans over idle slots.\<close>

lemma grace_scan_idle:
  assumes "list_all (\<lambda>k. active_epoch (slots s ! k) = 0) ks"
  shows "rcu_run (replicate (length ks) Grace_Step) (s\<lparr>grace := Waiting target ov ks\<rparr>) = Some (s\<lparr>grace := Waiting target ov []\<rparr>)"
  using assms by (induction ks arbitrary: s) (simp_all add: grace_step_def)

lemma reclaim_scan_idle:
  assumes "list_all (\<lambda>k. active_epoch (slots s ! k) = 0) ks" "phase c = Static_Slots" "todo c = ks" "reclaimer s = Some c"
  shows "rcu_run (replicate (length ks) Reclaim_Step) s = Some (s\<lparr>reclaimer := Some (c\<lparr>todo := []\<rparr>)\<rparr>)"
  using assms
proof (induction ks arbitrary: s c)
  case (Cons k ks)
  let ?c = "c\<lparr>todo := ks\<rparr>"
  have "rcu_step Reclaim_Step s = Some (s\<lparr>reclaimer := Some ?c\<rparr>)"
    using Cons.prems by (simp add: reclaim_step_def scan_slot_def)
  moreover have "rcu_run (replicate (length ks) Reclaim_Step) (s\<lparr>reclaimer := Some ?c\<rparr>) =
      Some (s\<lparr>reclaimer := Some (?c\<lparr>todo := []\<rparr>)\<rparr>)"
    using Cons.IH [of "s\<lparr>reclaimer := Some ?c\<rparr>" ?c] Cons.prems by simp
  ultimately show ?case by simp
qed simp


section \<open>The race with a grace period\<close>

text \<open>
  A thread that added a hook waits for a grace period and then reclaims, without the configuration
  mutex. Between its scan and the moment at which it takes the retired list, a request takes the
  router and a reload retires that router.
\<close>

definition grace_scan :: "rcu_event list" where
  "grace_scan = Grace_Begin # replicate CSILK_RELOAD_MAX_READERS Grace_Step @ [Grace_Step, Grace_Step, Grace_Reclaim]"

definition reclaim_scan :: "rcu_event list" where
  "reclaim_scan = Reclaim_Step # replicate CSILK_RELOAD_MAX_READERS Reclaim_Step @ [Reclaim_Step]"

definition race_schedule :: "rcu_event list" where
  "race_schedule = grace_scan @ reclaim_scan @ [Acquire 1 True, Load_Epoch 1, Store_Epoch 1, Load_Router 1] @
     [Set_Router 9 0 0, Advance_Epoch, Retire True, Writer_Reclaim, Reclaim_Step, Reclaim_Step]"

lemma run_append: "rcu_run es s = Some s' \<Longrightarrow> rcu_run (es @ fs) s = rcu_run fs s'"
  by (simp add: rcu_run_append)

lemma static_idle:
  assumes "slots s = replicate CSILK_RELOAD_MAX_READERS free_slot"
  shows "list_all (\<lambda>k. active_epoch (slots s ! k) = 0) static_order" "overflow_order s = []"
  using assms by (auto simp: list_all_iff static_order_def free_slot_def overflow_order_def)

lemma length_static_order [simp]: "length static_order = CSILK_RELOAD_MAX_READERS"
  by (simp add: static_order_def)

lemma grace_scan_run:
  assumes "slots s = replicate CSILK_RELOAD_MAX_READERS free_slot" "grace s = No_Grace" "reclaimer s = None"
  shows "rcu_run grace_scan s = Some (reclaim_lock False (s\<lparr>grace := Grace_Reclaims\<rparr>))"
  using grace_scan_idle [OF static_idle(1) [OF assms(1)], of "global_epoch s" False] assms static_idle(2) [OF assms(1)]
  by (simp add: grace_scan_def rcu_run_append grace_step_def grace_reclaim_def overflow_order_def)

lemma reclaim_scan_run:
  assumes "slots s = replicate CSILK_RELOAD_MAX_READERS free_slot" "reclaimer s = Some c" "phase c = Locked"
  shows "rcu_run reclaim_scan s =
    Some (s\<lparr>reclaimer := Some (c\<lparr>current_epoch := global_epoch s, phase := Overflow_Slots, todo := []\<rparr>)\<rparr>)"
proof -
  let ?c = "c\<lparr>current_epoch := global_epoch s, phase := Static_Slots, todo := static_order\<rparr>"
  have "rcu_run (replicate (length static_order) Reclaim_Step) (s\<lparr>reclaimer := Some ?c\<rparr>) =
      Some ((s\<lparr>reclaimer := Some ?c\<rparr>)\<lparr>reclaimer := Some (?c\<lparr>todo := []\<rparr>)\<rparr>)"
    by (rule reclaim_scan_idle) (use static_idle(1) assms in simp_all)
  then show ?thesis
    using assms static_idle(2) [OF assms(1)] by (simp add: reclaim_scan_def rcu_run_append reclaim_step_def overflow_order_def)
qed

text \<open>
  C10. A use after free: when a grace period ends while another thread reloads the router, the router
  that a request has just taken can be freed under it. The reclaiming thread finds no reader, sets its
  bound to two epochs above the current one, and only then takes the retired list, with the router
  that was leased and retired in between.
\<close>
theorem rcu_grace_frees_router_in_use:
  "\<exists>s l x. rcu_run race_schedule (csilk_reload_mgr_init 7) = Some s \<and> l \<in> set (leases s) \<and> x \<in> set (reclaimed s) \<and>
     lease_router l = old_router x \<and> old_router x \<noteq> 0"
proof -
  define s0 where "s0 = csilk_reload_mgr_init 7"
  define c where "c = \<lparr>by_writer = False, phase = Overflow_Slots, current_epoch = 1, min_active_epoch = UINT64_MAX,
    has_active_readers = False, todo = [], work = [], retain = []\<rparr>"
  define s1 where "s1 = s0\<lparr>grace := Grace_Reclaims, reclaimer := Some c\<rparr>"
  define s2 where "s2 = new_lease (Some 1) (s1\<lparr>slots := (slots s1)[1 := \<lparr>active_epoch = 1, owner_tid = 1, nesting_depth = 1\<rparr>]\<rparr>)"
  have 0: "slots s0 = replicate CSILK_RELOAD_MAX_READERS free_slot" "readers s0 = (\<lambda>t. Outside)" "grace s0 = No_Grace"
    "reclaimer s0 = None" "global_epoch s0 = 1" by (simp_all add: s0_def csilk_reload_mgr_init_def)
  have 1: "rcu_run (grace_scan @ reclaim_scan) s0 = Some s1"
    using 0 by (simp add: rcu_run_append grace_scan_run reclaim_scan_run reclaim_lock_def s1_def c_def)
  have 2: "rcu_run [Acquire 1 True, Load_Epoch 1, Store_Epoch 1, Load_Router 1] s1 = Some s2"
    by (subst first_lease) (simp_all add: s1_def s2_def 0)
  have fields: "leases s2 = [\<lparr>lease_id = 0, lease_slot = Some 1, lease_router = 7\<rparr>]" "reclaimer s2 = Some c" "writer s2 = No_Writer"
    "router s2 = 7" "published s2 = [7]" "retired s2 = []" "reclaimed s2 = []" "global_epoch s2 = 1"
    by (simp_all add: s2_def s1_def s0_def new_lease_def csilk_reload_mgr_init_def)
  obtain s3 where 3: "rcu_run [Set_Router 9 0 0, Advance_Epoch, Retire True, Writer_Reclaim, Reclaim_Step, Reclaim_Step] s2 = Some s3"
    "leases s3 = leases s2" "reclaimed s3 = [\<lparr>old_router = 7, dl_handle = 0, tmp_path = 0, retired_epoch = 1\<rparr>]"
    using fields by (simp add: swap_router_def advance_epoch_def retire_old_def writer_reclaim_def reclaim_step_def
        reclaim_one_def c_def Let_def)
  have "rcu_run race_schedule s0 = Some s3"
    using run_append [OF 1, unfolded append_assoc] run_append [OF 2] 3(1) unfolding race_schedule_def by metis
  then show ?thesis using 3(2,3) fields(1) unfolding s0_def by (intro exI [of _ s3]) auto
qed

section \<open>Grace periods\<close>




























end
