(* ===== verification/Spec2Isabelle.thy ===== *)
theory Spec2Isabelle
  imports Router_Match Query Base64 Csv Circuit_Breaker Rate_Limit Bounded_Buf Lf_Queue Mq_Wal Client_List Websocket Arena Rcu
begin

text \<open>
  Verification of csilk, an HTTP framework in C. All paths below are those of the repository, whose
  sources are under \<open>src/src\<close> and \<open>src/include\<close>; the theories cite them without the first \<open>src/\<close>.

  \<^bold>\<open>The program.\<close> A server accepts connections on worker threads (\<open>core/server\<close>). Every connection
  object has a state machine, a reference count and a count of outstanding I/O, and is recycled into
  a pool. A request is parsed into a context whose memory comes from an arena and whose headers and
  parameters are kept in hash maps (\<open>core/primitives\<close>). The routing trie finds the handler chain for
  its method and path; the router is replaced at run time under an epoch scheme while requests are
  served. Middlewares filter requests (\<open>middleware\<close>), a message queue with a write-ahead log connects
  parts of an application (\<open>messaging\<close>), connections can be upgraded to WebSockets (\<open>protocols\<close>), and
  several codecs serve all of them (\<open>crypto\<close>, \<open>util\<close>, \<open>core/primitives\<close>).

  \<^bold>\<open>Conventions.\<close> Pure functions of the code are functions of HOL; functions with side effects take and
  return the state they change. A C string is the list of its characters before the terminator, a
  buffer the list of its bytes. NULL and failure are \<open>None\<close> or the error values of the code. Where the
  code could read or write out of bounds, or overflow a signed integer, the model has an outer
  \<open>option\<close> whose \<open>None\<close> is undefined behaviour, and the theorems show that it does not occur. Failing
  allocations are branches, driven by a list of answers (\<open>heap\<close> of \<open>Csilk_Prelude\<close>). Code outside of
  the repository (hash functions, \<open>fnmatch\<close>, clocks, the event library) is a parameter. Concurrent
  components are transition systems whose steps are the atomic accesses or the sections under a
  mutex, and whose runs are arbitrary sequences of steps under sequential consistency.

  \<^bold>\<open>Theories.\<close>
  \<^item> \<open>Csilk_Prelude\<close>: strings, buffers, words and the allocator, with the lemmas that the components
    share. \<open>Bit_Scan\<close>: bit masks and trailing zero counts of the vector code. \<open>Byte_Order\<close>: integers as
    bytes.
  \<^item> \<open>Router_Simd\<close> (\<open>router_simd.c\<close>): segment scan, comparison and search in their AVX-512, AVX2, NEON and
    scalar variants. All variants agree with the scalar reference and read no page that the string
    does not touch.
  \<^item> \<open>Router\<close> (\<open>router.c\<close>): the trie, registration and compilation of handler chains. Registration adds
    exactly the new route and keeps all others, is memory safe, and keeps the invariant of chains.
  \<^item> \<open>Router_Match\<close> (\<open>router_trie.c\<close>): the bounded iterative search. It refines a recursive search,
    finds a best route, is complete within the depth limit, and captures the parameters of the match.
  \<^item> \<open>Header_Intern\<close>, \<open>Header_Map\<close> (\<open>header_map.c\<close>): recognition of known header names by word
    comparisons, header maps with direct slots and hash chains, and parameter maps. The interface
    \<open>ci_map\<close> states the laws of a case-insensitive map and is interpreted for the three writers.
  \<^item> \<open>Url\<close>, \<open>Query\<close> (\<open>url.c\<close>, \<open>query.c\<close>): percent-decoding in place and the parsing of query strings and
    forms, with round trips.
  \<^item> \<open>Base64\<close>, \<open>Csv\<close>, \<open>Bounded_Buf\<close> (\<open>base64.c\<close>, \<open>csv.c\<close>, \<open>bounded_buf.c\<close>): codecs and the bounded JSON
    builder, with round trips and bounds.
  \<^item> \<open>Circuit_Breaker\<close>, \<open>Rate_Limit\<close> (\<open>circuit_breaker.c\<close>, \<open>ratelimit.c\<close>): the breaker as a transition
    system, and the table of per-address counters as a refinement of counters per window.
  \<^item> \<open>Lf_Queue\<close> (\<open>lfqueue.h\<close>): the lock-free queue of many producers and one consumer, alone and
    interleaved; the interface \<open>fifo_queue\<close> is interpreted on it.
  \<^item> \<open>Message_Queue\<close>, \<open>Mq_Wal\<close> (\<open>messaging\<close>): delivery in order, and recovery from the log after a crash
    at any point.
  \<^item> \<open>Conn_State\<close>, \<open>Conn_Life\<close>, \<open>Client_List\<close> (\<open>core/server\<close>): the transition matrix, the life time of a
    connection object under every interleaving of I/O, timers, handlers and other threads, and the
    list of active clients.
  \<^item> \<open>Rcu\<close> (\<open>server_rcu.c\<close>): leases of the router, its replacement, reclamation and grace periods.
  \<^item> \<open>Arena\<close> (\<open>arena.c\<close>): the arena allocator at the level of addresses.
  \<^item> \<open>Websocket\<close> (\<open>websocket.c\<close>): handshake, frames and the read path.

  \<^bold>\<open>How the components interact.\<close> A request takes a lease of the router (\<open>Rcu\<close>) and searches it
  (\<open>Router_Match\<close>, over the nodes of \<open>Router\<close> and the scans of \<open>Router_Simd\<close>); \<open>Query\<close> decodes with \<open>Url\<close>
  and fills the parameter maps through the interface \<open>ci_map\<close> of \<open>Header_Map\<close>; \<open>Mq_Wal\<close> publishes
  through \<open>Message_Queue\<close>, whose pending messages are the list that \<open>Lf_Queue\<close> is shown to represent,
  as are the dispatched calls of \<open>Conn_Life\<close>; \<open>Websocket\<close> sends through the reference and I/O counts of
  \<open>Conn_Life\<close>, which rests on \<open>Conn_State\<close>, and answers its handshake with \<open>Base64\<close>.

  \<^bold>\<open>Bounds and fuel.\<close> No model uses fuel. The stack of the route search has the 64 frames of the code,
  and routes that need more are shown to be unreachable. Loops over data are structural recursions or
  functions with a termination proof. Loops whose end is not evident (the route search, the scans of
  a path in memory, the walk along the client list) are partial functions whose \<open>None\<close> stands for a
  loop that does not end or a fault; their theorems state the \<open>Some\<close> that they return.
  Epochs, identifiers and statistics counters that cannot reach their 32 or 64 bits in practice are
  natural numbers, which each theory says; sizes, hashes and lengths that the code lets wrap around
  are words or are reduced explicitly.

  \<^bold>\<open>Defects.\<close> Where the code does not do what it says, a theorem or a lemma exhibits it: connections
  that are never recycled, a freed client or router that is still used, frames lost by the WebSocket
  read path, a log tail that corrupts later messages, and others named in the theories.

  \<^bold>\<open>Not modelled.\<close> Parts that consist of calls to libraries outside of the repository (llhttp, nghttp2,
  OpenSSL, yyjson, libuv and io_uring, database and HTTP clients), texts and formats without logic of
  their own (documentation pages, metrics, logs), the workflow engine and its language-model nodes,
  floating-point code (the sliding window limiter, vector distances), weaker memory orders than
  sequential consistency, and the release of memory at shutdown where it has no other effect.
\<close>

end
